(* ===== verification/Prelude.thy ===== *)
theory Prelude
  imports Main "HOL-Library.Word"
begin

text \<open>
  Vocabulary shared by every component: the fixed-width integer types of the code, the
  half-open counting loop over sequence numbers, splitting a buffer into pieces of bounded
  size, the little-endian and network byte orders, and the address of a socket.

  Conventions. A \<open>uintN_t\<close> is an \<open>N word\<close>; a buffer is a list of bytes; a pointer into a
  buffer is the list of bytes from that position on. The host is little-endian with 64-bit
  \<open>size_t\<close> (the code uses the x86 intrinsics of \<open>emmintrin.h\<close>).
\<close>

unbundle bit_operations_syntax

type_synonym u8 = "8 word"
type_synonym u16 = "16 word"
type_synonym u32 = "32 word"
type_synonym u64 = "64 word"
type_synonym bytes = "u8 list"

text \<open>Facts that turn word arithmetic into arithmetic on naturals.\<close>

named_theorems unat_facts

declare unat_of_nat [unat_facts]
declare unat_word_ariths [unat_facts]

section \<open>Counting loops over wrapping integers\<close>

text \<open>
  The values \<open>i\<close> takes in \<open>for (uint16_t i = start; i != end; i++)\<close>: the loop stops at
  \<open>end\<close> by inequality, so it wraps from the largest value to 0 and always ends.
\<close>

lemma unat_minus_Suc_less:
  fixes i e :: "'a::len word"
  assumes "i \<noteq> e"
  shows "unat (e - (i + 1)) < unat (e - i)"
proof -
  from assms have nz: "e - i \<noteq> 0" by simp
  then have "unat (e - i - 1) = unat (e - i) - 1" by (rule unat_minus_one)
  moreover from nz have "0 < unat (e - i)" by (simp add: unat_gt_0)
  ultimately show ?thesis by (simp add: diff_diff_eq [symmetric])
qed

lemma unat_Suc_less: "i < (n :: 'a::len word) \<Longrightarrow> unat (i + 1) = Suc (unat i)"
proof -
  assume "i < n"
  then have "Suc (unat i) \<le> unat n" by (simp add: word_less_nat_alt)
  also have "unat n < 2 ^ LENGTH('a)" by (rule unsigned_less)
  finally have "Suc (unat i) mod 2 ^ LENGTH('a) = Suc (unat i)" by (rule mod_less)
  then show ?thesis by (simp add: unat_word_ariths)
qed

function seq_upto :: "'a::len word \<Rightarrow> 'a word \<Rightarrow> 'a word list" where
  "seq_upto i e = (if i = e then [] else i # seq_upto (i + 1) e)"
  by pat_completeness auto
termination
  by (relation "measure (\<lambda>(i, e). unat (e - i))") (auto intro: unat_minus_Suc_less)

declare seq_upto.simps [simp del]

lemma seq_upto_same [simp]: "seq_upto i i = []"
  by (simp add: seq_upto.simps)

lemma seq_upto_step: "i \<noteq> e \<Longrightarrow> seq_upto i e = i # seq_upto (i + 1) e"
  by (simp add: seq_upto.simps [of i e])

lemma length_seq_upto [simp]: "length (seq_upto i e) = unat (e - i)"
proof (induction i e rule: seq_upto.induct)
  case (1 i e)
  show ?case
  proof (cases "i = e")
    case False
    then have "e - i \<noteq> 0" by simp
    then have "unat (e - i - 1) = unat (e - i) - 1" and "0 < unat (e - i)"
      by (simp_all add: unat_minus_one unat_gt_0)
    then have "Suc (unat (e - (i + 1))) = unat (e - i)" by (simp add: diff_diff_eq [symmetric])
    with 1 False show ?thesis by (simp add: seq_upto_step)
  qed simp
qed

lemma seq_upto_nth: "k < unat (e - i) \<Longrightarrow> seq_upto i e ! k = i + of_nat k"
proof (induction i e arbitrary: k rule: seq_upto.induct)
  case (1 i e)
  then have ne: "i \<noteq> e" by auto
  show ?case
  proof (cases k)
    case 0
    with ne show ?thesis by (simp add: seq_upto_step)
  next
    case (Suc j)
    with "1.prems" ne have "Suc j < length (i # seq_upto (i + 1) e)"
      by (metis length_seq_upto seq_upto_step)
    then have "j < unat (e - (i + 1))" by simp
    with 1 ne Suc show ?thesis by (simp add: seq_upto_step)
  qed
qed

lemma seq_upto_map: "seq_upto i e = map (\<lambda>k. i + of_nat k) [0..<unat (e - i)]"
  by (rule nth_equalityI) (simp_all add: seq_upto_nth)

lemma set_seq_upto: "set (seq_upto i e) = {x. unat (x - i) < unat (e - i)}"
proof (intro set_eqI iffI)
  fix x assume "x \<in> set (seq_upto i e)"
  then obtain k where k: "k < unat (e - i)" and x: "x = i + of_nat k"
    by (auto simp: seq_upto_map)
  have "k < 2 ^ LENGTH('a)" using k by (meson order_less_trans unsigned_less)
  then have "unat (x - i) = k" by (simp add: x unat_of_nat)
  with k show "x \<in> {x. unat (x - i) < unat (e - i)}" by simp
next
  fix x assume "x \<in> {x. unat (x - i) < unat (e - i)}"
  then have "seq_upto i e ! unat (x - i) = x" and "unat (x - i) < length (seq_upto i e)"
    by (simp_all add: seq_upto_nth)
  then show "x \<in> set (seq_upto i e)" by (metis nth_mem)
qed

lemma distinct_seq_upto [simp]: "distinct (seq_upto i (e :: 'a::len word))"
proof -
  have "inj_on (\<lambda>k. i + of_nat k :: 'a word) (set [0..<unat (e - i)])"
  proof (rule inj_onI)
    fix a b
    assume a: "a \<in> set [0..<unat (e - i)]" and b: "b \<in> set [0..<unat (e - i)]"
      and eq: "i + of_nat a = (i + of_nat b :: 'a word)"
    have "a < 2 ^ LENGTH('a)" "b < 2 ^ LENGTH('a)"
      using a b by (auto intro: order_less_trans [OF _ unsigned_less])
    moreover from eq have "(of_nat a :: 'a word) = of_nat b" by simp
    ultimately show "a = b" by (metis unat_of_nat mod_less)
  qed
  then show ?thesis by (simp add: seq_upto_map distinct_map)
qed

lemma seq_upto_append:
  assumes "n < 2 ^ LENGTH('a::len)"
  shows "seq_upto i (i + of_nat n :: 'a word) = map (\<lambda>k. i + of_nat k) [0..<n]"
  using assms by (simp add: seq_upto_map unat_of_nat)

section \<open>Splitting a buffer into pieces of bounded size\<close>

function chunks :: "nat \<Rightarrow> 'a list \<Rightarrow> 'a list list" where
  "chunks m xs = (if xs = [] \<or> m = 0 then [] else take m xs # chunks m (drop m xs))"
  by pat_completeness auto
termination
  by (relation "measure (\<lambda>(m, xs). length xs)") auto

declare chunks.simps [simp del]

lemma chunks_Nil [simp]: "chunks m [] = []"
  by (simp add: chunks.simps)

lemma chunks_step: "0 < m \<Longrightarrow> xs \<noteq> [] \<Longrightarrow> chunks m xs = take m xs # chunks m (drop m xs)"
  by (simp add: chunks.simps [of m xs])

lemma concat_chunks: "0 < m \<Longrightarrow> concat (chunks m xs) = xs"
proof (induction m xs rule: chunks.induct)
  case (1 m xs)
  then show ?case by (cases "xs = []") (auto simp: chunks_step)
qed

lemma chunk_size: "c \<in> set (chunks m xs) \<Longrightarrow> 0 < length c \<and> length c \<le> m"
proof (induction m xs rule: chunks.induct)
  case (1 m xs)
  then have ne: "xs \<noteq> []" "0 < m" by (auto simp: chunks.simps [of m xs] split: if_splits)
  with 1 show ?case by (auto simp: chunks_step)
qed

lemma length_chunks: "0 < m \<Longrightarrow> length (chunks m xs) = (length xs + m - 1) div m"
proof (induction m xs rule: chunks.induct)
  case (1 m xs)
  show ?case
  proof (cases "xs = []")
    case True
    with "1.prems" show ?thesis by simp
  next
    case False
    with 1 have IH: "length (chunks m (drop m xs)) = (length xs - m + m - 1) div m" by simp
    have "Suc ((length xs - m + m - 1) div m) = (length xs + m - 1) div m"
    proof (cases "length xs \<le> m")
      case True
      then have "length xs + m - 1 = (length xs - 1) + m" using False by (cases xs) auto
      moreover have "(length xs - 1 + m) div m = Suc ((length xs - 1) div m)"
        using "1.prems" div_add_self2 [of m "length xs - 1"] by linarith
      moreover have "(length xs - 1) div m = 0" using True False by (cases xs) auto
      moreover have "(length xs - m + m - 1) div m = 0" using True "1.prems" by simp
      ultimately show ?thesis by presburger
    next
      case large: False
      then have "length xs + m - 1 = (length xs - m + m - 1) + m" using "1.prems" by simp
      moreover have "(length xs - m + m - 1 + m) div m = Suc ((length xs - m + m - 1) div m)"
        using "1.prems" div_add_self2 [of m "length xs - m + m - 1"] by linarith
      ultimately show ?thesis by presburger
    qed
    with IH False "1.prems" show ?thesis by (simp add: chunks_step)
  qed
qed

lemma nth_chunks: "0 < m \<Longrightarrow> k < length (chunks m xs) \<Longrightarrow> chunks m xs ! k = take m (drop (k * m) xs)"
proof (induction m xs arbitrary: k rule: chunks.induct)
  case (1 m xs)
  then have ne: "xs \<noteq> []" by auto
  show ?case
  proof (cases k)
    case 0
    with 1 ne show ?thesis by (simp add: chunks_step)
  next
    case (Suc j)
    with 1 ne show ?thesis by (simp add: chunks_step add.commute)
  qed
qed

lemma length_chunks_iff:
  assumes "0 < m"
  shows "k < length (chunks m xs) \<longleftrightarrow> k * m < length xs"
proof -
  have "k < length (chunks m xs) \<longleftrightarrow> Suc k * m \<le> length xs + m - 1"
    using assms by (simp add: length_chunks less_eq_div_iff_mult_less_eq Suc_le_eq [symmetric] del: mult_Suc)
  then show ?thesis using assms by (cases xs) auto
qed

lemma chunks_all_even:
  assumes "0 < m" and "even m" and "even (length xs)" and "c \<in> set (chunks m xs)"
  shows "even (length c)"
  using assms
proof (induction m xs rule: chunks.induct)
  case (1 m xs)
  then have ne: "xs \<noteq> []" by auto
  then have "chunks m xs = take m xs # chunks m (drop m xs)" using "1.prems"(1) by (simp add: chunks_step)
  with "1.prems"(4) consider "c = take m xs" | "c \<in> set (chunks m (drop m xs))" by auto
  then show ?case
  proof cases
    case 1
    with "1.prems"(2,3) show ?thesis by (simp add: min_def)
  next
    case 2
    with "1.IH" "1.prems" ne show ?thesis by simp
  qed
qed

section \<open>Writing into a buffer\<close>

text \<open>
  \<open>memcpy(dest + off, src, n)\<close>: \<open>None\<close> when it would write past the end of the buffer, which
  is undefined behaviour in the code.
\<close>

definition write_at :: "nat \<Rightarrow> 'a list \<Rightarrow> 'a list \<Rightarrow> 'a list option" where
  "write_at off src dest =
     (if off + length src \<le> length dest
      then Some (take off dest @ src @ drop (off + length src) dest)
      else None)"

lemma write_at_length: "write_at off src dest = Some dest' \<Longrightarrow> length dest' = length dest"
  by (auto simp: write_at_def split: if_splits)

lemma write_at_prefix:
  assumes "length done + length src \<le> length dest" and "take (length done) dest = done"
  shows "write_at (length done) src dest
    = Some (done @ src @ drop (length done + length src) dest)"
  using assms by (simp add: write_at_def)

section \<open>Byte orders\<close>

text \<open>Storing a \<open>uint16_t\<close> through a byte pointer on the little-endian host, and reading it.\<close>

definition le16 :: "u16 \<Rightarrow> bytes" where
  "le16 x = [ucast x, ucast (drop_bit 8 x)]"

definition rd16 :: "u8 \<Rightarrow> u8 \<Rightarrow> u16" where
  "rd16 a b = ucast a OR push_bit 8 (ucast b)"

definition le32 :: "u32 \<Rightarrow> bytes" where
  "le32 x = [ucast x, ucast (drop_bit 8 x), ucast (drop_bit 16 x), ucast (drop_bit 24 x)]"

definition rd32 :: "u8 \<Rightarrow> u8 \<Rightarrow> u8 \<Rightarrow> u8 \<Rightarrow> u32" where
  "rd32 a b c d =
     ucast a OR push_bit 8 (ucast b) OR push_bit 16 (ucast c) OR push_bit 24 (ucast d)"

definition le64 :: "u64 \<Rightarrow> bytes" where
  "le64 x = le32 (ucast x) @ le32 (ucast (drop_bit 32 x))"

definition rd64 :: "bytes \<Rightarrow> u64" where
  "rd64 bs = foldr (\<lambda>b acc. ucast b OR push_bit 8 acc) bs 0"

text \<open>\<open>struct sockaddr_in\<close>, every field as it lies in memory.\<close>

record sockaddr_in =
  sin_family :: u16
  sin_addr :: u32
  sin_port :: u16

definition AF_INET :: u16 where
  "AF_INET = 2"

text \<open>\<open>htons\<close> and \<open>ntohs\<close> swap the two bytes on this host.\<close>

definition htons :: "u16 \<Rightarrow> u16" where
  "htons x = push_bit 8 x OR drop_bit 8 x"

lemma length_le16 [simp]: "length (le16 x) = 2"
  by (simp add: le16_def)

lemma length_le32 [simp]: "length (le32 x) = 4"
  by (simp add: le32_def)

lemma rd16_le16: "rd16 (ucast x) (ucast (drop_bit 8 x)) = (x :: u16)"
  by (rule bit_word_eqI) (auto simp: rd16_def bit_simps)

lemma rd32_le32:
  "rd32 (ucast x) (ucast (drop_bit 8 x)) (ucast (drop_bit 16 x)) (ucast (drop_bit 24 x)) = (x :: u32)"
proof (rule bit_word_eqI)
  fix n :: nat assume "n < LENGTH(32)"
  then consider "n < 8" | "8 \<le> n" "n < 16" | "16 \<le> n" "n < 24" | "24 \<le> n" "n < 32"
    by fastforce
  then show "bit (rd32 (ucast x) (ucast (drop_bit 8 x)) (ucast (drop_bit 16 x))
      (ucast (drop_bit 24 x))) n = bit x n"
    by cases (auto simp add: rd32_def bit_simps)
qed

lemma length_le64 [simp]: "length (le64 x) = 8"
  by (simp add: le64_def)

lemma rd64_le64 [simp]: "rd64 (le64 x) = x"
proof (rule bit_word_eqI)
  fix n :: nat assume "n < LENGTH(64)"
  then consider "n < 8" | "8 \<le> n" "n < 16" | "16 \<le> n" "n < 24" | "24 \<le> n" "n < 32"
    | "32 \<le> n" "n < 40" | "40 \<le> n" "n < 48" | "48 \<le> n" "n < 56" | "56 \<le> n" "n < 64"
    by fastforce
  then show "bit (rd64 (le64 x)) n = bit x n"
    by cases (auto simp add: rd64_def le64_def le32_def bit_simps)
qed

lemma htons_htons [simp]: "htons (htons x) = x"
  by (rule bit_word_eqI) (auto simp: htons_def bit_simps)


text \<open>Widening or narrowing a small number.\<close>

lemma ucast_of_nat_small:
  assumes "k < 2 ^ LENGTH('a::len)"
  shows "ucast (of_nat k :: 'a word) = (of_nat k :: 'b::len word)"
proof -
  have "unat (of_nat k :: 'a word) = k" using assms by (simp add: unat_of_nat)
  then show ?thesis by (metis of_nat_unat)
qed

end
