(* ===== verification/Assoc_Map.thy ===== *)
theory Assoc_Map
  imports Prelude
begin

text \<open>
  The map containers of the C++ library the components use. Both are association lists in
  iteration order: \<open>std::map\<close> (\<open>om_\<dots>\<close>) keeps its entries strictly sorted by key,
  \<open>std::unordered_map\<close> (\<open>um_\<dots>\<close>) keeps distinct keys in an order the library does not
  specify, so that every statement about one quantifies over the whole list. The locale
  \<open>assoc_map\<close> is what the clients rely on: lookup after \<open>emplace\<close> (which never overwrites)
  and after \<open>erase\<close>. It is interpreted on both containers.
\<close>

section \<open>The interface\<close>

locale assoc_map =
  fixes find :: "'m \<Rightarrow> 'k \<Rightarrow> 'v option"
    and emplace :: "'k \<Rightarrow> 'v \<Rightarrow> 'm \<Rightarrow> 'm"
    and erase :: "'k \<Rightarrow> 'm \<Rightarrow> 'm"
    and wf :: "'m \<Rightarrow> bool"
  assumes find_emplace:
      "wf m \<Longrightarrow> find (emplace k v m) j = (if j = k \<and> find m k = None then Some v else find m j)"
    and find_erase: "wf m \<Longrightarrow> find (erase k m) j = (if j = k then None else find m j)"
    and wf_emplace: "wf m \<Longrightarrow> wf (emplace k v m)"
    and wf_erase: "wf m \<Longrightarrow> wf (erase k m)"
begin

lemma wf_erase_all: "wf m \<Longrightarrow> wf (fold erase ks m)"
  by (induction ks arbitrary: m) (simp_all add: wf_erase)

lemma find_erase_all:
  "wf m \<Longrightarrow> find (fold erase ks m) j = (if j \<in> set ks then None else find m j)"
  by (induction ks arbitrary: m) (auto simp: wf_erase find_erase)

lemma wf_emplace_all: "wf m \<Longrightarrow> wf (fold (\<lambda>(k, v). emplace k v) kvs m)"
  by (induction kvs arbitrary: m) (auto simp: wf_emplace)

text \<open>An entry once present is never changed by later insertions: the first one wins.\<close>

lemma find_emplace_old:
  "wf m \<Longrightarrow> find m j = Some w \<Longrightarrow> find (emplace k v m) j = Some w"
  by (auto simp: find_emplace)

lemma find_emplace_all_old:
  "wf m \<Longrightarrow> find m j = Some w \<Longrightarrow> find (fold (\<lambda>(k, v). emplace k v) kvs m) j = Some w"
  by (induction kvs arbitrary: m) (auto simp: wf_emplace find_emplace_old)

lemma find_emplace_all_other:
  "wf m \<Longrightarrow> j \<notin> fst ` set kvs \<Longrightarrow> find (fold (\<lambda>(k, v). emplace k v) kvs m) j = find m j"
  by (induction kvs arbitrary: m) (auto simp: wf_emplace find_emplace)

text \<open>
  Inserting pairs that agree with a partial function \<open>g\<close>, in any order and with repetitions,
  makes the container agree with \<open>g\<close> on their keys.
\<close>

lemma find_emplace_all_agree:
  assumes "wf m" and "\<And>k v. (k, v) \<in> set kvs \<Longrightarrow> g k = Some v"
    and "\<And>k. k \<in> fst ` set kvs \<Longrightarrow> find m k = None \<or> find m k = g k"
    and "j \<in> fst ` set kvs"
  shows "find (fold (\<lambda>(k, v). emplace k v) kvs m) j = g j"
  using assms
proof (induction kvs arbitrary: m)
  case Nil
  then show ?case by simp
next
  case (Cons p kvs)
  obtain k v where p: "p = (k, v)" by (cases p)
  have gk: "g k = Some v" using Cons.prems(2) p by simp
  have mk: "find m k = None \<or> find m k = Some v"
    using Cons.prems(3) [of k] p gk by simp
  let ?m = "emplace k v m"
  have wf': "wf ?m" using Cons.prems(1) by (rule wf_emplace)
  have fk: "find ?m k = Some v" using Cons.prems(1) mk by (auto simp: find_emplace)
  show ?case
  proof (cases "j = k")
    case True
    have "find (fold (\<lambda>(k, v). emplace k v) kvs ?m) k = Some v"
      using wf' fk by (rule find_emplace_all_old)
    with True p gk show ?thesis by simp
  next
    case False
    have "find (fold (\<lambda>(k, v). emplace k v) kvs ?m) j = g j"
    proof (rule Cons.IH [OF wf'])
      show "g a = Some b" if "(a, b) \<in> set kvs" for a b using Cons.prems(2) that by simp
      show "find ?m a = None \<or> find ?m a = g a" if "a \<in> fst ` set kvs" for a
        using Cons.prems(1,3) that fk gk by (auto simp: find_emplace)
      show "j \<in> fst ` set kvs" using Cons.prems(4) False p by auto
    qed
    with p show ?thesis by simp
  qed
qed

end

section \<open>std::map\<close>

type_synonym ('k, 'v) omap = "('k \<times> 'v) list"

definition om_wf :: "('k::linorder, 'v) omap \<Rightarrow> bool" where
  "om_wf m \<longleftrightarrow> sorted_wrt (<) (map fst m)"

definition om_find :: "('k, 'v) omap \<Rightarrow> 'k \<Rightarrow> 'v option" where
  "om_find m k = map_of m k"

fun om_emplace :: "'k::linorder \<Rightarrow> 'v \<Rightarrow> ('k, 'v) omap \<Rightarrow> ('k, 'v) omap" where
  "om_emplace k v [] = [(k, v)]"
| "om_emplace k v ((a, b) # m) =
     (if k < a then (k, v) # (a, b) # m
      else if k = a then (a, b) # m
      else (a, b) # om_emplace k v m)"

text \<open>\<open>m[k] = v\<close>: insert or overwrite.\<close>

fun om_assign :: "'k::linorder \<Rightarrow> 'v \<Rightarrow> ('k, 'v) omap \<Rightarrow> ('k, 'v) omap" where
  "om_assign k v [] = [(k, v)]"
| "om_assign k v ((a, b) # m) =
     (if k < a then (k, v) # (a, b) # m
      else if k = a then (a, v) # m
      else (a, b) # om_assign k v m)"

definition om_erase :: "'k \<Rightarrow> ('k, 'v) omap \<Rightarrow> ('k, 'v) omap" where
  "om_erase k m = filter (\<lambda>p. fst p \<noteq> k) m"

text \<open>Iterators are positions; \<open>end()\<close> is the length.\<close>

definition om_lower_bound :: "('k::linorder, 'v) omap \<Rightarrow> 'k \<Rightarrow> nat" where
  "om_lower_bound m k = length (takeWhile (\<lambda>p. fst p < k) m)"

definition om_upper_bound :: "('k::linorder, 'v) omap \<Rightarrow> 'k \<Rightarrow> nat" where
  "om_upper_bound m k = length (takeWhile (\<lambda>p. fst p \<le> k) m)"

lemma om_wf_Nil [simp]: "om_wf []"
  by (simp add: om_wf_def)

lemma om_wf_Cons: "om_wf ((a, b) # m) \<longleftrightarrow> (\<forall>k \<in> fst ` set m. a < k) \<and> om_wf m"
  by (auto simp: om_wf_def)

lemma om_find_Nil [simp]: "om_find [] k = None"
  by (simp add: om_find_def)

lemma om_find_Cons [simp]: "om_find ((a, b) # m) k = (if k = a then Some b else om_find m k)"
  by (simp add: om_find_def)

lemma om_find_None_iff: "om_find m k = None \<longleftrightarrow> k \<notin> fst ` set m"
  by (simp add: om_find_def map_of_eq_None_iff)

lemma om_find_in_set: "om_find m k = Some v \<Longrightarrow> (k, v) \<in> set m"
  by (simp add: om_find_def map_of_SomeD)

lemma keys_om_emplace: "fst ` set (om_emplace k v m) = insert k (fst ` set m)"
  by (induction k v m rule: om_emplace.induct) auto

lemma keys_om_assign: "fst ` set (om_assign k v m) = insert k (fst ` set m)"
  by (induction k v m rule: om_assign.induct) auto

lemma om_wf_emplace: "om_wf m \<Longrightarrow> om_wf (om_emplace k v m)"
  by (induction k v m rule: om_emplace.induct) (auto simp: om_wf_Cons keys_om_emplace ball_Un)

lemma om_wf_assign: "om_wf m \<Longrightarrow> om_wf (om_assign k v m)"
  by (induction k v m rule: om_assign.induct) (auto simp: om_wf_Cons keys_om_assign)

lemma om_find_emplace:
  "om_wf m \<Longrightarrow>
   om_find (om_emplace k v m) j = (if j = k \<and> om_find m k = None then Some v else om_find m j)"
proof (induction k v m rule: om_emplace.induct)
  case (2 k v a b m)
  have *: "om_find m k = None" if "k < a"
    using "2.prems" that by (auto simp: om_wf_Cons om_find_None_iff)
  from 2 show ?case by (auto simp: om_wf_Cons *)
qed simp

lemma om_find_assign:
  "om_wf m \<Longrightarrow> om_find (om_assign k v m) j = (if j = k then Some v else om_find m j)"
proof (induction k v m rule: om_assign.induct)
  case (2 k v a b m)
  then show ?case by (auto simp: om_wf_Cons)
qed simp

lemma om_find_erase: "om_find (om_erase k m) j = (if j = k then None else om_find m j)"
  by (induction m) (auto simp: om_erase_def om_find_def)

lemma om_wf_erase: "om_wf m \<Longrightarrow> om_wf (om_erase k m)"
  by (induction m) (auto simp: om_erase_def om_wf_def)

lemma om_erase_absent: "om_find m k = None \<Longrightarrow> om_erase k m = m"
  by (force simp: om_erase_def om_find_None_iff filter_id_conv)

interpretation om: assoc_map om_find om_emplace om_erase om_wf
  by unfold_locales (simp_all add: om_find_emplace om_find_erase om_wf_emplace om_wf_erase)

section \<open>std::unordered\_map\<close>

type_synonym ('k, 'v) umap = "('k \<times> 'v) list"

definition um_wf :: "('k, 'v) umap \<Rightarrow> bool" where
  "um_wf m \<longleftrightarrow> distinct (map fst m)"

definition um_find :: "('k, 'v) umap \<Rightarrow> 'k \<Rightarrow> 'v option" where
  "um_find m k = map_of m k"

definition um_emplace :: "'k \<Rightarrow> 'v \<Rightarrow> ('k, 'v) umap \<Rightarrow> ('k, 'v) umap" where
  "um_emplace k v m = (if um_find m k = None then (k, v) # m else m)"

definition um_erase :: "'k \<Rightarrow> ('k, 'v) umap \<Rightarrow> ('k, 'v) umap" where
  "um_erase k m = filter (\<lambda>p. fst p \<noteq> k) m"

lemma um_wf_Nil [simp]: "um_wf []"
  by (simp add: um_wf_def)

lemma um_find_Nil [simp]: "um_find [] k = None"
  by (simp add: um_find_def)

lemma um_find_Cons [simp]: "um_find ((a, b) # m) k = (if k = a then Some b else um_find m k)"
  by (simp add: um_find_def)

lemma um_find_None_iff: "um_find m k = None \<longleftrightarrow> k \<notin> fst ` set m"
  by (simp add: um_find_def map_of_eq_None_iff)

lemma um_find_in_set: "um_find m k = Some v \<Longrightarrow> (k, v) \<in> set m"
  by (simp add: um_find_def map_of_SomeD)

lemma um_find_emplace:
  "um_find (um_emplace k v m) j = (if j = k \<and> um_find m k = None then Some v else um_find m j)"
  by (auto simp: um_emplace_def)

lemma um_wf_emplace: "um_wf m \<Longrightarrow> um_wf (um_emplace k v m)"
  by (auto simp: um_wf_def um_emplace_def um_find_None_iff)

lemma um_find_erase: "um_find (um_erase k m) j = (if j = k then None else um_find m j)"
  by (induction m) (auto simp: um_erase_def um_find_def)

lemma um_wf_erase: "um_wf m \<Longrightarrow> um_wf (um_erase k m)"
  by (auto simp: um_wf_def um_erase_def distinct_map intro: inj_on_subset)

interpretation um: assoc_map um_find um_emplace um_erase um_wf
  by unfold_locales (simp_all add: um_find_emplace um_find_erase um_wf_emplace um_wf_erase)

end
