(* ===== verification/Packet_Queue.thy ===== *)
theory Packet_Queue
  imports Assoc_Map
begin

text \<open>
  \<open>packet_queue.h\<close>: packet descriptors, the receive queue, which collects packets under their
  16-bit sequence numbers and reassembles ranges of them, and the send queue, which numbers
  and splits outgoing buffers. Sequence numbers wrap; ranges are half-open.

  \<open>packets.emplace(seq, size, data)\<close> stands for inserting a descriptor built from
  \<open>(size, data)\<close>. \<open>alloc n\<close> says whether \<open>malloc(n)\<close> succeeds. \<open>Out_of_bounds\<close> marks reads or
  writes outside a buffer, undefined in the code.
\<close>

section \<open>Packet descriptors\<close>

datatype pq_exc = Bad_alloc | Packet_not_found | Out_of_bounds

record packet_descr =
  pd_size :: u32
  pd_data :: "bytes option"

definition is_data :: "packet_descr \<Rightarrow> bool" where
  "is_data d \<longleftrightarrow> \<not> (pd_size d AND 1 \<noteq> 0)"

definition descr_new :: "(u32 \<Rightarrow> bool) \<Rightarrow> u32 \<Rightarrow> bytes \<Rightarrow> pq_exc + packet_descr" where
  "descr_new alloc sz data =
     (if sz \<noteq> 0 then
        if \<not> alloc sz then Inl Bad_alloc
        else if length data < unat sz then Inl Out_of_bounds
        else Inr \<lparr>pd_size = sz, pd_data = Some (take (unat sz) data)\<rparr>
      else Inr \<lparr>pd_size = sz, pd_data = None\<rparr>)"

text \<open>
  The copy constructor builds a temporary and drops it: the copy keeps the member defaults.
\<close>

definition descr_copy :: "(u32 \<Rightarrow> bool) \<Rightarrow> packet_descr \<Rightarrow> pq_exc + packet_descr" where
  "descr_copy alloc other =
     (case descr_new alloc (pd_size other) (case pd_data other of None \<Rightarrow> [] | Some b \<Rightarrow> b) of
        Inl e \<Rightarrow> Inl e
      | Inr _ \<Rightarrow> Inr \<lparr>pd_size = 0, pd_data = None\<rparr>)"

text \<open>The move constructor: the new descriptor and what is left of the old one.\<close>

definition descr_move :: "packet_descr \<Rightarrow> packet_descr \<times> packet_descr" where
  "descr_move other =
     (\<lparr>pd_size = pd_size other, pd_data = pd_data other\<rparr>,
      other\<lparr>pd_data := None, pd_size := 0\<rparr>)"

lemma descr_move_eq: "descr_move d = (d, \<lparr>pd_size = 0, pd_data = None\<rparr>)"
  by (cases d) (simp add: descr_move_def)

definition descr_clear :: "packet_descr \<Rightarrow> packet_descr" where
  "descr_clear d = d\<lparr>pd_data := None\<rparr>"

text \<open>The bytes \<open>memcpy(\<dots>, d.data, d.size)\<close> reads.\<close>

definition descr_bytes :: "packet_descr \<Rightarrow> bytes option" where
  "descr_bytes d =
     (if pd_size d = 0 then Some []
      else case pd_data d of
        None \<Rightarrow> None
      | Some b \<Rightarrow> if length b < unat (pd_size d) then None else Some (take (unat (pd_size d)) b))"

text \<open>A descriptor owns exactly \<open>size\<close> bytes, or none when \<open>size\<close> is 0.\<close>

definition wf_descr :: "packet_descr \<Rightarrow> bool" where
  "wf_descr d \<longleftrightarrow>
     (case pd_data d of None \<Rightarrow> pd_size d = 0 | Some b \<Rightarrow> length b = unat (pd_size d))"

definition descr_of :: "bytes \<Rightarrow> packet_descr" where
  "descr_of b = \<lparr>pd_size = of_nat (length b), pd_data = (if b = [] then None else Some b)\<rparr>"

lemma wf_descr_new: "descr_new alloc sz data = Inr d \<Longrightarrow> wf_descr d"
  by (auto simp: descr_new_def wf_descr_def split: if_splits)

lemma descr_new_size: "descr_new alloc sz data = Inr d \<Longrightarrow> pd_size d = sz"
  by (auto simp: descr_new_def split: if_splits)

lemma descr_new_of:
  assumes "alloc (of_nat (length b))" and "length b < 2 ^ 32"
  shows "descr_new alloc (of_nat (length b)) b = Inr (descr_of b)"
proof -
  have u: "unat (of_nat (length b) :: u32) = length b"
    using assms(2) by (simp add: unat_of_nat)
  have "(of_nat (length b) :: u32) = 0 \<longleftrightarrow> b = []"
    using u by (metis length_0_conv unat_eq_zero)
  with assms u show ?thesis by (auto simp: descr_new_def descr_of_def)
qed

lemma wf_descr_of: "length b < 2 ^ 32 \<Longrightarrow> wf_descr (descr_of b)"
  by (auto simp: descr_of_def wf_descr_def unat_of_nat)

lemma descr_bytes_wf: "wf_descr d \<Longrightarrow> \<exists>b. descr_bytes d = Some b \<and> length b = unat (pd_size d)"
  by (auto simp: wf_descr_def descr_bytes_def split: option.splits)

lemma descr_bytes_of: "length b < 2 ^ 32 \<Longrightarrow> descr_bytes (descr_of b) = Some b"
  using unat_of_nat [of "length b", where ?'a = 32]
  by (auto simp: descr_of_def descr_bytes_def)

lemma is_data_even: "is_data d \<longleftrightarrow> even (unat (pd_size d))"
  using bit_unsigned_iff [where ?'a = nat, of "pd_size d" 0]
  by (simp add: is_data_def and_one_eq bit_0 mod_2_eq_odd)

lemma is_data_of: "length b < 2 ^ 32 \<Longrightarrow> is_data (descr_of b) \<longleftrightarrow> even (length b)"
  by (simp add: is_data_even descr_of_def unat_of_nat)

text \<open>A copy never carries the packet: whenever it returns, it is the empty descriptor.\<close>

lemma descr_copy_loses_data:
  "descr_copy alloc d = Inr d' \<Longrightarrow> pd_data d' = None \<and> pd_size d' = 0"
  by (auto simp: descr_copy_def split: sum.splits)

section \<open>Packet tables\<close>

text \<open>
  Both queues keep a table of packets under sequence numbers and erase half-open ranges of
  it. \<open>packet_table\<close> is that contract; what clearing a range leaves is proved once.
\<close>

locale packet_table =
  fixes lookup :: "'q \<Rightarrow> u16 \<Rightarrow> packet_descr option"
    and clear_at :: "u16 \<Rightarrow> 'q \<Rightarrow> 'q"
    and wf :: "'q \<Rightarrow> bool"
  assumes lookup_clear_at: "wf q \<Longrightarrow> lookup (clear_at i q) j = (if j = i then None else lookup q j)"
    and wf_clear_at: "wf q \<Longrightarrow> wf (clear_at i q)"
begin

lemma wf_clear_all: "wf q \<Longrightarrow> wf (fold clear_at is q)"
  by (induction "is" arbitrary: q) (simp_all add: wf_clear_at)

lemma lookup_clear_all:
  "wf q \<Longrightarrow> lookup (fold clear_at is q) j = (if j \<in> set is then None else lookup q j)"
  by (induction "is" arbitrary: q) (auto simp: wf_clear_at lookup_clear_at)

lemma lookup_clear_range:
  "wf q \<Longrightarrow> lookup (fold clear_at (seq_upto a b) q) j
     = (if unat (j - a) < unat (b - a) then None else lookup q j)"
  by (simp add: lookup_clear_all set_seq_upto)

end

section \<open>The receive queue\<close>

record recv_queue =
  rq_start_seq :: u16
  rq_end_seq :: u16
  rq_packets :: "(u16, packet_descr) omap"
  rq_seq_mapping :: "(u16, u16) omap"

definition rq_init :: recv_queue where
  "rq_init = \<lparr>rq_start_seq = 1, rq_end_seq = 0, rq_packets = [], rq_seq_mapping = []\<rparr>"

definition rq_packets_count :: "recv_queue \<Rightarrow> nat" where
  "rq_packets_count q = length (rq_packets q)"

definition rq_packets_size :: "recv_queue \<Rightarrow> u32" where
  "rq_packets_size q = foldl (\<lambda>sz p. sz + pd_size (snd p)) 0 (rq_packets q)"

definition rq_data_packets_size :: "recv_queue \<Rightarrow> u32" where
  "rq_data_packets_size q =
     foldl (\<lambda>sz p. if is_data (snd p) then sz + pd_size (snd p) else sz) 0 (rq_packets q)"

text \<open>Following the mapping may never end: \<open>None\<close> is not returning.\<close>

partial_function (option) resolve_seq :: "(u16, u16) omap \<Rightarrow> u16 \<Rightarrow> u16 option" where
  "resolve_seq m seq =
     (case om_find m seq of
        None \<Rightarrow> Some seq
      | Some seq' \<Rightarrow> resolve_seq m seq')"

definition rq_clear_at :: "u16 \<Rightarrow> recv_queue \<Rightarrow> recv_queue" where
  "rq_clear_at i q =
     (let q1 = (case om_find (rq_packets q) i of
                  Some _ \<Rightarrow> q\<lparr>rq_packets := om_erase i (rq_packets q)\<rparr>
                | None \<Rightarrow> q)
      in case om_find (rq_seq_mapping q1) i of
           Some _ \<Rightarrow> q1\<lparr>rq_seq_mapping := om_erase i (rq_seq_mapping q1)\<rparr>
         | None \<Rightarrow> q1)"

definition rq_clear_range :: "u16 \<Rightarrow> u16 \<Rightarrow> recv_queue \<Rightarrow> recv_queue" where
  "rq_clear_range start end q = fold rq_clear_at (seq_upto start end) q"

definition rq_move_seq :: "u16 \<Rightarrow> recv_queue \<Rightarrow> recv_queue" where
  "rq_move_seq new_seq q =
     (rq_clear_range (rq_start_seq q) new_seq q)\<lparr>rq_start_seq := new_seq\<rparr>"

fun range_size_loop :: "recv_queue \<Rightarrow> u16 list \<Rightarrow> u32 \<Rightarrow> u32 option" where
  "range_size_loop q [] sz = Some sz"
| "range_size_loop q (i # is) sz =
     (case resolve_seq (rq_seq_mapping q) i of
        None \<Rightarrow> None
      | Some seq \<Rightarrow>
          (case om_find (rq_packets q) seq of
             Some d \<Rightarrow> range_size_loop q is (if is_data d then sz + pd_size d else sz)
           | None \<Rightarrow> Some (- 1)))"

definition compute_range_size :: "recv_queue \<Rightarrow> u16 \<Rightarrow> u16 \<Rightarrow> u32 option" where
  "compute_range_size q start end = range_size_loop q (seq_upto start end) 0"

fun missing_loop :: "recv_queue \<Rightarrow> u16 list \<Rightarrow> u16 list \<Rightarrow> u16 list option" where
  "missing_loop q [] missing = Some missing"
| "missing_loop q (i # is) missing =
     (case resolve_seq (rq_seq_mapping q) i of
        None \<Rightarrow> None
      | Some seq \<Rightarrow>
          missing_loop q is (if om_find (rq_packets q) seq = None then missing @ [i] else missing))"

definition find_missing_packets :: "recv_queue \<Rightarrow> u16 \<Rightarrow> u16 \<Rightarrow> u16 list \<Rightarrow> u16 list option" where
  "find_missing_packets q start end missing = missing_loop q (seq_upto start end) missing"

definition rq_push_packet ::
  "(u32 \<Rightarrow> bool) \<Rightarrow> u16 \<Rightarrow> bytes \<Rightarrow> u32 \<Rightarrow> recv_queue \<Rightarrow> pq_exc + recv_queue" where
  "rq_push_packet alloc seq data sz q =
     (case descr_new alloc sz data of
        Inl e \<Rightarrow> Inl e
      | Inr d \<Rightarrow> Inr (q\<lparr>rq_packets := om_emplace seq d (rq_packets q)\<rparr>))"

fun copy_loop :: "recv_queue \<Rightarrow> u16 list \<Rightarrow> u32 \<Rightarrow> bytes \<Rightarrow> (pq_exc + bytes) option" where
  "copy_loop q [] offset data = Some (Inr data)"
| "copy_loop q (i # is) offset data =
     (case resolve_seq (rq_seq_mapping q) i of
        None \<Rightarrow> None
      | Some seq \<Rightarrow>
          (case om_find (rq_packets q) seq of
             Some d \<Rightarrow>
               (if is_data d then
                  (case descr_bytes d of
                     None \<Rightarrow> Some (Inl Out_of_bounds)
                   | Some b \<Rightarrow>
                       (case write_at (unat offset) b data of
                          None \<Rightarrow> Some (Inl Out_of_bounds)
                        | Some data' \<Rightarrow> copy_loop q is (offset + pd_size d) data'))
                else copy_loop q is offset data)
           | None \<Rightarrow> Some (Inl Packet_not_found)))"

definition copy_data :: "recv_queue \<Rightarrow> bytes \<Rightarrow> u16 \<Rightarrow> u16 \<Rightarrow> (pq_exc + bytes) option" where
  "copy_data q data start end = copy_loop q (seq_upto start end) 0 data"

section \<open>The send queue\<close>

record send_queue =
  sq_mtu :: u32
  sq_start_seq :: u16
  sq_end_seq :: u16
  sq_packets :: "(u16, packet_descr) omap"

definition sq_init :: send_queue where
  "sq_init = \<lparr>sq_mtu = 1024, sq_start_seq = 1, sq_end_seq = 0, sq_packets = []\<rparr>"

definition sq_packets_count :: "send_queue \<Rightarrow> nat" where
  "sq_packets_count q = length (sq_packets q)"

definition sq_packets_size :: "send_queue \<Rightarrow> u32" where
  "sq_packets_size q = foldl (\<lambda>sz p. sz + pd_size (snd p)) 0 (sq_packets q)"

definition sq_data_packets_size :: "send_queue \<Rightarrow> u32" where
  "sq_data_packets_size q =
     foldl (\<lambda>sz p. if is_data (snd p) then sz + pd_size (snd p) else sz) 0 (sq_packets q)"

definition sq_clear_at :: "u16 \<Rightarrow> send_queue \<Rightarrow> send_queue" where
  "sq_clear_at i q =
     (case om_find (sq_packets q) i of
        Some _ \<Rightarrow> q\<lparr>sq_packets := om_erase i (sq_packets q)\<rparr>
      | None \<Rightarrow> q)"

definition sq_clear_range :: "u16 \<Rightarrow> u16 \<Rightarrow> send_queue \<Rightarrow> send_queue" where
  "sq_clear_range start end q = fold sq_clear_at (seq_upto start end) q"

text \<open>\<open>++end_seq\<close> happens before the descriptor is built, so it stays when that throws.\<close>

definition sq_push_packet ::
  "(u32 \<Rightarrow> bool) \<Rightarrow> u32 \<Rightarrow> bytes \<Rightarrow> send_queue \<Rightarrow> pq_exc option \<times> send_queue" where
  "sq_push_packet alloc sz data q =
     (let q1 = q\<lparr>sq_end_seq := sq_end_seq q + 1\<rparr>
      in case descr_new alloc sz data of
           Inl e \<Rightarrow> (Some e, q1)
         | Inr d \<Rightarrow> (None, q1\<lparr>sq_packets := om_emplace (sq_end_seq q1) d (sq_packets q1)\<rparr>))"

text \<open>
  Whether \<open>emplace\<close> builds (and so moves into) the node before it finds the key taken is
  left open by the library: \<open>eager\<close>.
\<close>

definition move_packet_up :: "bool \<Rightarrow> u16 \<Rightarrow> send_queue \<Rightarrow> send_queue" where
  "move_packet_up eager seq q =
     (let new_seq = sq_end_seq q + 1;
          q1 = q\<lparr>sq_end_seq := new_seq\<rparr>
      in case om_find (sq_packets q1) seq of
           Some d \<Rightarrow>
             (let (moved, left) = descr_move d
              in if om_find (sq_packets q1) new_seq = None
                 then q1\<lparr>sq_packets := om_emplace new_seq moved (om_assign seq left (sq_packets q1))\<rparr>
                 else if eager
                 then q1\<lparr>sq_packets := om_assign seq left (sq_packets q1)\<rparr>
                 else q1)
         | None \<Rightarrow> q1)"

partial_function (option) push_buffer_loop ::
  "(u32 \<Rightarrow> bool) \<Rightarrow> bytes \<Rightarrow> u32 \<Rightarrow> u32 \<Rightarrow> send_queue \<Rightarrow> (pq_exc option \<times> send_queue) option" where
  "push_buffer_loop alloc data sz offset q =
     (if offset < sz then
        (let packet_size = (if sz - offset > sq_mtu q then sq_mtu q else sz - offset)
         in case sq_push_packet alloc packet_size (drop (unat offset) data) q of
              (Some e, q') \<Rightarrow> Some (Some e, q')
            | (None, q') \<Rightarrow> push_buffer_loop alloc data sz (offset + packet_size) q')
      else Some (None, q))"

definition push_buffer ::
  "(u32 \<Rightarrow> bool) \<Rightarrow> bytes \<Rightarrow> u32 \<Rightarrow> send_queue \<Rightarrow> (pq_exc option \<times> send_queue) option" where
  "push_buffer alloc data sz q = push_buffer_loop alloc data sz 0 q"

section \<open>Well-formedness and what clearing leaves\<close>

definition wf_table :: "(u16, packet_descr) omap \<Rightarrow> bool" where
  "wf_table t \<longleftrightarrow> om_wf t \<and> (\<forall>d \<in> snd ` set t. wf_descr d)"

definition rq_wf :: "recv_queue \<Rightarrow> bool" where
  "rq_wf q \<longleftrightarrow> wf_table (rq_packets q) \<and> om_wf (rq_seq_mapping q)"

definition sq_wf :: "send_queue \<Rightarrow> bool" where
  "sq_wf q \<longleftrightarrow> wf_table (sq_packets q)"

lemma set_om_emplace: "set (om_emplace k v m) \<subseteq> insert (k, v) (set m)"
  by (induction k v m rule: om_emplace.induct) auto

lemma set_om_assign: "set (om_assign k v m) \<subseteq> insert (k, v) (set m)"
  by (induction k v m rule: om_assign.induct) auto

lemma set_om_erase: "set (om_erase k m) \<subseteq> set m"
  by (auto simp: om_erase_def)

lemma wf_table_emplace: "wf_table t \<Longrightarrow> wf_descr d \<Longrightarrow> wf_table (om_emplace k d t)"
  using set_om_emplace [of k d t] by (force simp: wf_table_def om_wf_emplace)

lemma wf_table_assign: "wf_table t \<Longrightarrow> wf_descr d \<Longrightarrow> wf_table (om_assign k d t)"
  using set_om_assign [of k d t] by (force simp: wf_table_def om_wf_assign)

lemma wf_table_erase: "wf_table t \<Longrightarrow> wf_table (om_erase k t)"
  using set_om_erase [of k t] by (auto simp: wf_table_def om_wf_erase)

lemma wf_table_find: "wf_table t \<Longrightarrow> om_find t k = Some d \<Longrightarrow> wf_descr d"
  by (force simp: wf_table_def dest: om_find_in_set)

lemmas wf_table_intros = wf_table_emplace wf_table_assign wf_table_erase

lemma rq_wf_init [simp]: "rq_wf rq_init"
  by (simp add: rq_wf_def rq_init_def wf_table_def)

lemma sq_wf_init [simp]: "sq_wf sq_init"
  by (simp add: sq_wf_def sq_init_def wf_table_def)

lemma rq_clear_at_packets: "rq_packets (rq_clear_at i q) = om_erase i (rq_packets q)"
  by (auto simp: rq_clear_at_def Let_def om_erase_absent split: option.splits)

lemma rq_clear_at_mapping: "rq_seq_mapping (rq_clear_at i q) = om_erase i (rq_seq_mapping q)"
  by (auto simp: rq_clear_at_def Let_def om_erase_absent split: option.splits)

lemma sq_clear_at_packets: "sq_packets (sq_clear_at i q) = om_erase i (sq_packets q)"
  by (auto simp: sq_clear_at_def om_erase_absent split: option.splits)

lemma rq_wf_clear_at: "rq_wf q \<Longrightarrow> rq_wf (rq_clear_at i q)"
  by (simp add: rq_wf_def rq_clear_at_packets rq_clear_at_mapping wf_table_erase om_wf_erase)

lemma sq_wf_clear_at: "sq_wf q \<Longrightarrow> sq_wf (sq_clear_at i q)"
  by (simp add: sq_wf_def sq_clear_at_packets wf_table_erase)

interpretation rq: packet_table "\<lambda>q. om_find (rq_packets q)" rq_clear_at rq_wf
  by unfold_locales (simp_all add: rq_clear_at_packets om_find_erase rq_wf_clear_at)

interpretation sq: packet_table "\<lambda>q. om_find (sq_packets q)" sq_clear_at sq_wf
  by unfold_locales (simp_all add: sq_clear_at_packets om_find_erase sq_wf_clear_at)

lemma rq_wf_clear_range: "rq_wf q \<Longrightarrow> rq_wf (rq_clear_range a b q)"
  unfolding rq_clear_range_def by (rule rq.wf_clear_all)

lemma rq_wf_move_seq: "rq_wf q \<Longrightarrow> rq_wf (rq_move_seq n q)"
  using rq_wf_clear_range [of q "rq_start_seq q" n] by (simp add: rq_move_seq_def rq_wf_def)

lemma sq_wf_clear_range: "sq_wf q \<Longrightarrow> sq_wf (sq_clear_range a b q)"
  unfolding sq_clear_range_def by (rule sq.wf_clear_all)

lemma rq_wf_push: "rq_wf q \<Longrightarrow> rq_push_packet alloc seq data sz q = Inr q' \<Longrightarrow> rq_wf q'"
  by (auto simp: rq_push_packet_def rq_wf_def split: sum.splits
      intro!: wf_table_emplace elim: wf_descr_new)

lemma sq_wf_push: "sq_wf q \<Longrightarrow> sq_wf (snd (sq_push_packet alloc sz data q))"
  by (auto simp: sq_push_packet_def sq_wf_def Let_def split: sum.splits
      intro: wf_table_emplace dest: wf_descr_new)

lemma wf_descr_move: "wf_descr d \<Longrightarrow> wf_descr (fst (descr_move d)) \<and> wf_descr (snd (descr_move d))"
  by (simp add: descr_move_eq wf_descr_def)

lemma sq_wf_move_packet_up: "sq_wf q \<Longrightarrow> sq_wf (move_packet_up eager seq q)"
proof -
  assume wf: "sq_wf q"
  show ?thesis
  proof (cases "om_find (sq_packets q) seq")
    case None
    with wf show ?thesis by (simp add: move_packet_up_def sq_wf_def Let_def)
  next
    case (Some d)
    obtain a b where ab: "descr_move d = (a, b)" by fastforce
    from Some wf have "wf_descr d" by (simp add: sq_wf_def wf_table_find)
    with ab have "wf_descr a" and "wf_descr b" using wf_descr_move [of d] by auto
    with wf Some ab show ?thesis
      by (auto simp: move_packet_up_def sq_wf_def Let_def intro!: wf_table_intros)
  qed
qed

end
