(* ===== verification/Packet_Reassembly.thy ===== *)
theory Packet_Reassembly
  imports Packet_Queue
begin

text \<open>
  What the packet queues of \<open>packet_queue.h\<close> guarantee. \<open>range_payload\<close> is the abstract
  content of a range of sequence numbers: the data packets found there, concatenated; the
  size, the missing list and the copy of a range are all described by it. \<open>number\<close> is the
  abstract effect of the send queue: consecutive sequence numbers for consecutive pieces.
\<close>

section \<open>Following the sequence mapping\<close>

inductive maps_to :: "(u16, u16) omap \<Rightarrow> u16 \<Rightarrow> u16 \<Rightarrow> bool" for m where
  maps_end: "om_find m s = None \<Longrightarrow> maps_to m s s"
| maps_hop: "om_find m s = Some s' \<Longrightarrow> maps_to m s' t \<Longrightarrow> maps_to m s t"

lemma resolve_seq_sound: "resolve_seq m s = Some t \<Longrightarrow> maps_to m s t"
proof (erule resolve_seq.raw_induct [where P = maps_to, rotated])
  fix f :: "(u16, u16) omap \<Rightarrow> u16 \<Rightarrow> u16 option" and m s t
  assume IH: "\<And>m s t. f m s = Some t \<Longrightarrow> maps_to m s t"
    and eq: "(case om_find m s of None \<Rightarrow> Some s | Some s' \<Rightarrow> f m s') = Some t"
  then show "maps_to m s t"
    by (auto split: option.splits intro: maps_to.intros)
qed

lemma resolve_seq_complete: "maps_to m s t \<Longrightarrow> resolve_seq m s = Some t"
proof (induction rule: maps_to.induct)
  case (maps_end s)
  then show ?case by (simp add: resolve_seq.simps)
next
  case (maps_hop s s' t)
  then show ?case by (subst resolve_seq.simps) simp
qed

lemma maps_to_unmapped: "maps_to m s t \<Longrightarrow> om_find m t = None"
  by (induction rule: maps_to.induct) auto

lemma resolve_seq_iff: "resolve_seq m s = Some t \<longleftrightarrow> maps_to m s t"
  using resolve_seq_sound resolve_seq_complete by blast

lemma resolve_seq_Nil [simp]: "resolve_seq [] s = Some s"
  by (simp add: resolve_seq.simps)

lemma resolve_seq_unmapped: "om_find m s = None \<Longrightarrow> resolve_seq m s = Some s"
  by (simp add: resolve_seq.simps)

lemma maps_to_wf:
  assumes "wf {(b, a). om_find m a = Some b}"
  shows "\<exists>t. maps_to m s t"
  using assms
proof (induction s rule: wf_induct_rule)
  case (less s)
  show ?case
  proof (cases "om_find m s")
    case None
    then show ?thesis by (blast intro: maps_end)
  next
    case (Some s')
    with less have "\<exists>t. maps_to m s' t" by simp
    with Some show ?thesis by (blast intro: maps_hop)
  qed
qed

section \<open>The content of a range\<close>

fun range_payload :: "recv_queue \<Rightarrow> u16 list \<Rightarrow> bytes option" where
  "range_payload q [] = Some []"
| "range_payload q (i # is) =
     (case resolve_seq (rq_seq_mapping q) i of
        None \<Rightarrow> None
      | Some s \<Rightarrow>
          (case om_find (rq_packets q) s of
             None \<Rightarrow> None
           | Some d \<Rightarrow>
               (case range_payload q is of
                  None \<Rightarrow> None
                | Some rest \<Rightarrow>
                    Some ((if is_data d then case descr_bytes d of None \<Rightarrow> [] | Some b \<Rightarrow> b else [])
                          @ rest))))"

definition all_resolve :: "recv_queue \<Rightarrow> u16 list \<Rightarrow> bool" where
  "all_resolve q is \<longleftrightarrow> (\<forall>i \<in> set is. resolve_seq (rq_seq_mapping q) i \<noteq> None)"

lemma rq_wf_find: "rq_wf q \<Longrightarrow> om_find (rq_packets q) s = Some d \<Longrightarrow> wf_descr d"
  by (auto simp: rq_wf_def intro: wf_table_find)

lemma range_size_loop_payload:
  assumes "rq_wf q" and "range_payload q is = Some p"
  shows "range_size_loop q is n = Some (n + of_nat (length p))"
  using assms(2)
proof (induction "is" arbitrary: n p)
  case Nil
  then show ?case by simp
next
  case (Cons i "is")
  then obtain s d rest where
    "resolve_seq (rq_seq_mapping q) i = Some s" "om_find (rq_packets q) s = Some d"
    "range_payload q is = Some rest"
    and p: "p = (if is_data d then case descr_bytes d of None \<Rightarrow> [] | Some b \<Rightarrow> b else []) @ rest"
    by (auto split: option.splits)
  moreover obtain b where "descr_bytes d = Some b" "length b = unat (pd_size d)"
    using assms(1) calculation(2) rq_wf_find descr_bytes_wf by blast
  ultimately show ?case using Cons.IH by (auto simp: algebra_simps)
qed

lemma copy_loop_payload:
  assumes "rq_wf q" and "range_payload q is = Some p"
    and "length done + length p < 2 ^ 32" and "length done + length p \<le> length dest"
    and "take (length done) dest = done"
  shows "copy_loop q is (of_nat (length done)) dest
    = Some (Inr (done @ p @ drop (length done + length p) dest))"
  using assms(2-)
proof (induction "is" arbitrary: "done" dest p)
  case Nil
  then show ?case by simp (metis append_take_drop_id)
next
  case (Cons i "is")
  then obtain s d rest where look:
    "resolve_seq (rq_seq_mapping q) i = Some s" "om_find (rq_packets q) s = Some d"
    "range_payload q is = Some rest"
    and p: "p = (if is_data d then case descr_bytes d of None \<Rightarrow> [] | Some b \<Rightarrow> b else []) @ rest"
    by (auto split: option.splits)
  obtain b where b: "descr_bytes d = Some b" "length b = unat (pd_size d)"
    using assms(1) look(2) rq_wf_find descr_bytes_wf by blast
  show ?case
  proof (cases "is_data d")
    case False
    with Cons look p show ?thesis by simp
  next
    case True
    with p b have p: "p = b @ rest" by simp
    let ?dest = "done @ b @ drop (length done + length b) dest"
    have off: "unat (of_nat (length done) :: u32) = length done"
      using Cons.prems(2) by (simp add: unat_of_nat)
    have w: "write_at (unat (of_nat (length done) :: u32)) b dest = Some ?dest"
      unfolding off using Cons.prems p by (intro write_at_prefix) simp_all
    have "(of_nat (length done) :: u32) + pd_size d = of_nat (length (done @ b))"
      using b by simp
    moreover have "copy_loop q is (of_nat (length (done @ b))) ?dest
      = Some (Inr ((done @ b) @ rest @ drop (length (done @ b) + length rest) ?dest))"
      using Cons.prems p by (intro Cons.IH [OF look(3)]) simp_all
    ultimately show ?thesis using look b w True p Cons.prems by (simp add: ac_simps)
  qed
qed

lemma range_size_loop_missing:
  assumes "all_resolve q is" and "range_payload q is = None"
  shows "range_size_loop q is n = Some (- 1)"
  using assms by (induction "is" arbitrary: n) (auto simp: all_resolve_def split: option.splits)

lemma range_payload_resolves: "range_payload q is = Some p \<Longrightarrow> all_resolve q is"
  by (induction "is" arbitrary: p) (auto simp: all_resolve_def split: option.splits)

definition missing_spec :: "recv_queue \<Rightarrow> u16 list \<Rightarrow> u16 list" where
  "missing_spec q is =
     filter (\<lambda>i. \<forall>s. resolve_seq (rq_seq_mapping q) i = Some s \<longrightarrow> om_find (rq_packets q) s = None) is"

lemma missing_loop_spec:
  "all_resolve q is \<Longrightarrow> missing_loop q is acc = Some (acc @ missing_spec q is)"
  by (induction "is" arbitrary: acc) (auto simp: all_resolve_def missing_spec_def split: option.splits)

lemma missing_spec_empty_iff:
  "all_resolve q is \<Longrightarrow> missing_spec q is = [] \<longleftrightarrow> range_payload q is \<noteq> None"
proof (induction "is")
  case (Cons i "is")
  then show ?case
    by (auto simp: all_resolve_def missing_spec_def split: option.splits)
qed (simp add: missing_spec_def)

lemma copy_loop_missing:
  assumes "all_resolve q is" and "range_payload q is = None"
  shows "\<exists>e. copy_loop q is off dest = Some (Inl e)"
  using assms
  by (induction "is" arbitrary: off dest) (auto simp: all_resolve_def split: option.splits)

section \<open>Splitting an outgoing buffer\<close>

fun number :: "u16 \<Rightarrow> 'a list \<Rightarrow> (u16 \<times> 'a) list" where
  "number s [] = []"
| "number s (x # xs) = (s, x) # number (s + 1) xs"

lemma length_number [simp]: "length (number s xs) = length xs"
  by (induction s xs rule: number.induct) auto

lemma nth_number: "k < length xs \<Longrightarrow> number s xs ! k = (s + of_nat k, xs ! k)"
proof (induction s xs arbitrary: k rule: number.induct)
  case (2 s x xs)
  then show ?case by (cases k) auto
qed simp

lemma keys_number: "length xs < 2 ^ 16 \<Longrightarrow> map fst (number s xs) = seq_upto s (s + of_nat (length xs))"
  by (rule nth_equalityI) (simp_all add: nth_number seq_upto_nth unat_of_nat)

lemma map_of_number:
  assumes "length xs < 2 ^ 16"
  shows "map_of (number s xs) k
    = (if unat (k - s) < length xs then Some (xs ! unat (k - s)) else None)"
proof (cases "unat (k - s) < length xs")
  case True
  have "distinct (map fst (number s xs))" using assms by (simp add: keys_number)
  moreover have "(k, xs ! unat (k - s)) \<in> set (number s xs)"
    using True nth_number [OF True, of s] nth_mem [of "unat (k - s)" "number s xs"] by simp
  ultimately show ?thesis using True by simp
next
  case False
  have "k \<notin> set (map fst (number s xs))"
    using False assms by (simp only: keys_number set_seq_upto) (simp add: unat_of_nat)
  with False show ?thesis by (simp add: map_of_eq_None_iff)
qed

definition emplace_all :: "(u16 \<times> packet_descr) list \<Rightarrow> (u16, packet_descr) omap \<Rightarrow> (u16, packet_descr) omap" where
  "emplace_all kvs t = fold (\<lambda>(k, v). om_emplace k v) kvs t"

lemma descr_new_take:
  assumes "alloc sz" and "unat sz \<le> length data"
  shows "descr_new alloc sz data = Inr (descr_of (take (unat sz) data))"
proof -
  have "unat sz = 0 \<longleftrightarrow> sz = 0" by (simp add: unat_eq_zero)
  with assms show ?thesis by (auto simp: descr_new_def descr_of_def)
qed

text \<open>One round of the loop: the piece it cuts off, and where it goes on.\<close>

lemma next_piece:
  fixes off sz mtu :: u32 and data :: bytes
  assumes "off < sz" and "unat sz \<le> length data" and "mtu \<noteq> 0"
    and ps: "ps = (if sz - off > mtu then mtu else sz - off)"
    and rest: "rest = drop (unat off) (take (unat sz) data)"
  shows "0 < unat ps" and "unat off + unat ps \<le> unat sz" and "unat (off + ps) = unat off + unat ps"
    and "take (unat ps) (drop (unat off) data) = take (unat mtu) rest"
    and "drop (unat (off + ps)) (take (unat sz) data) = drop (unat mtu) rest" and "rest \<noteq> []"
proof -
  have lt: "unat off < unat sz" using assms(1) by (simp add: word_less_nat_alt)
  have diff: "unat (sz - off) = unat sz - unat off" using assms(1) by (intro unat_sub) simp
  have ups: "unat ps = min (unat mtu) (unat sz - unat off)" using diff by (auto simp: ps word_less_nat_alt)
  have "0 < unat mtu" using assms(3) by (simp add: unat_gt_0)
  then show "0 < unat ps" using ups lt by simp
  show le: "unat off + unat ps \<le> unat sz" using ups lt by simp
  show uoff: "unat (off + ps) = unat off + unat ps"
    using le unsigned_less [of sz, where ?'a = nat] by (simp add: unat_word_ariths)
  show "take (unat ps) (drop (unat off) data) = take (unat mtu) rest"
    by (simp only: rest drop_take take_take ups)
  have len: "length rest = unat sz - unat off" using assms(2) by (simp add: rest)
  then show "rest \<noteq> []" using lt by auto
  show "drop (unat (off + ps)) (take (unat sz) data) = drop (unat mtu) rest"
    unfolding rest using uoff ups len [unfolded rest] by (auto simp: min_def add.commute)
qed

lemma push_buffer_loop_spec:
  assumes "sq_mtu q \<noteq> 0" and "\<And>n. alloc n" and "unat sz \<le> length data" and "off \<le> sz"
    and "cs = chunks (unat (sq_mtu q)) (drop (unat off) (take (unat sz) data))"
  shows "push_buffer_loop alloc data sz off q =
    Some (None, q\<lparr>sq_end_seq := sq_end_seq q + of_nat (length cs),
                 sq_packets := emplace_all (number (sq_end_seq q + 1) (map descr_of cs)) (sq_packets q)\<rparr>)"
  using assms
proof (induction "unat sz - unat off" arbitrary: off q cs rule: less_induct)
  case less
  show ?case
  proof (cases "off < sz")
    case False
    with less.prems(4) have "off = sz" by simp
    with less.prems show ?thesis
      by (subst push_buffer_loop.simps) (simp add: emplace_all_def)
  next
    case True
    define rest where "rest = drop (unat off) (take (unat sz) data)"
    define ps where "ps = (if sz - off > sq_mtu q then sq_mtu q else sz - off)"
    note piece = next_piece [OF True less.prems(3,1) ps_def rest_def]
    let ?m = "unat (sq_mtu q)" and ?d = "descr_of (take (unat (sq_mtu q)) rest)"
    let ?cs = "chunks ?m (drop ?m rest)"
    have cs: "cs = take ?m rest # ?cs"
      using less.prems(1,5) piece(6) by (simp add: chunks_step unat_gt_0 rest_def [symmetric])
    let ?q = "q\<lparr>sq_end_seq := sq_end_seq q + 1, sq_packets := om_emplace (sq_end_seq q + 1) ?d (sq_packets q)\<rparr>"
    have "descr_new alloc ps (drop (unat off) data) = Inr ?d"
      using descr_new_take [of alloc ps "drop (unat off) data"] less.prems(2,3) piece(2,4) by simp
    then have push: "sq_push_packet alloc ps (drop (unat off) data) q = (None, ?q)"
      by (simp add: sq_push_packet_def)
    have "push_buffer_loop alloc data sz (off + ps) ?q =
      Some (None, ?q\<lparr>sq_end_seq := sq_end_seq ?q + of_nat (length ?cs),
        sq_packets := emplace_all (number (sq_end_seq ?q + 1) (map descr_of ?cs)) (sq_packets ?q)\<rparr>)"
    proof (rule less.hyps)
      show "unat sz - unat (off + ps) < unat sz - unat off" using piece(1-3) by simp
      show "off + ps \<le> sz" using piece(2,3) by (simp add: word_le_nat_alt)
      show "?cs = chunks (unat (sq_mtu ?q)) (drop (unat (off + ps)) (take (unat sz) data))"
        using piece(5) by simp
    qed (use less.prems in simp_all)
    with True push cs show ?thesis
      by (subst push_buffer_loop.simps)
        (simp add: Let_def ps_def [symmetric] emplace_all_def algebra_simps)
  qed
qed

lemma push_buffer_loop_diverges:
  assumes "push_buffer_loop alloc data sz off q = Some r"
  shows "sq_mtu q = 0 \<longrightarrow> off < sz \<longrightarrow> False"
proof (rule push_buffer_loop.raw_induct
    [where P = "\<lambda>alloc data sz off q r. sq_mtu q = 0 \<longrightarrow> off < sz \<longrightarrow> False", OF _ assms])
  fix f alloc data sz off q r
  assume IH: "\<And>alloc data sz off q r.
      f alloc data sz off q = Some r \<Longrightarrow> sq_mtu q = 0 \<longrightarrow> off < sz \<longrightarrow> False"
    and eq: "(if off < sz then
        let packet_size = if sq_mtu q < sz - off then sq_mtu q else sz - off
        in case sq_push_packet alloc packet_size (drop (unat off) data) q of
             (None, q') \<Rightarrow> f alloc data sz (off + packet_size) q'
           | (Some e, q') \<Rightarrow> Some (Some e, q')
       else Some (None, q)) = Some r"
  show "sq_mtu q = 0 \<longrightarrow> off < sz \<longrightarrow> False"
  proof (intro impI)
    assume mtu: "sq_mtu q = 0" and lt: "off < sz"
    let ?q = "snd (sq_push_packet alloc 0 (drop (unat off) data) q)"
    have "sz - off \<noteq> 0" using lt by auto
    then have ps: "(if sq_mtu q < sz - off then sq_mtu q else sz - off) = 0"
      using mtu by (simp add: word_gt_0)
    have push: "sq_push_packet alloc 0 (drop (unat off) data) q = (None, ?q)"
      by (simp add: sq_push_packet_def descr_new_def Let_def)
    have "f alloc data sz off ?q = Some r"
      using eq lt ps push by (simp add: Let_def split: prod.splits)
    moreover have "sq_mtu ?q = 0"
      using mtu by (simp add: sq_push_packet_def descr_new_def Let_def)
    ultimately show False using IH lt by blast
  qed
qed

section \<open>Delivery into a receive queue\<close>

text \<open>A receiver that pushes the datagrams it gets, one after the other.\<close>

fun deliver_all :: "(u32 \<Rightarrow> bool) \<Rightarrow> (u16 \<times> bytes) list \<Rightarrow> recv_queue \<Rightarrow> pq_exc + recv_queue" where
  "deliver_all alloc [] r = Inr r"
| "deliver_all alloc ((k, b) # ds) r =
     (case rq_push_packet alloc k b (of_nat (length b)) r of
        Inl e \<Rightarrow> Inl e
      | Inr r' \<Rightarrow> deliver_all alloc ds r')"

lemma deliver_all_eq:
  assumes "\<And>n. alloc n" and "\<forall>p \<in> set ds. length (snd p) < 2 ^ 32"
  shows "deliver_all alloc ds r
    = Inr (r\<lparr>rq_packets := emplace_all (map (\<lambda>(k, b). (k, descr_of b)) ds) (rq_packets r)\<rparr>)"
  using assms(2)
proof (induction ds arbitrary: r)
  case Nil
  then show ?case by (simp add: emplace_all_def)
next
  case (Cons p ds)
  obtain k b where p: "p = (k, b)" by (cases p)
  with Cons.prems have len: "length b < 2 ^ 32" by simp
  with assms(1) have "descr_new alloc (of_nat (length b)) b = Inr (descr_of b)"
    by (intro descr_new_of)
  with Cons p show ?case by (simp add: rq_push_packet_def emplace_all_def)
qed

lemma wf_table_emplace_all:
  "wf_table t \<Longrightarrow> \<forall>p \<in> set kvs. wf_descr (snd p) \<Longrightarrow> wf_table (emplace_all kvs t)"
  by (induction kvs arbitrary: t) (auto simp: emplace_all_def split_def wf_table_emplace)

lemma find_emplace_all:
  assumes "om_wf t" and "\<And>k v. (k, v) \<in> set kvs \<Longrightarrow> g k = Some v"
    and "\<And>k. k \<in> fst ` set kvs \<Longrightarrow> om_find t k = None" and "j \<in> fst ` set kvs"
  shows "om_find (emplace_all kvs t) j = g j"
  unfolding emplace_all_def using assms by (intro om.find_emplace_all_agree) auto

lemma range_payload_concat:
  assumes "length is = length cs" and "rq_seq_mapping r = []"
    and "\<And>j. j < length cs \<Longrightarrow> om_find (rq_packets r) (is ! j) = Some (descr_of (cs ! j))"
    and "\<And>c. c \<in> set cs \<Longrightarrow> even (length c) \<and> length c < 2 ^ 32"
  shows "range_payload r is = Some (concat cs)"
  using assms(1,3,4)
proof (induction "is" cs rule: list_induct2)
  case (Cons i "is" c cs)
  have "om_find (rq_packets r) i = Some (descr_of c)" using Cons.prems(1) [of 0] by simp
  moreover have "range_payload r is = Some (concat cs)"
  proof (rule Cons.IH)
    fix j assume "j < length cs"
    then show "om_find (rq_packets r) (is ! j) = Some (descr_of (cs ! j))"
      using Cons.prems(1) [of "Suc j"] by simp
  qed (use Cons.prems(2) in simp)
  ultimately show ?case
    using Cons.prems(2) [of c] assms(2) by (simp add: is_data_of descr_bytes_of)
qed simp

text \<open>
  The datagrams that reach the receiver: each is a packet the sender holds in the range, and
  every packet of the range is among them; order and repetitions are free.
\<close>

definition delivers :: "send_queue \<Rightarrow> u16 \<Rightarrow> u16 \<Rightarrow> (u16 \<times> bytes) list \<Rightarrow> bool" where
  "delivers q a b ds \<longleftrightarrow>
     fst ` set ds = set (seq_upto a b) \<and>
     (\<forall>(k, bs) \<in> set ds. \<exists>d. om_find (sq_packets q) k = Some d \<and> descr_bytes d = Some bs)"

definition free_range :: "(u16, packet_descr) omap \<Rightarrow> u16 \<Rightarrow> u16 \<Rightarrow> bool" where
  "free_range t a b \<longleftrightarrow> (\<forall>k \<in> set (seq_upto a b). om_find t k = None)"

lemma push_buffer_packets:
  assumes "sq_wf q" and "sq_mtu q \<noteq> 0" and "\<And>n. alloc n" and "length data < 2 ^ 32"
    and "cs = chunks (unat (sq_mtu q)) data" and "length cs < 2 ^ 16"
    and "a = sq_end_seq q + 1" and "free_range (sq_packets q) a (a + of_nat (length cs))"
  obtains q' where "push_buffer alloc data (of_nat (length data)) q = Some (None, q')"
    and "sq_end_seq q' = sq_end_seq q + of_nat (length cs)"
    and "\<And>j. j < length cs \<Longrightarrow> om_find (sq_packets q') (a + of_nat j) = Some (descr_of (cs ! j))"
proof -
  let ?kvs = "number a (map descr_of cs)"
  let ?q' = "q\<lparr>sq_end_seq := sq_end_seq q + of_nat (length cs),
              sq_packets := emplace_all ?kvs (sq_packets q)\<rparr>"
  have u: "unat (of_nat (length data) :: u32) = length data"
    using assms(4) by (simp add: unat_of_nat)
  have push: "push_buffer alloc data (of_nat (length data)) q = Some (None, ?q')"
    unfolding push_buffer_def assms(7)
    by (rule push_buffer_loop_spec) (use assms u in simp_all)
  have keys: "map fst ?kvs = seq_upto a (a + of_nat (length cs))"
    using assms(6) keys_number [of "map descr_of cs" a] by simp
  then have keyset: "fst ` set ?kvs = set (seq_upto a (a + of_nat (length cs)))"
    by (metis set_map)
  have "om_find (emplace_all ?kvs (sq_packets q)) (a + of_nat j) = Some (descr_of (cs ! j))"
    if j: "j < length cs" for j
  proof -
    have uj: "unat (of_nat j :: u16) = j" using j assms(6) by (simp add: unat_of_nat)
    have "om_find (emplace_all ?kvs (sq_packets q)) (a + of_nat j) = map_of ?kvs (a + of_nat j)"
    proof (rule find_emplace_all)
      show "om_wf (sq_packets q)" using assms(1) by (simp add: sq_wf_def wf_table_def)
      show "map_of ?kvs k = Some v" if "(k, v) \<in> set ?kvs" for k v
        using that keys by (simp add: distinct_seq_upto)
      show "om_find (sq_packets q) k = None" if "k \<in> fst ` set ?kvs" for k
        using that assms(8) keyset by (simp add: free_range_def)
      show "a + of_nat j \<in> fst ` set ?kvs"
        using j assms(6) uj by (simp add: keyset set_seq_upto unat_of_nat)
    qed
    with j assms(6) uj show ?thesis by (simp add: map_of_number)
  qed
  then show thesis by (intro that [OF push]) simp_all
qed

lemma delivered_lookup:
  assumes "delivers q' a (a + of_nat (length cs)) ds" and "length cs < 2 ^ 16"
    and "\<And>j. j < length cs \<Longrightarrow> om_find (sq_packets q') (a + of_nat j) = Some (descr_of (cs ! j))"
    and "\<And>c. c \<in> set cs \<Longrightarrow> length c < 2 ^ 32" and "(k, b) \<in> set ds"
  shows "unat (k - a) < length cs \<and> b = cs ! unat (k - a)"
proof -
  have "k \<in> set (seq_upto a (a + of_nat (length cs)))"
    using assms(1,5) by (force simp: delivers_def)
  then have lt: "unat (k - a) < length cs"
    using assms(2) by (simp add: set_seq_upto unat_of_nat)
  with assms(3) [of "unat (k - a)"] have "om_find (sq_packets q') k = Some (descr_of (cs ! unat (k - a)))"
    by simp
  with assms(1,5) have "descr_bytes (descr_of (cs ! unat (k - a))) = Some b"
    by (force simp: delivers_def)
  with lt assms(4) show ?thesis by (simp add: descr_bytes_of)
qed

lemma deliver_reassembles:
  assumes "rq_wf r" and "rq_seq_mapping r = []" and "\<And>n. alloc n"
    and "length cs < 2 ^ 16" and "delivers q' a (a + of_nat (length cs)) ds"
    and "\<And>j. j < length cs \<Longrightarrow> om_find (sq_packets q') (a + of_nat j) = Some (descr_of (cs ! j))"
    and "\<And>c. c \<in> set cs \<Longrightarrow> even (length c) \<and> length c < 2 ^ 32"
    and "free_range (rq_packets r) a (a + of_nat (length cs))"
  obtains r' where "deliver_all alloc ds r = Inr r'" and "rq_wf r'"
    and "range_payload r' (seq_upto a (a + of_nat (length cs))) = Some (concat cs)"
proof -
  let ?kvs = "map (\<lambda>(k, b). (k, descr_of b)) ds"
  let ?r' = "r\<lparr>rq_packets := emplace_all ?kvs (rq_packets r)\<rparr>"
  let ?is = "seq_upto a (a + of_nat (length cs))"
  let ?g = "\<lambda>k. Some (descr_of (cs ! unat (k - a)))"
  note look = delivered_lookup [OF assms(5,4,6)]
  have small: "length b < 2 ^ 32" if "(k, b) \<in> set ds" for k b
    using look [OF _ _ that] assms(7) by force
  have keys: "fst ` set ?kvs = set ?is"
    using assms(5) by (force simp: delivers_def image_iff)
  have ulen: "unat (of_nat (length cs) :: u16) = length cs" using assms(4) by (simp add: unat_of_nat)
  have find: "om_find (rq_packets ?r') (?is ! j) = Some (descr_of (cs ! j))" if j: "j < length cs" for j
  proof -
    have nthj: "?is ! j = a + of_nat j" using j ulen by (simp add: seq_upto_nth)
    have "om_find (emplace_all ?kvs (rq_packets r)) (?is ! j) = ?g (?is ! j)"
    proof (rule find_emplace_all)
      show "om_wf (rq_packets r)" using assms(1) by (simp add: rq_wf_def wf_table_def)
      show "?g k = Some v" if "(k, v) \<in> set ?kvs" for k v
        using that look assms(7) by auto
      show "om_find (rq_packets r) k = None" if "k \<in> fst ` set ?kvs" for k
        using that assms(8) keys by (simp add: free_range_def)
      show "?is ! j \<in> fst ` set ?kvs" using keys j ulen by simp
    qed
    with nthj j assms(4) show ?thesis by (simp add: unat_of_nat)
  qed
  show thesis
  proof (rule that)
    show "deliver_all alloc ds r = Inr ?r'" by (rule deliver_all_eq) (use assms(3) small in auto)
    have "\<forall>p \<in> set ?kvs. wf_descr (snd p)"
      by (auto intro!: wf_descr_of dest: small)
    then show "rq_wf ?r'" using assms(1) by (simp add: rq_wf_def wf_table_emplace_all)
    show "range_payload ?r' ?is = Some (concat cs)"
      by (rule range_payload_concat) (use assms(2,7) ulen find in simp_all)
  qed
qed

section \<open>Properties\<close>

lemma reassembly:
  assumes "sq_wf q" and "sq_mtu q \<noteq> 0" and "even (unat (sq_mtu q))"
    and "even (length data)" and "length data < 2 ^ 32"
    and "n = length (chunks (unat (sq_mtu q)) data)" and "n < 2 ^ 16"
    and "a = sq_end_seq q + 1" and "b = a + of_nat n"
    and "free_range (sq_packets q) a b" and "free_range (rq_packets r) a b"
    and "rq_wf r" and "rq_seq_mapping r = []"
  shows "\<exists>q'. push_buffer (\<lambda>_. True) data (of_nat (length data)) q = Some (None, q') \<and>
    sq_end_seq q' + 1 = b \<and>
    (\<forall>ds dest. delivers q' a b ds \<longrightarrow> length data \<le> length dest \<longrightarrow>
      (\<exists>r'. deliver_all (\<lambda>_. True) ds r = Inr r' \<and>
        find_missing_packets r' a b [] = Some [] \<and>
        compute_range_size r' a b = Some (of_nat (length data)) \<and>
        copy_data r' dest a b = Some (Inr (data @ drop (length data) dest))))"
proof -
  define cs where "cs = chunks (unat (sq_mtu q)) data"
  have mpos: "0 < unat (sq_mtu q)" using assms(2) by (simp add: unat_gt_0)
  have n: "length cs = n" using assms(6) by (simp add: cs_def)
  have concat: "concat cs = data" using mpos by (simp add: cs_def concat_chunks)
  have pieces: "even (length c) \<and> length c < 2 ^ 32" if "c \<in> set cs" for c
    using that chunks_all_even [OF mpos assms(3,4)] chunk_size [of c "unat (sq_mtu q)" data]
      unsigned_less [of "sq_mtu q", where ?'a = nat] by (auto simp: cs_def)
  have n16: "length cs < 2 ^ 16" and free: "free_range (sq_packets q) a (a + of_nat (length cs))"
    using n assms(7,9,10) by simp_all
  obtain q' where push: "push_buffer (\<lambda>_. True) data (of_nat (length data)) q = Some (None, q')"
    and eseq: "sq_end_seq q' = sq_end_seq q + of_nat (length cs)"
    and look: "\<And>j. j < length cs \<Longrightarrow> om_find (sq_packets q') (a + of_nat j) = Some (descr_of (cs ! j))"
    using push_buffer_packets [OF assms(1,2) _ assms(5) cs_def n16 assms(8) free, of "\<lambda>_. True"]
    by blast
  have "\<exists>r'. deliver_all (\<lambda>_. True) ds r = Inr r' \<and> find_missing_packets r' a b [] = Some [] \<and>
      compute_range_size r' a b = Some (of_nat (length data)) \<and>
      copy_data r' dest a b = Some (Inr (data @ drop (length data) dest))"
    if ds: "delivers q' a b ds" and dest: "length data \<le> length dest" for ds dest
  proof -
    obtain r' where r': "deliver_all (\<lambda>_. True) ds r = Inr r'" "rq_wf r'"
      and pay: "range_payload r' (seq_upto a b) = Some data"
      using deliver_reassembles [where alloc = "\<lambda>_. True" and ds = ds, OF assms(12,13) _ _ _ look pieces]
        assms(7,9,11) n ds concat by metis
    have "missing_spec r' (seq_upto a b) = []"
      using missing_spec_empty_iff range_payload_resolves pay by blast
    then have "find_missing_packets r' a b [] = Some []"
      using missing_loop_spec [OF range_payload_resolves [OF pay], of "[]"]
      by (simp add: find_missing_packets_def)
    moreover have "compute_range_size r' a b = Some (of_nat (length data))"
      using range_size_loop_payload [OF r'(2) pay, of 0] by (simp add: compute_range_size_def)
    moreover have "copy_data r' dest a b = Some (Inr (data @ drop (length data) dest))"
      using copy_loop_payload [OF r'(2) pay, of "[]" dest] assms(5) dest by (simp add: copy_data_def)
    ultimately show ?thesis using r' by blast
  qed
  moreover have "sq_end_seq q' + 1 = b" using eseq n assms(8,9) by simp
  ultimately show ?thesis using push by blast
qed

text \<open>
  (C1) End-to-end reassembly. Pushing an even-sized buffer into a send queue with an even
  MTU returns, and the packets it numbers, delivered to a receive queue in any order and any
  number of times, make \<open>compute_range_size\<close> report the length of the buffer,
  \<open>find_missing_packets\<close> report nothing and \<open>copy_data\<close> write exactly the buffer.
\<close>

theorem send_receive_reassembles:
  assumes "sq_wf q" and "sq_mtu q \<noteq> 0" and "even (unat (sq_mtu q))"
    and "even (length data)" and "length data < 2 ^ 32"
    and "n = length (chunks (unat (sq_mtu q)) data)" and "n < 2 ^ 16"
    and "a = sq_end_seq q + 1" and "b = a + of_nat n"
    and "free_range (sq_packets q) a b" and "free_range (rq_packets r) a b"
    and "rq_wf r" and "rq_seq_mapping r = []"
  shows "\<exists>q'. push_buffer (\<lambda>_. True) data (of_nat (length data)) q = Some (None, q') \<and>
    sq_end_seq q' + 1 = b \<and>
    (\<forall>ds dest. delivers q' a b ds \<longrightarrow> length data \<le> length dest \<longrightarrow>
      (\<exists>r'. deliver_all (\<lambda>_. True) ds r = Inr r' \<and>
        find_missing_packets r' a b [] = Some [] \<and>
        compute_range_size r' a b = Some (of_nat (length data)) \<and>
        copy_data r' dest a b = Some (Inr (data @ drop (length data) dest))))"
  by (rule reassembly [OF assms])

theorem send_receive_reassembles_witness:
  "\<exists>q' r'. push_buffer (\<lambda>_. True) [1, 2, 3, 4] 4 (sq_init\<lparr>sq_mtu := 2\<rparr>) = Some (None, q') \<and>
    deliver_all (\<lambda>_. True) [(2, [3, 4]), (1, [1, 2]), (2, [3, 4])] rq_init = Inr r' \<and>
    copy_data r' [0, 0, 0, 0, 9] 1 3 = Some (Inr [1, 2, 3, 4, 9])"
proof -
  let ?q = "sq_init\<lparr>sq_mtu := 2\<rparr>" and ?data = "[1, 2, 3, 4] :: bytes"
  let ?ds = "[(2, [3, 4]), (1, [1, 2]), (2, [3, 4])] :: (u16 \<times> bytes) list"
  let ?dest = "[0, 0, 0, 0, 9] :: bytes"
  have two: "chunks 2 ?data = [[1, 2], [3, 4]]" by (simp add: chunks.simps)
  have "\<exists>q'. push_buffer (\<lambda>_. True) ?data (of_nat (length ?data)) ?q = Some (None, q') \<and>
    sq_end_seq q' + 1 = 3 \<and>
    (\<forall>ds dest. delivers q' 1 3 ds \<longrightarrow> length ?data \<le> length dest \<longrightarrow>
      (\<exists>r'. deliver_all (\<lambda>_. True) ds rq_init = Inr r' \<and>
        find_missing_packets r' 1 3 [] = Some [] \<and>
        compute_range_size r' 1 3 = Some (of_nat (length ?data)) \<and>
        copy_data r' dest 1 3 = Some (Inr (?data @ drop (length ?data) dest))))"
    by (rule send_receive_reassembles [where n = 2])
      (simp_all add: two sq_wf_def wf_table_def sq_init_def free_range_def rq_init_def rq_wf_def)
  then obtain q' where q': "push_buffer (\<lambda>_. True) ?data (of_nat (length ?data)) ?q = Some (None, q')"
    and all: "delivers q' 1 3 ?ds \<longrightarrow> length ?data \<le> length ?dest \<longrightarrow>
      (\<exists>r'. deliver_all (\<lambda>_. True) ?ds rq_init = Inr r' \<and>
        copy_data r' ?dest 1 3 = Some (Inr (?data @ drop (length ?data) ?dest)))"
    by blast
  have "q' = ?q\<lparr>sq_end_seq := 2, sq_packets := [(1, descr_of [1, 2]), (2, descr_of [3, 4])]\<rparr>"
    using q' by (simp add: push_buffer_def push_buffer_loop.simps sq_push_packet_def descr_new_def
        sq_init_def descr_of_def)
  then have "delivers q' 1 3 ?ds"
    by (auto simp: delivers_def seq_upto.simps descr_bytes_def descr_of_def)
  with all q' show ?thesis by auto
qed

text \<open>
  Size and content of a range agree: where every number of the range leads to a stored
  packet, \<open>compute_range_size\<close> is the length of the concatenated data packets and
  \<open>copy_data\<close> writes exactly them, leaving the rest of the buffer alone.
\<close>

theorem copy_data_writes_payload:
  assumes "rq_wf q" and "range_payload q (seq_upto a b) = Some p"
    and "length p < 2 ^ 32" and "length p \<le> length dest"
  shows "compute_range_size q a b = Some (of_nat (length p)) \<and>
    copy_data q dest a b = Some (Inr (p @ drop (length p) dest))"
  using range_size_loop_payload [OF assms(1,2), of 0] copy_loop_payload [OF assms(1,2), of "[]" dest] assms(3,4)
  by (simp add: compute_range_size_def copy_data_def)

theorem copy_data_writes_payload_witness:
  "copy_data (rq_init\<lparr>rq_packets := [(0, descr_of [3]), (1, descr_of [4, 5]), (65535, descr_of [1, 2])]\<rparr>)
     [0, 0, 0, 0, 0] 65535 2 = Some (Inr [1, 2, 4, 5, 0])"
proof -
  let ?q = "rq_init\<lparr>rq_packets := [(0, descr_of [3]), (1, descr_of [4, 5]), (65535, descr_of [1, 2])]\<rparr>"
  have "rq_wf ?q"
    by (simp add: rq_wf_def wf_table_def om_wf_def rq_init_def wf_descr_def descr_of_def)
  moreover have "range_payload ?q (seq_upto 65535 2) = Some [1, 2, 4, 5]"
    by (simp add: seq_upto.simps rq_init_def descr_of_def is_data_def descr_bytes_def)
  ultimately show ?thesis
    using copy_data_writes_payload [of ?q 65535 2 "[1, 2, 4, 5]" "[0, 0, 0, 0, 0]"] by simp
qed

text \<open>
  Missing packets. When every number of a range resolves, \<open>find_missing_packets\<close> appends
  exactly the numbers with no stored packet, in order; where there is one,
  \<open>compute_range_size\<close> is -1 and \<open>copy_data\<close> throws.
\<close>

theorem find_missing_packets_exact:
  assumes "\<forall>i \<in> set (seq_upto a b). resolve_seq (rq_seq_mapping q) i \<noteq> None"
    and "absent = filter (\<lambda>i. \<forall>s. resolve_seq (rq_seq_mapping q) i = Some s \<longrightarrow>
                              om_find (rq_packets q) s = None) (seq_upto a b)"
  shows "find_missing_packets q a b acc = Some (acc @ absent) \<and>
    (absent = [] \<longleftrightarrow> range_payload q (seq_upto a b) \<noteq> None) \<and>
    (absent \<noteq> [] \<longrightarrow> compute_range_size q a b = Some (- 1) \<and>
                   (\<exists>e. copy_data q dest a b = Some (Inl e)))"
proof -
  have res: "all_resolve q (seq_upto a b)" using assms(1) by (simp add: all_resolve_def)
  have absent: "absent = missing_spec q (seq_upto a b)" by (simp add: assms(2) missing_spec_def)
  note empty = missing_spec_empty_iff [OF res]
  show ?thesis
    using missing_loop_spec [OF res, of acc] empty range_size_loop_missing [OF res]
      copy_loop_missing [OF res]
    by (auto simp: absent find_missing_packets_def compute_range_size_def copy_data_def)
qed

theorem find_missing_packets_exact_witness:
  "find_missing_packets (rq_init\<lparr>rq_packets := [(1, descr_of [1, 2])]\<rparr>) 65535 3 [7] = Some [7, 65535, 0, 2]"
proof -
  let ?q = "rq_init\<lparr>rq_packets := [(1, descr_of [1, 2])]\<rparr>"
  have "[65535, 0, 2] = filter (\<lambda>i. \<forall>s. resolve_seq (rq_seq_mapping ?q) i = Some s \<longrightarrow>
      om_find (rq_packets ?q) s = None) (seq_upto 65535 3)"
    by (simp add: seq_upto.simps rq_init_def)
  then show ?thesis
    using find_missing_packets_exact [of 65535 3 ?q "[65535, 0, 2]" "[7]" "[]"]
    by (simp add: rq_init_def)
qed

lemma sq_push_packet_mtu [simp]: "sq_mtu (snd (sq_push_packet alloc sz data q)) = sq_mtu q"
  by (simp add: sq_push_packet_def Let_def split: sum.splits)

lemma push_buffer_loop_returns:
  assumes "sq_mtu q \<noteq> 0"
  shows "push_buffer_loop alloc data sz off q \<noteq> None"
  using assms
proof (induction "unat sz - unat off" arbitrary: off q rule: less_induct)
  case less
  show ?case
  proof (cases "off < sz")
    case True
    define ps where "ps = (if sz - off > sq_mtu q then sq_mtu q else sz - off)"
    obtain e q' where push: "sq_push_packet alloc ps (drop (unat off) data) q = (e, q')" by fastforce
    have lt: "unat off < unat sz" using True by (simp add: word_less_nat_alt)
    have diff: "unat (sz - off) = unat sz - unat off" using True by (intro unat_sub) simp
    have pos: "0 < unat ps" and le: "unat ps \<le> unat sz - unat off"
      using less.prems lt diff by (auto simp: ps_def word_less_nat_alt unat_gt_0)
    have "unat (off + ps) = unat off + unat ps"
      using le lt unsigned_less [of sz, where ?'a = nat] by (simp add: unat_word_ariths)
    with pos lt have dec: "unat sz - unat (off + ps) < unat sz - unat off" by simp
    have "sq_mtu q' \<noteq> 0"
      using less.prems push sq_push_packet_mtu [of alloc ps "drop (unat off) data" q] by simp
    with less.hyps [OF dec] have "push_buffer_loop alloc data sz (off + ps) q' \<noteq> None" by simp
    with True push show ?thesis
      by (subst push_buffer_loop.simps) (auto simp: Let_def ps_def [symmetric] split: option.splits)
  qed (subst push_buffer_loop.simps, simp)
qed

text \<open>
  Splitting ends exactly when it can: \<open>push_buffer\<close> fails to return only for a non-empty
  buffer with an MTU of 0, where each round pushes an empty packet and makes no progress.
\<close>

theorem push_buffer_returns_iff: "push_buffer alloc data sz q = None \<longleftrightarrow> sq_mtu q = 0 \<and> sz \<noteq> 0"
proof
  assume "push_buffer alloc data sz q = None"
  then show "sq_mtu q = 0 \<and> sz \<noteq> 0"
    using push_buffer_loop_returns [of q alloc data sz 0] push_buffer_loop.simps [of alloc data sz 0 q]
    by (auto simp: push_buffer_def)
next
  assume "sq_mtu q = 0 \<and> sz \<noteq> 0"
  then show "push_buffer alloc data sz q = None"
    using push_buffer_loop_diverges [of alloc data sz 0 q] word_gt_0 [of sz]
    by (cases "push_buffer alloc data sz q") (auto simp: push_buffer_def)
qed

text \<open>
  Resolution ends where the mapping is well-founded, at a number that is not mapped
  further; a number mapped to itself makes it loop.
\<close>

theorem resolve_seq_terminates:
  assumes "wf {(b, a). om_find m a = Some b}"
  shows "\<exists>t. resolve_seq m s = Some t \<and> om_find m t = None"
  using maps_to_wf [OF assms, of s] maps_to_unmapped resolve_seq_iff by blast

theorem resolve_seq_terminates_witness:
  "\<exists>t. resolve_seq [(5, 4), (9, 5)] 9 = Some t \<and> om_find [(5 :: u16, 4 :: u16), (9, 5)] t = None"
proof (rule resolve_seq_terminates)
  have "{(b, a). om_find [(5 :: u16, 4 :: u16), (9, 5)] a = Some b} \<subseteq> measure unat"
    by (auto split: if_splits)
  then show "wf {(b, a). om_find [(5 :: u16, 4 :: u16), (9, 5)] a = Some b}"
    by (rule wf_subset [OF wf_measure])
qed

lemma rq_clear_range_mapping:
  "om_find (rq_seq_mapping (fold rq_clear_at is q)) j
    = (if j \<in> set is then None else om_find (rq_seq_mapping q) j)"
  by (induction "is" arbitrary: q) (auto simp: rq_clear_at_mapping om_find_erase)

text \<open>
  Moving the window of the receive queue erases the packets and the mappings of the
  numbers passed over, wrapping included, and nothing else.
\<close>

theorem rq_move_seq_clears:
  assumes "rq_wf q"
  shows "rq_start_seq (rq_move_seq n q) = n \<and> rq_wf (rq_move_seq n q) \<and>
    (\<forall>j. om_find (rq_packets (rq_move_seq n q)) j =
       (if unat (j - rq_start_seq q) < unat (n - rq_start_seq q) then None else om_find (rq_packets q) j)) \<and>
    (\<forall>j. om_find (rq_seq_mapping (rq_move_seq n q)) j =
       (if unat (j - rq_start_seq q) < unat (n - rq_start_seq q) then None
        else om_find (rq_seq_mapping q) j))"
  using rq_wf_move_seq [OF assms] rq.lookup_clear_range [OF assms]
  by (simp add: rq_move_seq_def rq_clear_range_def rq_clear_range_mapping set_seq_upto)

theorem rq_move_seq_clears_witness:
  "om_find (rq_packets (rq_move_seq 1 (rq_init\<lparr>rq_start_seq := 65534,
     rq_packets := [(1, descr_of [1, 2]), (65535, descr_of [3])]\<rparr>))) 65535 = None"
  using rq_move_seq_clears [of "rq_init\<lparr>rq_start_seq := 65534,
     rq_packets := [(1, descr_of [1, 2]), (65535, descr_of [3])]\<rparr>" 1]
  by (simp add: rq_wf_def wf_table_def om_wf_def rq_init_def wf_descr_def descr_of_def)

text \<open>
  Retransmission renumbers: the packet moves to the next free number with its bytes, and
  the old number keeps an empty descriptor, which still counts as a (data) packet there.
\<close>

theorem move_packet_up_renumbers:
  assumes "sq_wf q" and "om_find (sq_packets q) seq = Some d"
    and "om_find (sq_packets q) (sq_end_seq q + 1) = None"
  shows "sq_end_seq (move_packet_up eager seq q) = sq_end_seq q + 1 \<and>
    om_find (sq_packets (move_packet_up eager seq q)) (sq_end_seq q + 1) = Some d \<and>
    om_find (sq_packets (move_packet_up eager seq q)) seq = Some \<lparr>pd_size = 0, pd_data = None\<rparr> \<and>
    (\<forall>j. j \<noteq> seq \<longrightarrow> j \<noteq> sq_end_seq q + 1 \<longrightarrow>
       om_find (sq_packets (move_packet_up eager seq q)) j = om_find (sq_packets q) j)"
proof -
  have wf: "om_wf (sq_packets q)" using assms(1) by (simp add: sq_wf_def wf_table_def)
  have ne: "seq \<noteq> sq_end_seq q + 1" using assms(2,3) by auto
  from wf assms ne show ?thesis
    by (simp add: move_packet_up_def descr_move_eq Let_def om_find_emplace om_find_assign om_wf_assign)
qed

theorem move_packet_up_renumbers_witness:
  "om_find (sq_packets (move_packet_up False 1 (sq_init\<lparr>sq_end_seq := 1, sq_packets := [(1, descr_of [7, 8])]\<rparr>))) 2
    = Some (descr_of [7, 8])"
  using move_packet_up_renumbers [of "sq_init\<lparr>sq_end_seq := 1, sq_packets := [(1, descr_of [7, 8])]\<rparr>" 1
      "descr_of [7, 8]" False]
  by (simp add: sq_wf_def wf_table_def om_wf_def sq_init_def wf_descr_def descr_of_def)

end
