(* ===== verification/Packet_Reachable.thy ===== *)
theory Packet_Reachable
  imports Packet_Reassembly
begin

text \<open>
  The queues of \<open>packet_queue.h\<close> as programs use them: what holds of every queue that the
  operations can produce, starting from an empty one.
\<close>

section \<open>Reachable queues\<close>

datatype recv_op =
    Recv_push "u32 \<Rightarrow> bool" u16 bytes u32
  | Recv_clear u16 u16
  | Recv_move u16

text \<open>A push that throws leaves the queue as it was.\<close>

fun recv_apply :: "recv_op \<Rightarrow> recv_queue \<Rightarrow> recv_queue" where
  "recv_apply (Recv_push alloc seq data sz) q =
     (case rq_push_packet alloc seq data sz q of Inl e \<Rightarrow> q | Inr q' \<Rightarrow> q')"
| "recv_apply (Recv_clear a b) q = rq_clear_range a b q"
| "recv_apply (Recv_move n) q = rq_move_seq n q"

datatype send_op =
    Send_push "u32 \<Rightarrow> bool" u32 bytes
  | Send_buffer "u32 \<Rightarrow> bool" bytes u32
  | Send_up bool u16
  | Send_clear u16 u16

text \<open>\<open>push_buffer\<close> returns whenever \<open>mtu\<close> is not 0, and \<open>mtu\<close> never changes.\<close>

fun send_apply :: "send_op \<Rightarrow> send_queue \<Rightarrow> send_queue" where
  "send_apply (Send_push alloc sz data) q = snd (sq_push_packet alloc sz data q)"
| "send_apply (Send_buffer alloc data sz) q =
     (case push_buffer alloc data sz q of None \<Rightarrow> q | Some (e, q') \<Rightarrow> q')"
| "send_apply (Send_up eager seq) q = move_packet_up eager seq q"
| "send_apply (Send_clear a b) q = sq_clear_range a b q"

definition recv_run :: "recv_op list \<Rightarrow> recv_queue" where
  "recv_run ps = fold recv_apply ps rq_init"

definition send_run :: "send_op list \<Rightarrow> send_queue" where
  "send_run ps = fold send_apply ps sq_init"

lemma fold_invariant: "I s \<Longrightarrow> (\<And>p s. I s \<Longrightarrow> I (f p s)) \<Longrightarrow> I (fold f ps s)"
  by (induction ps arbitrary: s) simp_all

section \<open>Well-formedness\<close>

lemma recv_apply_wf: "rq_wf q \<Longrightarrow> rq_wf (recv_apply p q)"
  by (cases p) (auto simp: rq_wf_clear_range rq_wf_move_seq rq_wf_push split: sum.splits)

lemma rq_clear_range_unmapped: "rq_seq_mapping q = [] \<Longrightarrow> rq_seq_mapping (rq_clear_range a b q) = []"
  unfolding rq_clear_range_def by (rule fold_invariant) (simp_all add: rq_clear_at_mapping om_erase_def)

lemma recv_apply_mapping: "rq_seq_mapping q = [] \<Longrightarrow> rq_seq_mapping (recv_apply p q) = []"
  by (cases p)
    (auto simp: rq_clear_range_unmapped rq_move_seq_def rq_push_packet_def split: sum.splits)

definition send_inv :: "send_queue \<Rightarrow> bool" where
  "send_inv q \<longleftrightarrow> sq_wf q \<and> sq_mtu q \<noteq> 0"

lemma send_inv_push: "send_inv q \<Longrightarrow> send_inv (snd (sq_push_packet alloc sz data q))"
  by (simp add: send_inv_def sq_wf_push)

lemma push_buffer_loop_inv:
  assumes "push_buffer_loop alloc data sz off q = Some r"
  shows "send_inv q \<longrightarrow> send_inv (snd r)"
proof (rule push_buffer_loop.raw_induct [where P = "\<lambda>alloc data sz off q r. send_inv q \<longrightarrow> send_inv (snd r)", OF _ assms])
  fix f alloc data sz off q r
  assume IH: "\<And>alloc data sz off q r. f alloc data sz off q = Some r \<Longrightarrow> send_inv q \<longrightarrow> send_inv (snd r)"
    and eq: "(if off < sz then
        let packet_size = if sq_mtu q < sz - off then sq_mtu q else sz - off
        in case sq_push_packet alloc packet_size (drop (unat off) data) q of
             (None, q') \<Rightarrow> f alloc data sz (off + packet_size) q'
           | (Some e, q') \<Rightarrow> Some (Some e, q')
       else Some (None, q)) = Some r"
  let ?n = "if sq_mtu q < sz - off then sq_mtu q else sz - off"
  obtain e q' where push: "sq_push_packet alloc ?n (drop (unat off) data) q = (e, q')" by fastforce
  have keep: "send_inv q \<longrightarrow> send_inv q'" using send_inv_push [of q alloc ?n "drop (unat off) data"] push by simp
  show "send_inv q \<longrightarrow> send_inv (snd r)"
  proof (cases "off < sz")
    case True
    then show ?thesis using eq push keep IH [of alloc data sz "off + ?n" q' r] by (cases e) (auto simp: Let_def)
  next
    case False
    then show ?thesis using eq by auto
  qed
qed

lemma send_apply_inv: "send_inv q \<Longrightarrow> send_inv (send_apply p q)"
proof (cases p)
  case (Send_push alloc sz data)
  then show "send_inv q \<Longrightarrow> ?thesis" by (simp add: send_inv_push)
next
  case (Send_buffer alloc data sz)
  then show "send_inv q \<Longrightarrow> ?thesis"
    using push_buffer_loop_inv [of alloc data sz 0 q] by (auto simp: push_buffer_def split: option.splits prod.splits)
next
  case (Send_up eager seq)
  have "sq_mtu (move_packet_up eager seq q) = sq_mtu q"
    by (auto simp: move_packet_up_def Let_def split: option.splits prod.splits)
  then show "send_inv q \<Longrightarrow> ?thesis" using Send_up by (simp add: send_inv_def sq_wf_move_packet_up)
next
  case (Send_clear a b)
  have "sq_mtu (sq_clear_range a b q) = sq_mtu q"
    unfolding sq_clear_range_def
    by (rule fold_invariant [where I = "\<lambda>s. sq_mtu s = sq_mtu q"]) (auto simp: sq_clear_at_def split: option.splits)
  then show "send_inv q \<Longrightarrow> ?thesis" using Send_clear by (simp add: send_inv_def sq_wf_clear_range)
qed

lemma recv_run_inv: "rq_wf (recv_run ps) \<and> rq_seq_mapping (recv_run ps) = []"
  unfolding recv_run_def
  by (rule fold_invariant [where I = "\<lambda>q. rq_wf q \<and> rq_seq_mapping q = []"])
    (simp add: rq_init_def rq_wf_def wf_table_def, simp add: recv_apply_wf recv_apply_mapping)

lemma send_run_inv: "send_inv (send_run ps)"
  unfolding send_run_def
proof (rule fold_invariant [where I = send_inv])
  show "send_inv sq_init" by (simp add: send_inv_def) (simp add: sq_init_def)
qed (rule send_apply_inv)

section \<open>Loops over a range\<close>

lemma loops_return:
  assumes "rq_seq_mapping q = []"
  shows "missing_loop q is acc \<noteq> None" and "range_size_loop q is sz \<noteq> None" and "copy_loop q is off data \<noteq> None"
proof -
  have r: "resolve_seq [] i = Some i" for i by (subst resolve_seq.simps) simp
  show "missing_loop q is acc \<noteq> None" using assms r by (induction "is" arbitrary: acc) simp_all
  show "range_size_loop q is sz \<noteq> None" using assms r by (induction "is" arbitrary: sz) (simp_all split: option.splits)
  show "copy_loop q is off data \<noteq> None"
    using assms r by (induction "is" arbitrary: off data) (simp_all split: option.splits)
qed

section \<open>Properties\<close>

text \<open>
  (C16) In every queue that the operations produce from an empty one, each descriptor owns exactly
  as many bytes as its size says, so no copy reads outside a packet; nothing is ever entered into
  the mapping of sequence numbers, so every loop over a range returns; and splitting a buffer
  always returns.
\<close>

theorem queues_stay_well_formed:
  "(\<forall>d \<in> snd ` set (rq_packets (recv_run ps)). \<exists>b. descr_bytes d = Some b \<and> length b = unat (pd_size d)) \<and>
   (\<forall>d \<in> snd ` set (sq_packets (send_run qs)). \<exists>b. descr_bytes d = Some b \<and> length b = unat (pd_size d)) \<and>
   distinct (map fst (rq_packets (recv_run ps))) \<and> distinct (map fst (sq_packets (send_run qs))) \<and>
   rq_seq_mapping (recv_run ps) = [] \<and>
   compute_range_size (recv_run ps) a b \<noteq> None \<and> find_missing_packets (recv_run ps) a b acc \<noteq> None \<and>
   copy_data (recv_run ps) dest a b \<noteq> None \<and> push_buffer alloc data sz (send_run qs) \<noteq> None"
proof -
  have r: "rq_wf (recv_run ps)" "rq_seq_mapping (recv_run ps) = []" using recv_run_inv by blast+
  have s: "sq_wf (send_run qs)" "sq_mtu (send_run qs) \<noteq> 0" using send_run_inv by (simp_all add: send_inv_def)
  have "distinct (map fst t)" if "om_wf t" for t :: "(u16, packet_descr) omap"
    using that strict_sorted_iff by (auto simp: om_wf_def)
  then show ?thesis
    using r s loops_return [OF r(2)] push_buffer_loop_returns [OF s(2)]
    by (simp add: rq_wf_def sq_wf_def wf_table_def descr_bytes_wf compute_range_size_def find_missing_packets_def
        copy_data_def push_buffer_def)
qed

theorem queues_stay_well_formed_witness:
  "\<exists>b. descr_bytes (descr_of [7, 8]) = Some b \<and> length b = 2"
proof -
  let ?ps = "[Recv_push (\<lambda>_. True) 3 [7, 8, 9] 2]"
  have "descr_of [7, 8] \<in> snd ` set (rq_packets (recv_run ?ps))"
    by (simp add: recv_run_def rq_push_packet_def descr_new_def rq_init_def descr_of_def)
  with queues_stay_well_formed [of ?ps "[]"] show ?thesis by (fastforce simp: descr_of_def)
qed

end
