(* ===== verification/Bit_Writer.thy ===== *)
theory Bit_Writer
  imports Prelude
begin

text \<open>
  \<open>proto/bit_writer.h\<close>: the bit buffer the generated serialisers write to. Elements have type
  \<open>Tn\<close> (\<open>'n word\<close>), values type \<open>Ti\<close> (\<open>'i word\<close>); both are unsigned. Shifting a value by its
  width or more is undefined in C++ and is \<open>None\<close> here, as is an element access outside the
  vector. C++ shifts a \<open>Ti\<close> narrower than \<open>int\<close> as an \<open>int\<close>: the model is exact when \<open>Ti\<close> is
  wider than \<open>Tn\<close> (the extra bits are cut off by the conversion to \<open>Tn\<close>) or has 32 bits or
  more, and the properties assume one of the two. The abstract content of a writer is the list of bits written, lowest bit first.
\<close>

section \<open>The writer\<close>

definition shl :: "'i::len word \<Rightarrow> nat \<Rightarrow> 'i word option" where
  "shl v k = (if k < LENGTH('i) then Some (push_bit k v) else None)"

definition shr :: "'i::len word \<Rightarrow> nat \<Rightarrow> 'i word option" where
  "shr v k = (if k < LENGTH('i) then Some (drop_bit k v) else None)"

text \<open>Arithmetic on types narrower than \<open>int\<close> is done in \<open>int\<close>.\<close>

definition promoted :: "nat \<Rightarrow> nat" where
  "promoted w = max 32 w"

record 'e bit_writer =
  bw_out :: "'e list"
  bw_out_v :: 'e
  bw_bits_out :: nat

definition bw_init :: "'n::len word bit_writer" where
  "bw_init = \<lparr>bw_out = [], bw_out_v = 0, bw_bits_out = 0\<rparr>"

definition get_bit_pos :: "'n::len word bit_writer \<Rightarrow> nat" where
  "get_bit_pos w = length (bw_out w) * LENGTH('n) + bw_bits_out w"

function write_tail :: "'i::len word \<Rightarrow> nat \<Rightarrow> 'n::len word bit_writer \<Rightarrow> 'n word bit_writer option" where
  "write_tail v n w =
     (if n > LENGTH('n) then
        (case shr v LENGTH('n) of
           None \<Rightarrow> None
         | Some v' \<Rightarrow> write_tail v' (n - LENGTH('n)) (w\<lparr>bw_out := bw_out w @ [ucast v]\<rparr>))
      else Some (w\<lparr>bw_out_v := ucast v, bw_bits_out := n\<rparr>))"
  by pat_completeness auto
termination
  by (relation "measure (\<lambda>(v, n, w). n)") auto

declare write_tail.simps [simp del]

definition write_uint :: "'i::len word \<Rightarrow> nat \<Rightarrow> 'n::len word bit_writer \<Rightarrow> 'n word bit_writer option" where
  "write_uint v n w =
     (if n + bw_bits_out w \<le> LENGTH('n) then
        (case shl v (bw_bits_out w) of
           None \<Rightarrow> None
         | Some x \<Rightarrow> Some (w\<lparr>bw_out_v := bw_out_v w OR ucast x, bw_bits_out := bw_bits_out w + n\<rparr>))
      else
        (let b = LENGTH('n) - bw_bits_out w
         in case shl v (bw_bits_out w) of
              None \<Rightarrow> None
            | Some x \<Rightarrow>
                (case shr v b of
                   None \<Rightarrow> None
                 | Some v' \<Rightarrow>
                     write_tail v' (n - b)
                       (w\<lparr>bw_out := bw_out w @ [bw_out_v w OR ucast x],
                          bw_out_v := 0, bw_bits_out := 0\<rparr>))))"

text \<open>Overwriting bits already flushed, used to back-patch length fields.\<close>

definition set_elem :: "nat \<Rightarrow> 'n word \<Rightarrow> 'n word bit_writer \<Rightarrow> 'n word bit_writer option" where
  "set_elem pos v w =
     (if pos < length (bw_out w) then Some (w\<lparr>bw_out := (bw_out w)[pos := v]\<rparr>) else None)"

definition get_elem :: "nat \<Rightarrow> 'n word bit_writer \<Rightarrow> 'n word option" where
  "get_elem pos w = (if pos < length (bw_out w) then Some (bw_out w ! pos) else None)"

function write_at_tail ::
  "nat \<Rightarrow> 'i::len word \<Rightarrow> nat \<Rightarrow> 'n::len word bit_writer \<Rightarrow> 'n word bit_writer option" where
  "write_at_tail item_pos v n w =
     (if n > LENGTH('n) then
        (case set_elem item_pos (ucast v) w of
           None \<Rightarrow> None
         | Some w' \<Rightarrow>
             (case shr v LENGTH('n) of
                None \<Rightarrow> None
              | Some v' \<Rightarrow> write_at_tail (item_pos + 1) v' (n - LENGTH('n)) w'))
      else if n \<ge> promoted LENGTH('n) then None
      else
        (case get_elem item_pos w of
           None \<Rightarrow> None
         | Some e \<Rightarrow> set_elem item_pos (e AND NOT (push_bit n 1 - 1) OR ucast v) w))"
  by pat_completeness auto
termination
  by (relation "measure (\<lambda>(p, v, n, w). n)") auto

declare write_at_tail.simps [simp del]

definition write_uint_at ::
  "nat \<Rightarrow> 'i::len word \<Rightarrow> nat \<Rightarrow> 'n::len word bit_writer \<Rightarrow> 'n word bit_writer option" where
  "write_uint_at bit_pos v n w =
     (let item_pos = bit_pos div LENGTH('n); bits = bit_pos mod LENGTH('n)
      in case shl v bits of
           None \<Rightarrow> None
         | Some x \<Rightarrow>
             (case get_elem item_pos w of
                None \<Rightarrow> None
              | Some e \<Rightarrow>
                  if n < LENGTH('n) - bits then
                    set_elem item_pos (e AND push_bit bits (NOT (push_bit n 1 - 1)) OR ucast x) w
                  else
                    (let b = LENGTH('n) - bits
                     in case set_elem item_pos (e AND NOT (push_bit bits (- 1)) OR ucast x) w of
                          None \<Rightarrow> None
                        | Some w' \<Rightarrow>
                            (case shr v b of
                               None \<Rightarrow> None
                             | Some v' \<Rightarrow> write_at_tail (item_pos + 1) v' (n - b) w'))))"

text \<open>\<open>pick_data\<close> flushes the last element and hands the vector out; \<open>out_v\<close> keeps its value.\<close>

definition pick_data :: "'n::len word bit_writer \<Rightarrow> 'n word list \<times> 'n word bit_writer" where
  "pick_data w =
     (let w' = (if bw_bits_out w \<noteq> 0
                then w\<lparr>bw_out := bw_out w @ [bw_out_v w], bw_bits_out := 0\<rparr> else w)
      in (bw_out w', w'))"

section \<open>The abstract content\<close>

definition bits_of :: "nat \<Rightarrow> 'a::len word \<Rightarrow> bool list" where
  "bits_of n x = map (bit x) [0..<n]"

definition elem_bits :: "'n::len word list \<Rightarrow> bool list" where
  "elem_bits es = concat (map (bits_of LENGTH('n)) es)"

definition bw_bits :: "'n::len word bit_writer \<Rightarrow> bool list" where
  "bw_bits w = elem_bits (bw_out w) @ bits_of (bw_bits_out w) (bw_out_v w)"

definition bw_wf :: "'n::len word bit_writer \<Rightarrow> bool" where
  "bw_wf w \<longleftrightarrow> bw_bits_out w \<le> LENGTH('n) \<and> (\<forall>k \<ge> bw_bits_out w. \<not> bit (bw_out_v w) k)"

text \<open>A value that fits in \<open>n\<close> bits.\<close>

definition fits :: "nat \<Rightarrow> 'i::len word \<Rightarrow> bool" where
  "fits n v \<longleftrightarrow> take_bit n v = v"

lemma fits_iff: "fits n v \<longleftrightarrow> (\<forall>k \<ge> n. \<not> bit v k)"
proof
  assume "fits n v"
  then show "\<forall>k \<ge> n. \<not> bit v k"
    unfolding fits_def by (metis bit_take_bit_iff not_le)
next
  assume "\<forall>k \<ge> n. \<not> bit v k"
  then show "fits n v"
    unfolding fits_def by (intro bit_word_eqI) (auto simp: bit_take_bit_iff not_le [symmetric])
qed

lemma length_bits_of [simp]: "length (bits_of n x) = n"
  by (simp add: bits_of_def)

lemma nth_bits_of [simp]: "k < n \<Longrightarrow> bits_of n x ! k = bit x k"
  by (simp add: bits_of_def)

lemma bits_of_append: "bits_of (m + n) x = bits_of m x @ bits_of n (drop_bit m x)"
  by (rule nth_equalityI) (auto simp: nth_append bit_simps)

lemma bits_of_cong: "(\<And>k. k < n \<Longrightarrow> bit x k = bit y k) \<Longrightarrow> bits_of n x = bits_of n y"
  by (simp add: bits_of_def)

lemma length_elem_bits [simp]: "length (elem_bits (es :: 'n::len word list)) = length es * LENGTH('n)"
  by (induction es) (simp_all add: elem_bits_def)

lemma elem_bits_snoc [simp]: "elem_bits (es @ [e :: 'n::len word]) = elem_bits es @ bits_of LENGTH('n) e"
  by (simp add: elem_bits_def)

lemma fits_drop: "fits n v \<Longrightarrow> fits (n - m) (drop_bit m v)"
  by (auto simp: fits_iff bit_simps)

lemma bits_of_ucast: "n \<le> LENGTH('n::len) \<Longrightarrow> bits_of n (ucast v :: 'n word) = bits_of n v"
  by (rule bits_of_cong) (auto simp: bit_simps)

lemma fits_bit_bound: "fits n v \<Longrightarrow> bit v k \<Longrightarrow> k < n"
  unfolding fits_iff by (metis not_le)

lemma write_tail_bits:
  fixes w :: "'n::len word bit_writer" and v :: "'i::len word"
  assumes "LENGTH('n) < LENGTH('i)" and "fits n v"
  shows "\<exists>w'. write_tail v n w = Some w' \<and> bw_wf w' \<and>
    bw_bits w' = elem_bits (bw_out w) @ bits_of n v"
  using assms(2)
proof (induction v n w rule: write_tail.induct)
  case (1 v n w)
  show ?case
  proof (cases "n > LENGTH('n)")
    case True
    let ?w = "w\<lparr>bw_out := bw_out w @ [ucast v]\<rparr>"
    have s: "shr v LENGTH('n) = Some (drop_bit LENGTH('n) v)" using assms(1) by (simp add: shr_def)
    obtain w' where w': "write_tail (drop_bit LENGTH('n) v) (n - LENGTH('n)) ?w = Some w'" "bw_wf w'"
      "bw_bits w' = elem_bits (bw_out ?w) @ bits_of (n - LENGTH('n)) (drop_bit LENGTH('n) v)"
      using "1.IH" [OF True s] fits_drop [OF "1.prems"] by blast
    have "bits_of n v = bits_of LENGTH('n) v @ bits_of (n - LENGTH('n)) (drop_bit LENGTH('n) v)"
      using True bits_of_append [of "LENGTH('n)" "n - LENGTH('n)" v] by simp
    moreover have "bits_of LENGTH('n) (ucast v :: 'n word) = bits_of LENGTH('n) v"
      by (simp add: bits_of_ucast)
    ultimately show ?thesis using True s w' by (subst write_tail.simps) simp
  next
    case False
    moreover from False have "bits_of n (ucast v :: 'n word) = bits_of n v"
      by (simp add: bits_of_ucast)
    moreover have "\<forall>k \<ge> n. \<not> bit (ucast v :: 'n word) k"
      using "1.prems" by (auto simp: fits_iff bit_simps)
    ultimately show ?thesis
      by (subst write_tail.simps) (simp add: bw_bits_def bw_wf_def)
  qed
qed

lemma bits_of_or_shift:
  fixes o_v :: "'n::len word" and v :: "'i::len word"
  assumes "\<forall>k \<ge> m. \<not> bit o_v k" and "m + n \<le> LENGTH('n)" and "LENGTH('n) < LENGTH('i)"
  shows "bits_of (m + n) (o_v OR ucast (push_bit m v)) = bits_of m o_v @ bits_of n v"
proof (rule nth_equalityI)
  fix k assume "k < length (bits_of (m + n) (o_v OR ucast (push_bit m v)))"
  then have k: "k < m + n" by simp
  show "bits_of (m + n) (o_v OR ucast (push_bit m v)) ! k = (bits_of m o_v @ bits_of n v) ! k"
    using k assms by (auto simp: nth_append bit_simps)
qed simp

lemma write_uint_bits:
  fixes w :: "'n::len word bit_writer" and v :: "'i::len word"
  assumes "LENGTH('n) < LENGTH('i)" and "bw_wf w" and "fits n v"
  shows "\<exists>w'. write_uint v n w = Some w' \<and> bw_wf w' \<and> bw_bits w' = bw_bits w @ bits_of n v"
proof -
  let ?m = "bw_bits_out w" and ?L = "LENGTH('n)"
  have m: "?m \<le> ?L" and clean: "\<forall>k \<ge> ?m. \<not> bit (bw_out_v w) k"
    using assms(2) by (auto simp: bw_wf_def)
  have s1: "shl v ?m = Some (push_bit ?m v)" using m assms(1) by (simp add: shl_def)
  show ?thesis
  proof (cases "n + ?m \<le> ?L")
    case True
    then have "bits_of (?m + n) (bw_out_v w OR ucast (push_bit ?m v)) = bits_of ?m (bw_out_v w) @ bits_of n v"
      using clean assms(1) by (intro bits_of_or_shift) simp_all
    moreover have "\<forall>k \<ge> ?m + n. \<not> bit (bw_out_v w OR ucast (push_bit ?m v)) k"
      using clean assms(3) by (auto simp: fits_iff bit_simps)
    ultimately show ?thesis
      using True s1 by (simp add: write_uint_def bw_bits_def bw_wf_def add.commute)
  next
    case False
    let ?b = "?L - ?m"
    let ?w = "w\<lparr>bw_out := bw_out w @ [bw_out_v w OR ucast (push_bit ?m v)], bw_out_v := 0, bw_bits_out := 0\<rparr>"
    have s2: "shr v ?b = Some (drop_bit ?b v)" using assms(1) by (simp add: shr_def)
    have full: "bits_of ?L (bw_out_v w OR ucast (push_bit ?m v)) = bits_of ?m (bw_out_v w) @ bits_of ?b v"
      using bits_of_or_shift [OF clean, of ?b v] m assms(1) by simp
    have "bits_of n v = bits_of ?b v @ bits_of (n - ?b) (drop_bit ?b v)"
      using False m bits_of_append [of ?b "n - ?b" v] by simp
    moreover obtain w' where "write_tail (drop_bit ?b v) (n - ?b) ?w = Some w'" "bw_wf w'"
      "bw_bits w' = elem_bits (bw_out ?w) @ bits_of (n - ?b) (drop_bit ?b v)"
      using write_tail_bits [OF assms(1) fits_drop [OF assms(3)], of ?b ?w] by blast
    ultimately show ?thesis
      using False s1 s2 full by (simp add: write_uint_def bw_bits_def Let_def)
  qed
qed

lemma get_bit_pos_bits: "get_bit_pos w = length (bw_bits w)"
  by (simp add: get_bit_pos_def bw_bits_def)

lemma bw_wf_init [simp]: "bw_wf bw_init"
  by (simp add: bw_wf_def bw_init_def)

lemma bw_bits_init [simp]: "bw_bits bw_init = []"
  by (simp add: bw_bits_def bw_init_def elem_bits_def bits_of_def)

lemma get_bit_pos_init [simp]: "get_bit_pos bw_init = 0"
  by (simp add: get_bit_pos_def bw_init_def)

section \<open>Writers as bit sinks\<close>

text \<open>
  What a serialiser relies on: a write appends the bits of its value, and the position is the
  number of bits written. \<open>write_fields\<close> is a serialiser that writes its fields in order.
\<close>

fun write_fields :: "('v \<Rightarrow> nat \<Rightarrow> 's \<Rightarrow> 's option) \<Rightarrow> ('v \<times> nat) list \<Rightarrow> 's \<Rightarrow> 's option" where
  "write_fields put [] s = Some s"
| "write_fields put ((v, n) # fs) s =
     (case put v n s of None \<Rightarrow> None | Some s' \<Rightarrow> write_fields put fs s')"

locale bit_sink =
  fixes put :: "'v \<Rightarrow> nat \<Rightarrow> 's \<Rightarrow> 's option"
    and pos :: "'s \<Rightarrow> nat"
    and content :: "'s \<Rightarrow> bool list"
    and enc :: "nat \<Rightarrow> 'v \<Rightarrow> bool list"
    and valid :: "nat \<Rightarrow> 'v \<Rightarrow> bool"
    and wf :: "'s \<Rightarrow> bool"
  assumes write_appends: "wf s \<Longrightarrow> valid n v \<Longrightarrow>
      \<exists>s'. put v n s = Some s' \<and> wf s' \<and> content s' = content s @ enc n v"
    and pos_content: "pos s = length (content s)"
    and length_enc: "length (enc n v) = n"
begin

lemma write_fields_appends:
  "wf s \<Longrightarrow> \<forall>(v, n) \<in> set fs. valid n v \<Longrightarrow>
   \<exists>s'. write_fields put fs s = Some s' \<and> wf s' \<and>
     content s' = content s @ concat (map (\<lambda>(v, n). enc n v) fs)"
proof (induction fs arbitrary: s)
  case (Cons f fs)
  obtain v n where f: "f = (v, n)" by fastforce
  with Cons.prems obtain s1 where s1: "put v n s = Some s1" "wf s1" "content s1 = content s @ enc n v"
    using write_appends by fastforce
  moreover obtain s2 where "write_fields put fs s1 = Some s2" "wf s2"
    "content s2 = content s1 @ concat (map (\<lambda>(v, n). enc n v) fs)"
    using Cons.IH [OF s1(2)] Cons.prems(2) by auto
  ultimately show ?case using f by simp
qed simp

lemma write_fields_pos:
  assumes "wf s" and "\<forall>(v, n) \<in> set fs. valid n v" and "write_fields put fs s = Some s'"
  shows "pos s' = pos s + sum_list (map snd fs)"
proof -
  have "length (concat (map (\<lambda>(v, n). enc n v) fs)) = sum_list (map snd fs)"
    by (induction fs) (auto simp: length_enc)
  with write_fields_appends [OF assms(1,2)] assms(3) show ?thesis by (auto simp: pos_content)
qed

end

interpretation bw8: bit_sink "write_uint :: u64 \<Rightarrow> nat \<Rightarrow> u8 bit_writer \<Rightarrow> _"
  get_bit_pos bw_bits bits_of fits bw_wf
  by unfold_locales (simp_all add: write_uint_bits get_bit_pos_bits)

interpretation bw32: bit_sink "write_uint :: u64 \<Rightarrow> nat \<Rightarrow> u32 bit_writer \<Rightarrow> _"
  get_bit_pos bw_bits bits_of fits bw_wf
  by unfold_locales (simp_all add: write_uint_bits get_bit_pos_bits)

lemma pick_data_bits:
  fixes w :: "'n::len word bit_writer"
  assumes "bw_wf w"
  shows "\<exists>pad. elem_bits (fst (pick_data w)) = bw_bits w @ replicate pad False \<and> pad < LENGTH('n)"
proof (cases "bw_bits_out w = 0")
  case True
  then show ?thesis by (intro exI [of _ 0]) (simp add: pick_data_def bw_bits_def bits_of_def)
next
  case False
  let ?m = "bw_bits_out w"
  have "bits_of LENGTH('n) (bw_out_v w) = bits_of ?m (bw_out_v w) @ replicate (LENGTH('n) - ?m) False"
  proof (rule nth_equalityI)
    show "length (bits_of LENGTH('n) (bw_out_v w)) = length (bits_of ?m (bw_out_v w) @ replicate (LENGTH('n) - ?m) False)"
      using assms by (simp add: bw_wf_def)
    fix k assume "k < length (bits_of LENGTH('n) (bw_out_v w))"
    with assms show "bits_of LENGTH('n) (bw_out_v w) ! k
      = (bits_of ?m (bw_out_v w) @ replicate (LENGTH('n) - ?m) False) ! k"
      by (auto simp: nth_append bw_wf_def)
  qed
  with False assms show ?thesis
    by (intro exI [of _ "LENGTH('n) - ?m"]) (simp add: pick_data_def bw_bits_def)
qed

section \<open>Overwriting\<close>

definition gbit :: "'n::len word list \<Rightarrow> nat \<Rightarrow> bool" where
  "gbit es p = bit (es ! (p div LENGTH('n))) (p mod LENGTH('n))"

lemma gbit_update:
  fixes es :: "'n::len word list"
  assumes "j < length es" and "p < length es * LENGTH('n)"
  shows "gbit (es[j := x]) p = (if p div LENGTH('n) = j then bit x (p mod LENGTH('n)) else gbit es p)"
proof -
  have "p div LENGTH('n) < length es" using assms(2) by (simp add: less_mult_imp_div_less)
  with assms show ?thesis by (auto simp: gbit_def nth_list_update)
qed

lemma div_eq_range: "0 < (L :: nat) \<Longrightarrow> p div L = j \<longleftrightarrow> j * L \<le> p \<and> p < j * L + L"
  by (metis add.commute div_mult_self1_is_m div_nat_eqI dividend_less_div_times mult.commute
      mult_Suc times_div_less_eq_dividend)

lemma bit_mask_minus: "bit (2 ^ n - 1 :: 'n::len word) k \<longleftrightarrow> k < n \<and> k < LENGTH('n)"
  by (metis bit_mask_iff mask_eq_exp_minus_1 possible_bit_word)

lemma bit_patch_low:
  assumes "fits n v" and "k < LENGTH('n)"
  shows "bit (e AND NOT (push_bit n 1 - 1) OR ucast v :: 'n::len word) k = (if k < n then bit v k else bit e k)"
  using assms by (auto simp: bit_simps bit_mask_minus fits_iff)

text \<open>Patching the low bits of an element, or those from a position on.\<close>

lemma elem_pos: "p div L = j \<Longrightarrow> p mod L = p - j * L" for p :: nat
  by (metis minus_div_mult_eq_mod)

lemma gbit_patch_low:
  fixes v :: "'i::len word" and out :: "'n::len word list"
  assumes "fits n v" and "n \<le> LENGTH('n)" and "j < length out" and p: "p < length out * LENGTH('n)"
  shows "gbit (out[j := out ! j AND NOT (push_bit n 1 - 1) OR ucast v]) p =
    (if j * LENGTH('n) \<le> p \<and> p < j * LENGTH('n) + n then bit v (p - j * LENGTH('n)) else gbit out p)"
proof (cases "p div LENGTH('n) = j")
  case True
  let ?x = "out ! j AND NOT (push_bit n 1 - 1) OR ucast v" and ?r = "p mod LENGTH('n)"
  have up: "gbit (out[j := ?x]) p = bit ?x ?r" and old: "gbit out p = bit (out ! j) ?r"
    using gbit_update [OF assms(3) p, of ?x] True by (simp_all add: gbit_def)
  have "j * LENGTH('n) \<le> p" using True by auto
  then have "?r < n \<longleftrightarrow> j * LENGTH('n) \<le> p \<and> p < j * LENGTH('n) + n" unfolding elem_pos [OF True] by linarith
  moreover have "bit ?x ?r = (if ?r < n then bit v ?r else bit (out ! j) ?r)"
    by (rule bit_patch_low [OF assms(1)]) simp
  ultimately show ?thesis unfolding up old using elem_pos [OF True] by metis
next
  case False
  then show ?thesis using gbit_update [OF assms(3) p] div_eq_range [of "LENGTH('n)" p j] assms(2) by auto
qed

lemma gbit_patch_high:
  fixes v :: "'i::len word" and out :: "'n::len word list"
  assumes "LENGTH('n) < LENGTH('i)" and "j < length out" and p: "p < length out * LENGTH('n)"
  shows "gbit (out[j := out ! j AND NOT (push_bit b (- 1)) OR ucast (push_bit b v)]) p =
    (if p div LENGTH('n) = j \<and> b \<le> p mod LENGTH('n) then bit v (p - (j * LENGTH('n) + b)) else gbit out p)"
proof (cases "p div LENGTH('n) = j")
  case True
  let ?x = "out ! j AND NOT (push_bit b (- 1)) OR ucast (push_bit b v)" and ?r = "p mod LENGTH('n)"
  have up: "gbit (out[j := ?x]) p = bit ?x ?r" and old: "gbit out p = bit (out ! j) ?r"
    using gbit_update [OF assms(2) p, of ?x] True by (simp_all add: gbit_def)
  have "?r < LENGTH('n)" "?r < LENGTH('i)" using assms(1) order_less_trans [OF mod_less_divisor] by simp_all
  then have "bit ?x ?r = (if ?r < b then bit (out ! j) ?r else bit v (?r - b))"
    using assms(1) by (auto simp: bit_simps)
  moreover have "?r - b = p - (j * LENGTH('n) + b)" using elem_pos [OF True] by simp
  ultimately show ?thesis unfolding up old using True by auto
next
  case False
  then show ?thesis using gbit_update [OF assms(2) p] by simp
qed

lemma write_at_tail_bits:
  fixes w :: "'n::len word bit_writer" and v :: "'i::len word"
  assumes "LENGTH('n) < LENGTH('i)" and "LENGTH('n) < 32" and "fits n v"
    and "j + (n - 1) div LENGTH('n) < length (bw_out w)"
  shows "\<exists>w'. write_at_tail j v n w = Some w' \<and> length (bw_out w') = length (bw_out w) \<and>
    bw_out_v w' = bw_out_v w \<and> bw_bits_out w' = bw_bits_out w \<and>
    (\<forall>p < length (bw_out w) * LENGTH('n). gbit (bw_out w') p =
      (if j * LENGTH('n) \<le> p \<and> p < j * LENGTH('n) + n then bit v (p - j * LENGTH('n))
       else gbit (bw_out w) p))"
  using assms(3,4)
proof (induction j v n w rule: write_at_tail.induct)
  case (1 j v n w)
  let ?L = "LENGTH('n)"
  have j: "j < length (bw_out w)" using "1.prems"(2) by simp
  show ?case
  proof (cases "n > ?L")
    case True
    let ?w = "w\<lparr>bw_out := (bw_out w)[j := ucast v]\<rparr>" and ?v = "drop_bit ?L v"
    have s: "set_elem j (ucast v) w = Some ?w" "shr v ?L = Some ?v"
      using j assms(1) by (simp_all add: set_elem_def shr_def)
    have "n - 1 = (n - ?L - 1) + ?L" using True by simp
    then have "(n - 1) div ?L = Suc ((n - ?L - 1) div ?L)"
      using div_add_self2 [of ?L "n - ?L - 1"] by simp
    then have "j + 1 + (n - ?L - 1) div ?L < length (bw_out ?w)" using "1.prems"(2) by simp
    from "1.IH" [OF True s fits_drop [OF "1.prems"(1)] this]
    obtain w' where w': "write_at_tail (j + 1) ?v (n - ?L) ?w = Some w'"
      "length (bw_out w') = length (bw_out w)" "bw_out_v w' = bw_out_v w" "bw_bits_out w' = bw_bits_out w"
      and g: "\<And>p. p < length (bw_out w) * ?L \<Longrightarrow> gbit (bw_out w') p =
        (if (j + 1) * ?L \<le> p \<and> p < (j + 1) * ?L + (n - ?L) then bit ?v (p - (j + 1) * ?L)
         else gbit (bw_out ?w) p)"
      by auto
    have "gbit (bw_out w') p = (if j * ?L \<le> p \<and> p < j * ?L + n then bit v (p - j * ?L) else gbit (bw_out w) p)"
      if p: "p < length (bw_out w) * ?L" for p
      using g [OF p] True gbit_update [OF j p, of "ucast v"] div_eq_range [of ?L p j] elem_pos [of p ?L j]
      by (auto simp: bit_simps algebra_simps)
    with True s w' show ?thesis by (subst write_at_tail.simps) auto
  next
    case False
    then show ?thesis
      using gbit_patch_low [OF "1.prems"(1) _ j] j assms(2)
      by (subst write_at_tail.simps) (simp add: get_elem_def set_elem_def promoted_def)
  qed
qed

lemma write_uint_at_bits_inside:
  fixes w :: "'n::len word bit_writer" and v :: "'i::len word"
  assumes "LENGTH('n) < LENGTH('i)" and "fits n v"
    and "bit_pos mod LENGTH('n) + n < LENGTH('n)" and "bit_pos div LENGTH('n) < length (bw_out w)"
  shows "\<exists>e'. write_uint_at bit_pos v n w
      = Some (w\<lparr>bw_out := (bw_out w)[bit_pos div LENGTH('n) := e']\<rparr>) \<and>
    (\<forall>k < LENGTH('n). bit e' k =
      (if k < bit_pos mod LENGTH('n) then False
       else if k < bit_pos mod LENGTH('n) + n then bit v (k - bit_pos mod LENGTH('n))
       else bit (bw_out w ! (bit_pos div LENGTH('n))) k))"
proof -
  let ?b = "bit_pos mod LENGTH('n)" and ?j = "bit_pos div LENGTH('n)"
  let ?e = "bw_out w ! ?j"
  let ?e' = "?e AND push_bit ?b (NOT (push_bit n 1 - 1)) OR ucast (push_bit ?b v)"
  have b: "?b < LENGTH('n)" by simp
  have s: "shl v ?b = Some (push_bit ?b v)" using order_less_trans [OF b assms(1)] by (simp add: shl_def)
  have "bit ?e' k = (if k < ?b then False else if k < ?b + n then bit v (k - ?b) else bit ?e k)"
    if "k < LENGTH('n)" for k
    using that assms(1-3) by (auto simp: bit_simps bit_mask_minus fits_iff)
  moreover have "write_uint_at bit_pos v n w = Some (w\<lparr>bw_out := (bw_out w)[?j := ?e']\<rparr>)"
    using assms(3,4) s by (simp add: write_uint_at_def get_elem_def set_elem_def Let_def less_diff_conv add.commute)
  ultimately show ?thesis by blast
qed

lemma write_uint_at_bits_across:
  fixes w :: "'n::len word bit_writer" and v :: "'i::len word"
  assumes "LENGTH('n) < LENGTH('i)" and "LENGTH('n) < 32" and "fits n v"
    and "LENGTH('n) \<le> bit_pos mod LENGTH('n) + n"
    and "bit_pos + n < length (bw_out w) * LENGTH('n)"
  shows "\<exists>w'. write_uint_at bit_pos v n w = Some w' \<and> length (bw_out w') = length (bw_out w) \<and>
    (\<forall>p < length (bw_out w) * LENGTH('n). gbit (bw_out w') p =
      (if bit_pos \<le> p \<and> p < bit_pos + n then bit v (p - bit_pos) else gbit (bw_out w) p))"
proof -
  let ?L = "LENGTH('n)"
  define b where "b = bit_pos mod ?L"
  define j where "j = bit_pos div ?L"
  define m where "m = n - (?L - b)"
  let ?e = "bw_out w ! j"
  let ?x = "?e AND NOT (push_bit b (- 1)) OR ucast (push_bit b v)"
  let ?w = "w\<lparr>bw_out := (bw_out w)[j := ?x]\<rparr>"
  have b: "b < ?L" by (simp add: b_def)
  have pos: "bit_pos = j * ?L + b" by (simp add: b_def j_def)
  have n: "bit_pos + n = (j + 1) * ?L + m"
    using assms(4) b pos unfolding b_def [symmetric] m_def by (simp add: add_mult_distrib)
  have "(j + 1) * ?L + m < length (bw_out w) * ?L" using assms(5) n by simp
  then have "((j + 1) * ?L + m) div ?L < length (bw_out w)" by (rule less_mult_imp_div_less)
  then have len: "j + 1 + m div ?L < length (bw_out w)"
    by (subst (asm) div_mult_self3) simp_all
  then have j: "j < length (bw_out w)" by simp
  have "(m - 1) div ?L \<le> m div ?L" by (simp add: div_le_mono)
  with len have len': "j + 1 + (m - 1) div ?L < length (bw_out ?w)" by simp
  have shifts: "shl v b = Some (push_bit b v)" "shr v (?L - b) = Some (drop_bit (?L - b) v)"
    using order_less_trans [OF b assms(1)] assms(1) by (simp_all add: shl_def shr_def)
  have "fits m (drop_bit (?L - b) v)" unfolding m_def by (rule fits_drop [OF assms(3)])
  from write_at_tail_bits [OF assms(1,2) this len']
  obtain w' where w': "write_at_tail (j + 1) (drop_bit (?L - b) v) m ?w = Some w'"
    "length (bw_out w') = length (bw_out w)"
    and g: "\<And>p. p < length (bw_out w) * ?L \<Longrightarrow> gbit (bw_out w') p =
      (if (j + 1) * ?L \<le> p \<and> p < (j + 1) * ?L + m then bit (drop_bit (?L - b) v) (p - (j + 1) * ?L)
       else gbit (bw_out ?w) p)"
    by auto
  have call: "write_uint_at bit_pos v n w = Some w'"
    using assms(4) b j shifts w'(1)
    by (simp add: write_uint_at_def get_elem_def set_elem_def Let_def b_def [symmetric]
        j_def [symmetric] m_def not_less less_diff_conv)
  have "gbit (bw_out w') p = (if bit_pos \<le> p \<and> p < bit_pos + n then bit v (p - bit_pos) else gbit (bw_out w) p)"
    if p: "p < length (bw_out w) * ?L" for p
  proof (cases "(j + 1) * ?L \<le> p")
    case True
    then have "p div ?L \<noteq> j" using div_eq_range [of ?L p j] by auto
    then have "gbit (bw_out ?w) p = gbit (bw_out w) p" using gbit_patch_high [OF assms(1) j p, of b v] by simp
    moreover have "(?L - b) + (p - (j + 1) * ?L) = p - bit_pos" and le: "bit_pos \<le> p" using True b pos by simp_all
    then have "bit (drop_bit (?L - b) v) (p - (j + 1) * ?L) = bit v (p - bit_pos)" by (simp add: bit_drop_bit_eq)
    ultimately show ?thesis using g [OF p] True n le by simp
  next
    case False
    then have "gbit (bw_out w') p = (if p div ?L = j \<and> b \<le> p mod ?L then bit v (p - bit_pos) else gbit (bw_out w) p)"
      using g [OF p] gbit_patch_high [OF assms(1) j p, of b v] pos by simp
    moreover have "p div ?L = j \<and> b \<le> p mod ?L \<longleftrightarrow> bit_pos \<le> p"
    proof (cases "p div ?L = j")
      case True
      then have "p = j * ?L + p mod ?L" using div_mult_mod_eq [of p ?L] by simp
      then show ?thesis using True pos by linarith
    next
      case other: False
      then show ?thesis using False div_eq_range [of ?L p j] pos by auto
    qed
    ultimately show ?thesis using False n by simp
  qed
  with call w'(2) show ?thesis by blast
qed

lemma serialise_fields_bits:
  assumes "\<forall>(v, n) \<in> set fs. fits n v"
  shows "\<exists>w' pad. write_fields write_uint fs (bw_init :: u8 bit_writer) = Some w' \<and>
    get_bit_pos w' = sum_list (map snd fs) \<and>
    elem_bits (fst (pick_data w')) = concat (map (\<lambda>(v :: u64, n). bits_of n v) fs) @ replicate pad False \<and>
    pad < 8"
proof -
  obtain w' where w': "write_fields write_uint fs (bw_init :: u8 bit_writer) = Some w'" "bw_wf w'"
    "bw_bits w' = concat (map (\<lambda>(v, n). bits_of n v) fs)"
    using bw8.write_fields_appends [OF bw_wf_init assms] by auto
  moreover have "get_bit_pos w' = sum_list (map snd fs)"
    using bw8.write_fields_pos [OF bw_wf_init assms w'(1)] by (simp add: get_bit_pos_def bw_init_def)
  ultimately show ?thesis using pick_data_bits [OF w'(2)] by auto
qed

section \<open>Properties\<close>

text \<open>
  Writing appends: for a value that fits its width, \<open>write_uint\<close> succeeds, adds exactly
  the bits of the value, lowest first, to the stream, across any number of elements, advances
  the position by the width and keeps the writer well-formed. Elements are narrower than values.
\<close>

theorem write_uint_appends:
  fixes w :: "'n::len word bit_writer" and v :: "'i::len word"
  assumes "LENGTH('n) < LENGTH('i)" and "bw_wf w" and "fits n v"
  shows "\<exists>w'. write_uint v n w = Some w' \<and> bw_wf w' \<and> bw_bits w' = bw_bits w @ bits_of n v \<and>
    get_bit_pos w' = get_bit_pos w + n"
  using write_uint_bits [OF assms] by (auto simp: get_bit_pos_bits)

theorem write_uint_appends_witness:
  "\<exists>w'. write_uint (0xABC :: u64) 12 (bw_init :: u8 bit_writer) = Some w' \<and>
    bw_bits w' = [False, False, True, True, True, True, False, True, False, True, False, True] \<and>
    get_bit_pos w' = 12"
proof -
  have "bits_of 12 (0xABC :: u64) =
      [False, False, True, True, True, True, False, True, False, True, False, True]"
    by (simp add: bits_of_def upt_rec)
  then show ?thesis
    using write_uint_appends [of "bw_init :: u8 bit_writer" 12 "0xABC :: u64"]
    by (auto simp: fits_def)
qed

text \<open>
  (C19) A serialiser over bytes: writing fields in order into a fresh writer and picking the
  data gives the concatenated bits of the fields, padded with fewer than eight zero bits.
\<close>

theorem serialise_fields:
  assumes "\<forall>(v, n) \<in> set fs. fits n v"
  shows "\<exists>w' pad. write_fields write_uint fs (bw_init :: u8 bit_writer) = Some w' \<and>
    get_bit_pos w' = sum_list (map snd fs) \<and>
    elem_bits (fst (pick_data w')) = concat (map (\<lambda>(v :: u64, n). bits_of n v) fs) @ replicate pad False \<and>
    pad < 8"
  using assms by (rule serialise_fields_bits)

theorem serialise_fields_witness:
  "\<exists>w' pad. write_fields write_uint [(5 :: u64, 3), (1, 7)] (bw_init :: u8 bit_writer) = Some w' \<and>
    elem_bits (fst (pick_data w')) =
      [True, False, True, True, False, False, False, False, False, False] @ replicate pad False"
proof -
  have "concat (map (\<lambda>(v :: u64, n). bits_of n v) [(5, 3), (1, 7)]) =
      [True, False, True, True, False, False, False, False, False, False]"
    by (simp add: bits_of_def upt_rec)
  then show ?thesis using serialise_fields [of "[(5, 3), (1, 7)]"] by (auto simp: fits_def)
qed

text \<open>
  Back-patching across an element boundary: where the field reaches the end of its first
  element and an element beyond it exists, \<open>write_uint_at\<close> replaces exactly the field's bits.
\<close>

theorem write_uint_at_across:
  fixes w :: "'n::len word bit_writer" and v :: "'i::len word"
  assumes "LENGTH('n) < LENGTH('i)" and "LENGTH('n) < 32" and "fits n v"
    and "LENGTH('n) \<le> bit_pos mod LENGTH('n) + n"
    and "bit_pos + n < length (bw_out w) * LENGTH('n)"
  shows "\<exists>w'. write_uint_at bit_pos v n w = Some w' \<and> length (bw_out w') = length (bw_out w) \<and>
    (\<forall>p < length (bw_out w) * LENGTH('n). gbit (bw_out w') p =
      (if bit_pos \<le> p \<and> p < bit_pos + n then bit v (p - bit_pos) else gbit (bw_out w) p))"
  by (rule write_uint_at_bits_across [OF assms])

theorem write_uint_at_across_witness:
  "\<exists>w'. write_uint_at 4 (0x123 :: u64) 12 (bw_init\<lparr>bw_out := [0xFF, 0, 0xFF :: u8]\<rparr>) = Some w' \<and>
    gbit (bw_out w') 3 \<and> gbit (bw_out w') 4 \<and> \<not> gbit (bw_out w') 6 \<and> gbit (bw_out w') 12 \<and>
    gbit (bw_out w') 16"
proof -
  have "gbit [0xFF, 0, 0xFF :: u8] 3" "gbit [0xFF, 0, 0xFF :: u8] 16"
    "bit (0x123 :: u64) 0" "\<not> bit (0x123 :: u64) 2" "bit (0x123 :: u64) 8"
    by (simp_all add: gbit_def)
  then show ?thesis
    using write_uint_at_across [of 12 "0x123 :: u64" 4 "bw_init\<lparr>bw_out := [0xFF, 0, 0xFF :: u8]\<rparr>"]
    by (auto simp: fits_def)
qed

text \<open>
  Back-patching inside one element: the field's bits are set and the bits above it are
  kept, but every bit of the element below the field is cleared, whatever was written there.
\<close>

theorem write_uint_at_inside:
  fixes w :: "'n::len word bit_writer" and v :: "'i::len word"
  assumes "LENGTH('n) < LENGTH('i)" and "fits n v"
    and "bit_pos mod LENGTH('n) + n < LENGTH('n)" and "bit_pos div LENGTH('n) < length (bw_out w)"
  shows "\<exists>e'. write_uint_at bit_pos v n w
      = Some (w\<lparr>bw_out := (bw_out w)[bit_pos div LENGTH('n) := e']\<rparr>) \<and>
    (\<forall>k < LENGTH('n). bit e' k =
      (if k < bit_pos mod LENGTH('n) then False
       else if k < bit_pos mod LENGTH('n) + n then bit v (k - bit_pos mod LENGTH('n))
       else bit (bw_out w ! (bit_pos div LENGTH('n))) k))"
  by (rule write_uint_at_bits_inside [OF assms])

theorem write_uint_at_inside_witness:
  "\<exists>e'. write_uint_at 10 (1 :: u64) 2 (bw_init\<lparr>bw_out := [7, 0xFF :: u8]\<rparr>)
      = Some (bw_init\<lparr>bw_out := [7, e']\<rparr>) \<and> \<not> bit e' 0 \<and> \<not> bit e' 1 \<and> bit e' 2 \<and> \<not> bit e' 3 \<and> bit e' 4"
proof -
  have bits: "bit (0xFF :: u8) 4" "bit (1 :: u64) 0" "\<not> bit (1 :: u64) 1" by simp_all
  then show ?thesis
    using write_uint_at_inside [of 2 "1 :: u64" 10 "bw_init\<lparr>bw_out := [7, 0xFF :: u8]\<rparr>"]
    by (auto simp: fits_def)
qed

text \<open>
  With elements as wide as the values, and these at least as wide as \<open>int\<close>, the next write
  after filling an element shifts by the full width, which is undefined: a full element is only flushed by the following write.
\<close>

lemma write_uint_after_full_element:
  fixes w :: "'n::len word bit_writer" and v u :: "'i::len word"
  assumes "32 \<le> LENGTH('i)" and "LENGTH('i) \<le> LENGTH('n)" and "bw_bits_out w = 0" and "0 < n"
  shows "\<exists>w'. write_uint v LENGTH('n) w = Some w' \<and> write_uint u n w' = None"
  using assms by (auto simp: write_uint_def shl_def)

end
