(* ===== verification/Bit_Reader.thy ===== *)
theory Bit_Reader
  imports Bit_Writer
begin

text \<open>
  \<open>proto/bit_reader.h\<close>: the bit buffer the generated parsers read from. An operation returns
  its value or the exception together with the reader it leaves behind: \<open>read_bits\<close> may have
  consumed elements before \<open>BitStreamFinished\<close> is thrown, and the generated parsers catch it.
  \<open>Read_undefined\<close> stands for a shift by the width or more and for a read outside the buffer.
\<close>

section \<open>The reader\<close>

datatype read_exc = Bit_stream_finished | Read_undefined

record 'e bit_reader =
  br_buf :: "'e list"
  br_items_read :: nat
  br_bit_size :: nat
  br_cur_item :: 'e
  br_cur_item_bits :: nat

definition read_item :: "'n::len word bit_reader \<Rightarrow> read_exc option \<times> 'n word bit_reader" where
  "read_item r =
     (let bits_read = br_items_read r * LENGTH('n)
      in if bits_read \<ge> br_bit_size r then (Some Bit_stream_finished, r)
         else if br_items_read r \<ge> length (br_buf r) then (Some Read_undefined, r)
         else (None, r\<lparr>br_cur_item := br_buf r ! br_items_read r,
                       br_items_read := br_items_read r + 1,
                       br_cur_item_bits :=
                         (if bits_read + LENGTH('n) \<le> br_bit_size r then LENGTH('n)
                          else br_bit_size r - bits_read)\<rparr>))"

lemma read_item_progress:
  "read_item r = (None, r') \<Longrightarrow> length (br_buf r') - br_items_read r' < length (br_buf r) - br_items_read r"
  by (auto simp: read_item_def Let_def split: if_splits)

text \<open>
  \<open>cur_item & ((Tn(1) << (k + 1)) - 1)\<close> and the shift \<open>cur_item >>= k\<close>; both are computed in
  the promoted type.
\<close>

definition take_low :: "nat \<Rightarrow> 'n::len word bit_reader \<Rightarrow> ('n word \<times> 'n word bit_reader) option" where
  "take_low k r =
     (if k + 1 < promoted LENGTH('n)
      then Some (br_cur_item r AND (push_bit (k + 1) 1 - 1),
                 r\<lparr>br_cur_item := drop_bit k (br_cur_item r),
                   br_cur_item_bits := br_cur_item_bits r - k\<rparr>)
      else None)"

function read_more ::
  "'o::len word \<Rightarrow> nat \<Rightarrow> 'n::len word bit_reader \<Rightarrow> (read_exc + 'o word) \<times> 'n word bit_reader" where
  "read_more acc n r =
     (case read_item r of
        (Some e, r1) \<Rightarrow> (Inl e, r1)
      | (None, r1) \<Rightarrow>
          if n > br_cur_item_bits r1 then
            if br_cur_item_bits r1 < promoted LENGTH('o)
            then read_more (push_bit (br_cur_item_bits r1) acc OR ucast (br_cur_item r1))
                   (n - br_cur_item_bits r1) r1
            else (Inl Read_undefined, r1)
          else if n < promoted LENGTH('o) then
            (case take_low n r1 of
               None \<Rightarrow> (Inl Read_undefined, r1)
             | Some (x, r2) \<Rightarrow> (Inr (push_bit n acc OR ucast x), r2))
          else (Inl Read_undefined, r1))"
  by pat_completeness auto
termination
  by (relation "measure (\<lambda>(acc, n, r). length (br_buf r) - br_items_read r)")
    (auto dest!: sym [of "(None, _)"] intro: read_item_progress)

declare read_more.simps [simp del]

definition read_bits ::
  "nat \<Rightarrow> 'n::len word bit_reader \<Rightarrow> (read_exc + 'o::len word) \<times> 'n word bit_reader" where
  "read_bits n r =
     (if n \<le> br_cur_item_bits r then
        (case take_low n r of
           None \<Rightarrow> (Inl Read_undefined, r)
         | Some (x, r') \<Rightarrow> (Inr (ucast x), r'))
      else read_more (ucast (br_cur_item r)) (n - br_cur_item_bits r) r)"

text \<open>\<open>read_uint\<close> stores the value through a pointer; the model returns it.\<close>

definition read_uint ::
  "nat \<Rightarrow> 'n::len word bit_reader \<Rightarrow> (read_exc + 'o::len word) \<times> 'n word bit_reader" where
  "read_uint bit_length r = read_bits bit_length r"

definition reader_new :: "'n::len word list \<Rightarrow> nat \<Rightarrow> 'n word bit_reader option" where
  "reader_new buf bit_size =
     (let r = \<lparr>br_buf = buf, br_items_read = 0, br_bit_size = bit_size,
               br_cur_item = 0, br_cur_item_bits = 0\<rparr>
      in if bit_size > 0 then
           if buf = [] then None
           else Some (r\<lparr>br_cur_item := buf ! 0, br_items_read := 1,
                        br_cur_item_bits := (if bit_size > LENGTH('n) then LENGTH('n) else bit_size)\<rparr>)
         else Some r)"

text \<open>The constructor for a buffer that starts inside an element.\<close>

definition reader_new_shifted :: "'n::len word list \<Rightarrow> nat \<Rightarrow> nat \<Rightarrow> 'n word bit_reader option" where
  "reader_new_shifted buf bit_size0 bit_shift =
     (let bit_size = bit_size0 + bit_shift;
          r = \<lparr>br_buf = buf, br_items_read = 0, br_bit_size = bit_size,
               br_cur_item = 0, br_cur_item_bits = 0\<rparr>
      in if bit_size > 0 then
           if buf = [] \<or> bit_shift \<ge> promoted LENGTH('n) then None
           else Some (r\<lparr>br_cur_item := drop_bit bit_shift (buf ! 0), br_items_read := 1,
                        br_cur_item_bits :=
                          (if bit_size > LENGTH('n) then LENGTH('n) else bit_size) - bit_shift\<rparr>)
         else Some r)"

definition reader_bit_pos :: "'n::len word bit_reader \<Rightarrow> nat" where
  "reader_bit_pos r = br_items_read r * LENGTH('n) + br_cur_item_bits r"

section \<open>Accounting\<close>

text \<open>The bits not read yet, and the invariant that ties the position to them.\<close>

definition remaining :: "'n::len word bit_reader \<Rightarrow> nat" where
  "remaining r = br_cur_item_bits r + (br_bit_size r - br_items_read r * LENGTH('n))"

definition br_wf :: "'n::len word bit_reader \<Rightarrow> bool" where
  "br_wf r \<longleftrightarrow> br_bit_size r \<le> length (br_buf r) * LENGTH('n) \<and> br_cur_item_bits r \<le> LENGTH('n)"

lemma read_item_cases:
  fixes r :: "'n::len word bit_reader"
  assumes "br_wf r"
  shows "read_item r = (Some Bit_stream_finished, r) \<and> br_bit_size r \<le> br_items_read r * LENGTH('n) \<or>
    (\<exists>r'. read_item r = (None, r') \<and> br_wf r' \<and> 0 < br_cur_item_bits r' \<and>
      br_buf r' = br_buf r \<and> br_bit_size r' = br_bit_size r \<and> br_items_read r' = br_items_read r + 1 \<and>
      remaining r' = br_bit_size r - br_items_read r * LENGTH('n))"
proof (cases "br_items_read r * LENGTH('n) \<ge> br_bit_size r")
  case False
  then have "br_items_read r * LENGTH('n) < length (br_buf r) * LENGTH('n)"
    using assms unfolding br_wf_def by linarith
  then have "br_items_read r < length (br_buf r)" by (simp only: mult_less_cancel2)
  with False assms show ?thesis
    by (auto simp: read_item_def br_wf_def remaining_def Let_def)
qed (simp add: read_item_def)

text \<open>
  Elements narrower than an \<open>int\<close> and the result type make every shift defined.
\<close>

lemma read_more_accounting:
  fixes r :: "'n::len word bit_reader" and acc :: "'o::len word"
  assumes "LENGTH('n) \<le> 16" and "br_wf r" and "0 < n"
    and "read_more acc n r = (res, r')"
  shows "br_wf r' \<and>
    (if n \<le> br_bit_size r - br_items_read r * LENGTH('n)
     then (\<exists>v. res = Inr v) \<and> remaining r' = br_bit_size r - br_items_read r * LENGTH('n) - n
     else res = Inl Bit_stream_finished \<and> br_bit_size r' \<le> br_items_read r' * LENGTH('n))"
  using assms(2-)
proof (induction acc n r rule: read_more.induct)
  case (1 acc n r)
  consider "read_item r = (Some Bit_stream_finished, r)" "br_bit_size r \<le> br_items_read r * LENGTH('n)"
    | r1 where "read_item r = (None, r1)" "br_wf r1" "0 < br_cur_item_bits r1"
      "br_bit_size r1 = br_bit_size r" "br_items_read r1 = br_items_read r + 1"
      "remaining r1 = br_bit_size r - br_items_read r * LENGTH('n)"
    using read_item_cases [OF "1.prems"(1)] by blast
  then show ?case
  proof cases
    case 1
    with "1.prems" show ?thesis by (simp add: read_more.simps [of acc n r])
  next
    case (2 r1)
    let ?c = "br_cur_item_bits r1"
    have c: "?c \<le> 16" using 2(2) assms(1) by (simp add: br_wf_def)
    have rem: "br_bit_size r - br_items_read r * LENGTH('n)
        = ?c + (br_bit_size r1 - br_items_read r1 * LENGTH('n))"
      using 2(6) by (simp add: remaining_def)
    show ?thesis
    proof (cases "n > ?c")
      case True
      have sh: "?c < promoted LENGTH('o)" using c by (simp add: promoted_def)
      have call: "read_more (push_bit ?c acc OR ucast (br_cur_item r1)) (n - ?c) r1 = (res, r')"
        using "1.prems"(3) 2(1) True sh by (simp add: read_more.simps [of acc n r])
      have "br_wf r' \<and> (if n - ?c \<le> br_bit_size r1 - br_items_read r1 * LENGTH('n)
          then (\<exists>v. res = Inr v) \<and> remaining r' = br_bit_size r1 - br_items_read r1 * LENGTH('n) - (n - ?c)
          else res = Inl Bit_stream_finished \<and> br_bit_size r' \<le> br_items_read r' * LENGTH('n))"
        by (rule "1.IH" [OF 2(1) [symmetric] refl True sh 2(2) _ call]) (use True in simp)
      with rem True show ?thesis by (auto split: if_splits)
    next
      case False
      with c have "n < promoted LENGTH('o)" "n + 1 < promoted LENGTH('n)"
        by (simp_all add: promoted_def)
      with False "1.prems"(3) 2(1,2) rem show ?thesis
        by (auto simp: read_more.simps [of acc n r] take_low_def br_wf_def remaining_def)
    qed
  qed
qed

lemma read_bits_accounting:
  fixes r :: "'n::len word bit_reader"
  assumes "LENGTH('n) \<le> 16" and "br_wf r"
    and "read_bits n r = (res :: read_exc + 'o::len word, r')"
  shows "br_wf r' \<and>
    (if n \<le> remaining r then (\<exists>v. res = Inr v) \<and> remaining r' = remaining r - n
     else res = Inl Bit_stream_finished \<and> br_bit_size r' \<le> br_items_read r' * LENGTH('n))"
proof (cases "n \<le> br_cur_item_bits r")
  case True
  then have "n + 1 < promoted LENGTH('n)" using assms(1,2) by (simp add: br_wf_def promoted_def)
  with True assms(2,3) show ?thesis
    by (auto simp: read_bits_def take_low_def br_wf_def remaining_def)
next
  case False
  let ?m = "n - br_cur_item_bits r"
  have "read_more (ucast (br_cur_item r)) ?m r = (res, r')"
    using assms(3) False by (simp add: read_bits_def)
  from read_more_accounting [OF assms(1,2) _ this] False show ?thesis
    by (auto simp: remaining_def split: if_splits)
qed

section \<open>Whole elements\<close>

lemma ucast_mask_full:
  fixes x :: "'n::len word"
  shows "x AND (push_bit (LENGTH('n) + 1) 1 - 1) = x"
  by (simp add: mask_eq_exp_minus_1 [symmetric] push_bit_eq_mult)

lemma read_more_element:
  fixes r :: "'n::len word bit_reader"
  assumes "LENGTH('n) \<le> 16"
    and "br_items_read r < length (br_buf r)" and "br_bit_size r = length (br_buf r) * LENGTH('n)"
  shows "read_more (0 :: 'o::len word) LENGTH('n) r =
    (Inr (ucast (br_buf r ! br_items_read r)),
     r\<lparr>br_cur_item := 0, br_items_read := br_items_read r + 1, br_cur_item_bits := 0\<rparr>)"
proof -
  have "Suc (br_items_read r) * LENGTH('n) \<le> length (br_buf r) * LENGTH('n)"
    using assms(2) by (intro mult_le_mono1) simp
  then have fit: "br_items_read r * LENGTH('n) + LENGTH('n) \<le> br_bit_size r"
    using assms(3) by simp
  moreover have "0 < LENGTH('n)" by simp
  ultimately have "\<not> br_bit_size r \<le> br_items_read r * LENGTH('n)" by linarith
  with fit assms(2) have item: "read_item r = (None, r\<lparr>br_cur_item := br_buf r ! br_items_read r,
      br_items_read := br_items_read r + 1, br_cur_item_bits := LENGTH('n)\<rparr>)"
    by (simp add: read_item_def)
  have "LENGTH('n) + 1 < promoted LENGTH('n)" "LENGTH('n) < promoted LENGTH('o)"
    using assms(1) by (simp_all add: promoted_def)
  moreover have "drop_bit LENGTH('n) (br_buf r ! br_items_read r) = 0"
    by (rule bit_word_eqI) (simp add: bit_drop_bit_eq)
  ultimately show ?thesis
    using ucast_mask_full [of "br_buf r ! br_items_read r"]
    by (simp add: read_more.simps [of _ _ r] item take_low_def)
qed

text \<open>Reading several fields, stopping at the first exception.\<close>

fun read_fields ::
  "nat list \<Rightarrow> 'n::len word bit_reader \<Rightarrow> (read_exc + 'o::len word list) \<times> 'n word bit_reader" where
  "read_fields [] r = (Inr [], r)"
| "read_fields (n # ns) r =
     (case read_uint n r of
        (Inl e, r') \<Rightarrow> (Inl e, r')
      | (Inr v, r') \<Rightarrow>
          (case read_fields ns r' of
             (Inl e, r'') \<Rightarrow> (Inl e, r'')
           | (Inr vs, r'') \<Rightarrow> (Inr (v # vs), r'')))"

lemma read_fields_elements:
  fixes r :: "'n::len word bit_reader"
  assumes "LENGTH('n) \<le> 16" and "br_bit_size r = length (br_buf r) * LENGTH('n)"
    and "br_cur_item r = 0" and "br_cur_item_bits r = 0" and "br_items_read r \<le> length (br_buf r)"
  shows "read_fields (replicate (length (br_buf r) - br_items_read r) LENGTH('n)) r =
    (Inr (map ucast (drop (br_items_read r) (br_buf r)) :: 'o::len word list),
     r\<lparr>br_items_read := length (br_buf r)\<rparr>)"
  using assms(2-)
proof (induction "length (br_buf r) - br_items_read r" arbitrary: r)
  case 0
  then show ?case by simp
next
  case (Suc k)
  let ?r = "r\<lparr>br_cur_item := 0, br_items_read := br_items_read r + 1, br_cur_item_bits := 0\<rparr>"
  have lt: "br_items_read r < length (br_buf r)" using Suc.hyps(2) by simp
  have one: "read_uint LENGTH('n) r = (Inr (ucast (br_buf r ! br_items_read r) :: 'o word), ?r)"
    using read_more_element [OF assms(1) lt Suc.prems(1), where ?'o = 'o] Suc.prems
    by (simp add: read_uint_def read_bits_def)
  have "read_fields (replicate (length (br_buf ?r) - br_items_read ?r) LENGTH('n)) ?r =
      (Inr (map ucast (drop (br_items_read ?r) (br_buf ?r)) :: 'o word list),
       ?r\<lparr>br_items_read := length (br_buf ?r)\<rparr>)"
    by (rule Suc.hyps(1)) (use Suc lt in simp_all)
  moreover have "length (br_buf r) - br_items_read r = Suc (length (br_buf ?r) - br_items_read ?r)"
    using lt by simp
  moreover have "?r\<lparr>br_items_read := length (br_buf ?r)\<rparr> = r\<lparr>br_items_read := length (br_buf r)\<rparr>"
    using Suc.prems by (cases r) simp
  ultimately show ?case using one lt by (simp add: Cons_nth_drop_Suc [symmetric])
qed

lemma elem_bits_inj:
  "elem_bits xs = elem_bits ys \<Longrightarrow> length xs = length ys \<Longrightarrow> xs = (ys :: 'n::len word list)"
proof (induction xs ys rule: list_induct2')
  case (4 x xs y ys)
  then have "bits_of LENGTH('n) x = bits_of LENGTH('n) y" and rest: "elem_bits xs = elem_bits ys"
    by (simp_all add: elem_bits_def)
  then have "bit x k = bit y k" if "k < LENGTH('n)" for k
    using that by (metis nth_bits_of)
  then have "x = y" by (rule bit_word_eqI)
  with 4 rest show ?case by simp
qed simp_all

section \<open>Properties\<close>

text \<open>
  The reader never runs past its bits: over elements of at most 16 bits and a buffer that
  holds the bits announced, a read either delivers a value and consumes exactly the bits asked
  for, or, when fewer are left, throws \<open>BitStreamFinished\<close>; no read is out of bounds and no
  shift is undefined.
\<close>

theorem read_uint_accounting:
  fixes r :: "'n::len word bit_reader"
  assumes "LENGTH('n) \<le> 16" and "br_wf r"
    and "read_uint n r = (res :: read_exc + 'o::len word, r')"
  shows "br_wf r' \<and>
    (if n \<le> remaining r then (\<exists>v. res = Inr v) \<and> remaining r' = remaining r - n
     else res = Inl Bit_stream_finished \<and> br_bit_size r' \<le> br_items_read r' * LENGTH('n))"
  using assms(3) unfolding read_uint_def by (rule read_bits_accounting [OF assms(1,2)])

theorem read_uint_accounting_witness:
  "\<exists>r r'. reader_new [0xAB, 0xCD :: u8] 12 = Some r \<and> remaining r = 12 \<and>
    read_uint 13 r = (Inl Bit_stream_finished :: read_exc + u64, r')"
proof -
  obtain r where r: "reader_new [0xAB, 0xCD :: u8] 12 = Some r" and wf: "br_wf r" and rem: "remaining r = 12"
    by (simp add: reader_new_def br_wf_def remaining_def)
  obtain res r' where call: "read_uint 13 r = (res :: read_exc + u64, r')" by fastforce
  from read_uint_accounting [OF _ wf call] rem have "res = Inl Bit_stream_finished" by simp
  with r rem call show ?thesis by blast
qed

text \<open>
  A read inside the current element returns one bit too many: the value is the low
  \<open>n + 1\<close> bits of what is left of the element, while only \<open>n\<close> bits are consumed.
\<close>

lemma read_uint_inside_element:
  fixes r :: "'n::len word bit_reader"
  assumes "LENGTH('n) \<le> 16" and "n \<le> br_cur_item_bits r" and "br_cur_item_bits r \<le> LENGTH('n)"
  shows "read_uint n r = (Inr (ucast (take_bit (n + 1) (br_cur_item r))),
    r\<lparr>br_cur_item := drop_bit n (br_cur_item r), br_cur_item_bits := br_cur_item_bits r - n\<rparr>)"
proof -
  have "n + 1 < promoted LENGTH('n)" using assms by (simp add: promoted_def)
  then show ?thesis
    using assms(2)
    by (simp add: read_uint_def read_bits_def take_low_def take_bit_eq_mask mask_eq_exp_minus_1 push_bit_eq_mult)
qed

text \<open>
  Bytes survive the trip: a byte sequence written as 8-bit fields, picked from the writer
  and read back as 8-bit fields over the number of bits written gives the same bytes, and
  the reader is then exhausted.
\<close>

theorem byte_fields_roundtrip:
  fixes bs :: bytes
  assumes "bs \<noteq> []"
  shows "\<exists>w r r'. write_fields write_uint (map (\<lambda>b. (ucast b :: u64, 8)) bs) (bw_init :: u8 bit_writer) = Some w \<and>
    reader_new (fst (pick_data w)) (get_bit_pos w) = Some r \<and>
    read_fields (replicate (length bs) 8) r = (Inr (map ucast bs :: u64 list), r') \<and>
    fst (read_uint 1 r' :: (read_exc + u64) \<times> _) = Inl Bit_stream_finished"
proof -
  let ?fs = "map (\<lambda>b. (ucast b :: u64, 8 :: nat)) bs"
  have "\<not> bit b k" if "8 \<le> k" for b :: u8 and k
    using that bit_imp_le_length [of b k] by auto
  then have "\<forall>(v, n) \<in> set ?fs. fits n v" by (auto simp: fits_iff bit_simps)
  from serialise_fields_bits [OF this] obtain w pad where
    w: "write_fields write_uint ?fs (bw_init :: u8 bit_writer) = Some w"
    and pos: "get_bit_pos w = sum_list (map snd ?fs)"
    and bits: "elem_bits (fst (pick_data w)) = concat (map (\<lambda>(v :: u64, n). bits_of n v) ?fs) @ replicate pad False"
    and pad: "pad < 8" by blast
  have "sum_list (map snd ?fs) = 8 * length bs" by (induction bs) simp_all
  with pos have pos: "get_bit_pos w = 8 * length bs" by simp
  have fields: "concat (map (\<lambda>(v :: u64, n). bits_of n v) ?fs) = elem_bits bs"
    by (induction bs) (simp_all add: elem_bits_def bits_of_def bit_simps)
  have "length (fst (pick_data w)) * 8 = length bs * 8 + pad"
    using arg_cong [OF bits [unfolded fields], of length] by simp
  then have pad0: "pad = 0" and "length (fst (pick_data w)) = length bs" using pad by presburger+
  then have data: "fst (pick_data w) = bs"
    using bits [unfolded fields] by (intro elem_bits_inj) simp_all
  obtain b bs' where bs: "bs = b # bs'" using assms by (cases bs) auto
  let ?r0 = "\<lparr>br_buf = bs, br_items_read = 1, br_bit_size = 8 * length bs, br_cur_item = b, br_cur_item_bits = 8\<rparr>"
  let ?r1 = "?r0\<lparr>br_cur_item := 0, br_cur_item_bits := 0\<rparr>"
  have new: "reader_new bs (8 * length bs) = Some ?r0"
    using bs by (simp add: reader_new_def)
  have first: "read_uint 8 ?r0 = (Inr (ucast b :: u64), ?r1)"
    by (subst read_uint_inside_element) (simp_all add: take_bit_word_eq_self drop_bit_word_beyond)
  have "read_fields (replicate (length bs') 8) ?r1 = (Inr (map ucast bs' :: u64 list), ?r1\<lparr>br_items_read := length bs\<rparr>)"
    using read_fields_elements [of ?r1, where ?'o = 64] bs by simp
  with first bs have all: "read_fields (replicate (length bs) 8) ?r0
      = (Inr (map ucast bs :: u64 list), ?r1\<lparr>br_items_read := length bs\<rparr>)" by simp
  have "fst (read_uint 1 (?r1\<lparr>br_items_read := length bs\<rparr>) :: (read_exc + u64) \<times> _) = Inl Bit_stream_finished"
    by (simp add: read_uint_def read_bits_def read_more.simps read_item_def)
  with w new all data pos show ?thesis by auto
qed

theorem byte_fields_roundtrip_witness:
  "\<exists>w r r'. write_fields write_uint [(7 :: u64, 8), (200, 8)] (bw_init :: u8 bit_writer) = Some w \<and>
    reader_new (fst (pick_data w)) (get_bit_pos w) = Some r \<and>
    read_fields [8, 8] r = (Inr [7 :: u64, 200], r')"
proof -
  have "map (\<lambda>b. (ucast b :: u64, 8 :: nat)) [7, 200 :: u8] = [(7, 8), (200, 8)]"
    "replicate (length [7, 200 :: u8]) (8 :: nat) = [8, 8]" "map ucast [7, 200 :: u8] = [7, 200 :: u64]"
    by simp_all
  with byte_fields_roundtrip [of "[7, 200]"] show ?thesis by (metis list.discI)
qed

text \<open>
  Narrower fields do not: two one-bit fields 0 and 1, written and read back as the
  generated code does, come out wrong, the first as 2.
\<close>

theorem bit_fields_not_roundtrip:
  "\<exists>w r r'. write_fields write_uint [(0 :: u64, 1), (1, 1)] (bw_init :: u8 bit_writer) = Some w \<and>
    reader_new (fst (pick_data w)) (get_bit_pos w) = Some r \<and>
    read_fields [1] r = (Inr [2 :: u64], r')"
  by (simp add: write_uint_def bw_init_def shl_def pick_data_def get_bit_pos_def reader_new_def
      read_uint_def read_bits_def take_low_def promoted_def)

end
