(* ===== verification/Packet_Sequence.thy ===== *)
theory Packet_Sequence
  imports Prelude
begin

text \<open>
  \<open>packet_sequence.h\<close>: one contiguous buffer cut into packets of \<open>mtu\<close> bytes, addressed by
  sequence numbers of type \<open>Tseq\<close> (\<open>'s word\<close>) that start at \<open>seq_start\<close> and wrap. Sizes are
  64-bit \<open>size_t\<close>. A packet location is the offset of its first byte and its size.
\<close>

datatype ps_exc = Ps_bad_alloc | Ps_out_of_range | Ps_division_by_zero

record 's packet_sequence =
  ps_seq_start :: 's
  ps_data_size :: u64
  ps_mtu :: u64
  ps_data :: "bytes option"

text \<open>\<open>malloc\<close> leaves the contents open: \<open>fresh n\<close> is \<open>None\<close> for NULL or \<open>n\<close> bytes.\<close>

definition ps_new ::
  "(u64 \<Rightarrow> bytes option) \<Rightarrow> 's \<Rightarrow> u64 \<Rightarrow> u64 \<Rightarrow> ps_exc + 's packet_sequence" where
  "ps_new fresh seq_start data_size mtu =
     (case fresh data_size of
        None \<Rightarrow> Inl Ps_bad_alloc
      | Some d \<Rightarrow> Inr \<lparr>ps_seq_start = seq_start, ps_data_size = data_size, ps_mtu = mtu, ps_data = Some d\<rparr>)"

definition packet_start_pos :: "'s::len word packet_sequence \<Rightarrow> 's word \<Rightarrow> u64" where
  "packet_start_pos p packet_seq =
     (let packet_num = packet_seq - ps_seq_start p in ucast packet_num * ps_mtu p)"

definition packets_count :: "'s packet_sequence \<Rightarrow> ps_exc + u64" where
  "packets_count p =
     (if ps_mtu p = 0 then Inl Ps_division_by_zero
      else let cnt = ps_data_size p div ps_mtu p
           in if ps_data_size p mod ps_mtu p \<noteq> 0 then Inr (cnt + 1) else Inr cnt)"

definition packet_loc :: "'s::len word packet_sequence \<Rightarrow> 's word \<Rightarrow> ps_exc + (u64 \<times> u64)" where
  "packet_loc p packet_seq =
     (let start_pos = packet_start_pos p packet_seq
      in if start_pos \<ge> ps_data_size p then Inl Ps_out_of_range
         else Inr (start_pos, min (ps_data_size p - start_pos) (ps_mtu p)))"

definition ps_clear :: "'s::len word packet_sequence \<Rightarrow> 's word packet_sequence" where
  "ps_clear p = \<lparr>ps_seq_start = 0, ps_data_size = 0, ps_mtu = 0, ps_data = None\<rparr>"

text \<open>The bytes a location denotes.\<close>

definition loc_bytes :: "bytes \<Rightarrow> u64 \<times> u64 \<Rightarrow> bytes" where
  "loc_bytes data l = take (unat (snd l)) (drop (unat (fst l)) data)"

section \<open>Counting and locating\<close>

lemma packets_count_chunks:
  assumes "ps_mtu p \<noteq> 0" and "length data = unat (ps_data_size p)"
  shows "\<exists>cnt. packets_count p = Inr cnt \<and> unat cnt = length (chunks (unat (ps_mtu p)) data)"
proof -
  let ?d = "unat (ps_data_size p)" and ?m = "unat (ps_mtu p)"
  have m: "0 < ?m" using assms(1) by (simp add: unat_gt_0)
  have len: "length (chunks ?m data) = (?d + ?m - 1) div ?m"
    using assms(2) m by (simp add: length_chunks)
  show ?thesis
  proof (cases "ps_data_size p mod ps_mtu p = 0")
    case True
    then have "?d mod ?m = 0" by (metis unat_mod_distrib unsigned_0)
    then obtain q where q: "?d = ?m * q" by auto
    have "?m * q + ?m - 1 = (?m - 1) + q * ?m" using m by (simp add: mult.commute)
    moreover have "((?m - 1) + q * ?m) div ?m = q + (?m - 1) div ?m"
      using m by (intro div_mult_self1) simp
    moreover have "(?m - 1) div ?m = 0" using m by simp
    ultimately have "(?m * q + ?m - 1) div ?m = q" by (metis add_0_right)
    with q m len True assms(1) show ?thesis
      by (auto simp: packets_count_def unat_div_distrib)
  next
    case False
    then have r: "0 < ?d mod ?m" by (metis unat_mod_distrib unat_gt_0)
    have "?d + ?m - 1 = ?m * Suc (?d div ?m) + (?d mod ?m - 1)"
      using r mult_div_mod_eq [of ?m ?d] by (simp only: mult_Suc_right)
    moreover have "(?m * Suc (?d div ?m) + (?d mod ?m - 1)) div ?m = Suc (?d div ?m) + (?d mod ?m - 1) div ?m"
      using m by (intro div_mult_self4) simp
    moreover have "(?d mod ?m - 1) div ?m = 0" using m by (simp add: less_imp_diff_less)
    ultimately have "(?d + ?m - 1) div ?m = Suc (?d div ?m)" by presburger
    moreover have "unat (ps_data_size p div ps_mtu p + 1) = Suc (?d div ?m)"
    proof -
      have "?d div ?m \<le> ?d" by simp
      moreover have "?d div ?m \<noteq> 2 ^ 64 - 1"
      proof
        assume "?d div ?m = 2 ^ 64 - 1"
        moreover have "?d < 2 ^ 64" using unsigned_less [of "ps_data_size p", where ?'a = nat] by simp
        moreover have "?m * (?d div ?m) + ?d mod ?m = ?d" by simp
        moreover have "1 * (?d div ?m) \<le> ?m * (?d div ?m)" using m by (intro mult_le_mono1) simp
        ultimately show False using r by linarith
      qed
      moreover have "?d < 2 ^ 64" using unsigned_less [of "ps_data_size p", where ?'a = nat] by simp
      ultimately have "Suc (?d div ?m) < 2 ^ 64" by linarith
      then show ?thesis by (simp add: unat_word_ariths unat_div_distrib)
    qed
    ultimately show ?thesis using False len assms(1) by (auto simp: packets_count_def)
  qed
qed

lemma start_pos_offset:
  fixes p :: "'s::len word packet_sequence"
  assumes "k < 2 ^ LENGTH('s)" and "2 ^ LENGTH('s) * unat (ps_mtu p) \<le> 2 ^ 64"
  shows "unat (packet_start_pos p (ps_seq_start p + of_nat k)) = k * unat (ps_mtu p)"
proof (cases "ps_mtu p = 0")
  case True
  then show ?thesis by (simp add: packet_start_pos_def)
next
  case False
  then have m: "0 < unat (ps_mtu p)" by (simp add: unat_gt_0)
  have "k * unat (ps_mtu p) < 2 ^ LENGTH('s) * unat (ps_mtu p)"
    using assms(1) m by (rule mult_less_mono1)
  with assms(2) have lt: "k * unat (ps_mtu p) < 2 ^ 64" by linarith
  have "k * 1 \<le> k * unat (ps_mtu p)" using m by (intro mult_le_mono2) simp
  with lt have k64: "k < 2 ^ 64" by linarith
  have "unat (ucast (of_nat k :: 's word) :: u64) = k"
    using assms(1) k64 by (simp add: unsigned_ucast_eq unat_of_nat take_bit_eq_mod)
  with lt show ?thesis by (simp add: packet_start_pos_def unat_word_ariths)
qed

section \<open>Properties\<close>

text \<open>
  The packets partition the buffer: \<open>packets_count\<close> is the number of pieces, the
  locations of consecutive sequence numbers from \<open>seq_start\<close> on, wrapping included, are the
  consecutive pieces of at most \<open>mtu\<close> bytes, and every other number is out of range.
\<close>

theorem packet_locs_partition:
  fixes p :: "'s::len word packet_sequence"
  assumes "ps_mtu p \<noteq> 0" and "2 ^ LENGTH('s) * unat (ps_mtu p) \<le> 2 ^ 64"
    and "ps_data p = Some data" and "length data = unat (ps_data_size p)"
  shows "\<exists>cnt. packets_count p = Inr cnt \<and>
    concat (chunks (unat (ps_mtu p)) data) = data \<and>
    unat cnt = length (chunks (unat (ps_mtu p)) data) \<and>
    (\<forall>k < 2 ^ LENGTH('s).
      if k < unat cnt
      then \<exists>l. packet_loc p (ps_seq_start p + of_nat k) = Inr l \<and>
             loc_bytes data l = chunks (unat (ps_mtu p)) data ! k
      else packet_loc p (ps_seq_start p + of_nat k) = Inl Ps_out_of_range)"
proof -
  let ?m = "unat (ps_mtu p)" and ?d = "unat (ps_data_size p)"
  have m: "0 < ?m" using assms(1) by (simp add: unat_gt_0)
  obtain cnt where cnt: "packets_count p = Inr cnt" "unat cnt = length (chunks ?m data)"
    using packets_count_chunks [OF assms(1,4)] by blast
  have "if k < unat cnt
      then \<exists>l. packet_loc p (ps_seq_start p + of_nat k) = Inr l \<and> loc_bytes data l = chunks ?m data ! k
      else packet_loc p (ps_seq_start p + of_nat k) = Inl Ps_out_of_range"
    if k: "k < 2 ^ LENGTH('s)" for k
  proof -
    let ?s = "packet_start_pos p (ps_seq_start p + of_nat k)"
    have s: "unat ?s = k * ?m" using start_pos_offset [OF k assms(2)] .
    have iff: "k < unat cnt \<longleftrightarrow> \<not> ps_data_size p \<le> ?s"
      using length_chunks_iff [OF m, of k data] cnt(2) assms(4) s by (simp add: word_le_nat_alt not_le)
    show ?thesis
    proof (cases "k < unat cnt")
      case True
      then have lt: "?s < ps_data_size p" using iff by simp
      let ?n = "min (ps_data_size p - ?s) (ps_mtu p)"
      have "unat (ps_data_size p - ?s) = ?d - k * ?m"
        using lt s by (subst unat_sub) simp_all
      then have "unat ?n = min (?d - k * ?m) ?m" by (simp add: min_def word_le_nat_alt)
      then have "loc_bytes data (?s, ?n) = chunks ?m data ! k"
        using s assms(4) True cnt(2) m by (simp add: loc_bytes_def nth_chunks min_def)
      then show ?thesis using True iff by (simp add: packet_loc_def Let_def)
    next
      case False
      then show ?thesis using iff by (simp add: packet_loc_def)
    qed
  qed
  with cnt show ?thesis using concat_chunks [OF m, of data] by (intro exI [of _ cnt]) blast
qed

theorem packet_locs_partition_witness:
  "\<exists>cnt. packets_count \<lparr>ps_seq_start = 255 :: u8, ps_data_size = 5, ps_mtu = 2, ps_data = Some [1, 2, 3, 4, 5]\<rparr> = Inr cnt \<and>
    unat cnt = 3 \<and>
    (\<exists>l. packet_loc \<lparr>ps_seq_start = 255 :: u8, ps_data_size = 5, ps_mtu = 2, ps_data = Some [1, 2, 3, 4, 5]\<rparr> 1 = Inr l \<and>
      loc_bytes [1, 2, 3, 4, 5] l = [5])"
proof -
  let ?p = "\<lparr>ps_seq_start = 255 :: u8, ps_data_size = 5, ps_mtu = 2, ps_data = Some [1, 2, 3, 4, 5]\<rparr>"
  have ch: "chunks (unat (ps_mtu ?p)) [1, 2, 3, 4, 5 :: u8] = [[1, 2], [3, 4], [5]]"
    by (simp add: chunks.simps)
  have h: "ps_mtu ?p \<noteq> 0" "2 ^ LENGTH(8) * unat (ps_mtu ?p) \<le> 2 ^ 64" "ps_data ?p = Some [1, 2, 3, 4, 5]"
    "length [1, 2, 3, 4, 5 :: u8] = unat (ps_data_size ?p)" by simp_all
  obtain cnt where cnt: "packets_count ?p = Inr cnt" "unat cnt = length [[1, 2], [3, 4], [5 :: u8]]"
    and all: "\<forall>k < 2 ^ LENGTH(8). if k < unat cnt
      then \<exists>l. packet_loc ?p (ps_seq_start ?p + of_nat k) = Inr l \<and>
             loc_bytes [1, 2, 3, 4, 5] l = [[1, 2], [3, 4], [5]] ! k
      else packet_loc ?p (ps_seq_start ?p + of_nat k) = Inl Ps_out_of_range"
    using packet_locs_partition [OF h] unfolding ch by blast
  have one: "ps_seq_start ?p + of_nat 2 = 1" by simp
  have "\<exists>l. packet_loc ?p 1 = Inr l \<and> loc_bytes [1, 2, 3, 4, 5] l = [5]"
    using all [THEN spec, of 2] cnt(2) unfolding one by simp
  moreover have "unat cnt = 3" using cnt(2) by simp
  ultimately show ?thesis using cnt(1) by blast
qed

end
