(* ===== verification/Packet_Buffer.thy ===== *)
theory Packet_Buffer
  imports Prelude
begin

text \<open>
  \<open>packet_buffer.h\<close>: a ring of packet slots addressed by 32-bit positions. \<open>packets\<close> is
  \<open>None\<close> for the null pointer; \<open>new Tpacket[n]\<close> fills the slots with the value \<open>fresh\<close> of the
  default constructor. An access outside an array, undefined in C++, is \<open>None\<close>. The abstract
  content of the ring is the list of packets from \<open>start\<close> to \<open>end\<close>. Two members are modelled
  as they are meant to compile: the deduced return types of \<open>next_pos\<close> disagree (\<open>uint32_t\<close> and
  \<open>int\<close>) and \<open>operator=\<close> lacks its \<open>return *this\<close>.
\<close>

section \<open>State and positions\<close>

record ('p, 's) packet_buffer =
  pb_packets :: "'p list option"
  pb_size :: u32
  pb_start :: u32
  pb_end :: u32
  pb_seq_start :: 's

definition pb_new :: "'p \<Rightarrow> u32 \<Rightarrow> ('p, 's::len word) packet_buffer" where
  "pb_new fresh n = \<lparr>pb_packets = Some (replicate (unat n) fresh), pb_size = n,
     pb_start = 0, pb_end = 0, pb_seq_start = 0\<rparr>"

definition pb_length :: "('p, 's) packet_buffer \<Rightarrow> u32" where
  "pb_length b = (if pb_start b \<le> pb_end b then pb_end b - pb_start b
                  else pb_size b + pb_end b - pb_start b)"

definition next_pos :: "('p, 's) packet_buffer \<Rightarrow> u32 \<Rightarrow> u32" where
  "next_pos b pos = (if pos + 1 < pb_size b then pos + 1 else 0)"

definition prev_pos :: "('p, 's) packet_buffer \<Rightarrow> u32 \<Rightarrow> u32" where
  "prev_pos b pos = (if pos \<noteq> 0 then pos - 1 else pb_size b - 1)"

text \<open>\<open>IndexIter\<close>: its comparison looks at the two end indices, never at the position.\<close>

record index_iter =
  ii_pos_idx :: u32
  ii_end_idx :: u32

definition ii_neq :: "index_iter \<Rightarrow> u32 \<Rightarrow> bool" where
  "ii_neq it end_idx_cmp = (ii_end_idx it \<noteq> end_idx_cmp)"

definition pb_iter :: "('p, 's) packet_buffer \<Rightarrow> index_iter" where
  "pb_iter b = \<lparr>ii_pos_idx = pb_start b, ii_end_idx = pb_end b\<rparr>"

definition seq_range :: "('p, 's::len word) packet_buffer \<Rightarrow> u32 \<Rightarrow> u32 \<Rightarrow> index_iter" where
  "seq_range b seq1 seq2 =
     (let pos1 = seq1 + (pb_start b - ucast (pb_seq_start b));
          pos2 = seq2 + (pb_start b - ucast (pb_seq_start b))
      in \<lparr>ii_pos_idx = pos1, ii_end_idx = next_pos b pos2\<rparr>)"

definition pb_clear :: "('p, 's::len word) packet_buffer \<Rightarrow> ('p, 's word) packet_buffer" where
  "pb_clear b = \<lparr>pb_packets = None, pb_size = 0, pb_start = 0, pb_end = 0, pb_seq_start = 0\<rparr>"

section \<open>Resizing\<close>

text \<open>\<open>for (uint32_t i = 0; i < n; i++) packets[dst + i] = std::move(old_packets[src + i])\<close>\<close>

function move_slots :: "u32 \<Rightarrow> u32 \<Rightarrow> u32 \<Rightarrow> u32 \<Rightarrow> 'p list \<Rightarrow> 'p list \<Rightarrow> 'p list option" where
  "move_slots i n dst src old ps =
     (if i < n then
        (if unat (src + i) < length old \<and> unat (dst + i) < length ps
         then move_slots (i + 1) n dst src old (ps[unat (dst + i) := old ! unat (src + i)])
         else None)
      else Some ps)"
  by pat_completeness auto
termination
proof (relation "measure (\<lambda>(i, n, dst, src, old, ps). unat n - unat i)")
  fix i n dst src :: u32 and old ps :: "'p list"
  assume "i < n"
  then have "unat i < unat n" "unat (i + 1) = Suc (unat i)"
    by (simp_all add: word_less_nat_alt unat_Suc_less)
  then show "((i + 1, n, dst, src, old, ps[unat (dst + i) := old ! unat (src + i)]),
      (i, n, dst, src, old, ps)) \<in> measure (\<lambda>(i, n, dst, src, old, ps). unat n - unat i)"
    by simp
qed simp

declare move_slots.simps [simp del]

text \<open>The constructor that takes over another buffer; it returns the new and the old buffer.\<close>

definition pb_take_over ::
  "'p \<Rightarrow> ('p, 's::len word) packet_buffer \<Rightarrow> u32
    \<Rightarrow> (('p, 's word) packet_buffer \<times> ('p, 's word) packet_buffer) option" where
  "pb_take_over fresh old new_size =
     (let ps = replicate (unat new_size) fresh;
          end = pb_length old;
          old_packets = (case pb_packets old of None \<Rightarrow> [] | Some xs \<Rightarrow> xs);
          moved =
            (if pb_start old \<le> pb_end old
             then move_slots 0 end 0 (pb_start old) old_packets ps
             else (let start_size = pb_size old - pb_start old
                   in case move_slots 0 start_size 0 (pb_start old) old_packets ps of
                        None \<Rightarrow> None
                      | Some ps' \<Rightarrow> move_slots 0 (pb_start old) start_size 0 old_packets ps'))
      in case moved of
           None \<Rightarrow> None
         | Some ps' \<Rightarrow>
             Some (\<lparr>pb_packets = Some ps', pb_size = new_size, pb_start = 0, pb_end = end,
                    pb_seq_start = pb_seq_start old\<rparr>, pb_clear old))"

text \<open>\<open>operator=\<close> swaps the two buffers and clears the source.\<close>

definition pb_assign ::
  "('p, 's::len word) packet_buffer \<Rightarrow> ('p, 's word) packet_buffer
    \<Rightarrow> ('p, 's word) packet_buffer \<times> ('p, 's word) packet_buffer" where
  "pb_assign this m = (m, pb_clear this)"

definition pb_resize ::
  "'p \<Rightarrow> u32 \<Rightarrow> ('p, 's::len word) packet_buffer \<Rightarrow> ('p, 's word) packet_buffer option" where
  "pb_resize fresh new_size b =
     (case pb_take_over fresh b new_size of
        None \<Rightarrow> None
      | Some (tmp, this) \<Rightarrow> Some (fst (pb_assign this tmp)))"

section \<open>The abstract content\<close>

definition pb_wf :: "('p, 's) packet_buffer \<Rightarrow> bool" where
  "pb_wf b \<longleftrightarrow> pb_start b \<le> pb_size b \<and> pb_end b \<le> pb_size b \<and>
     (case pb_packets b of None \<Rightarrow> pb_size b = 0 | Some ps \<Rightarrow> length ps = unat (pb_size b))"

definition pb_content :: "('p, 's) packet_buffer \<Rightarrow> 'p list" where
  "pb_content b =
     (let ps = (case pb_packets b of None \<Rightarrow> [] | Some xs \<Rightarrow> xs)
      in if pb_start b \<le> pb_end b
         then take (unat (pb_end b) - unat (pb_start b)) (drop (unat (pb_start b)) ps)
         else drop (unat (pb_start b)) ps @ take (unat (pb_end b)) ps)"

lemma pb_wf_new [simp]: "pb_wf (pb_new fresh n)"
  by (simp add: pb_wf_def pb_new_def)

lemma pb_content_new [simp]: "pb_content (pb_new fresh n) = []"
  by (simp add: pb_content_def pb_new_def)

lemma pb_wf_clear [simp]: "pb_wf (pb_clear b)"
  by (simp add: pb_wf_def pb_clear_def)

lemma pb_content_clear [simp]: "pb_content (pb_clear b) = []"
  by (simp add: pb_content_def pb_clear_def)


section \<open>Moving slots\<close>

lemma unat_add_less: "unat (a :: u32) + unat b < 2 ^ 32 \<Longrightarrow> unat (a + b) = unat a + unat b"
  by (simp add: unat_word_ariths)

lemma move_slots_eq:
  assumes "i \<le> n" and "unat src + unat n < 2 ^ 32" and "unat dst + unat n < 2 ^ 32"
  shows "move_slots i n dst src old ps =
    (if i = n \<or> unat src + unat n \<le> length old \<and> unat dst + unat n \<le> length ps
     then Some (take (unat dst + unat i) ps @ take (unat n - unat i) (drop (unat src + unat i) old)
                @ drop (unat dst + unat n) ps)
     else None)"
  using assms
proof (induction i n dst src old ps rule: move_slots.induct)
  case (1 i n dst src old ps)
  show ?case
  proof (cases "i = n")
    case True
    then show ?thesis by (simp add: move_slots.simps)
  next
    case False
    with "1.prems"(1) have lt: "i < n" by simp
    then have ltn: "unat i < unat n" and S: "unat (i + 1) = Suc (unat i)"
      by (simp_all add: word_less_nat_alt unat_Suc_less)
    have le': "i + 1 \<le> n" using ltn S by (simp add: word_le_nat_alt)
    have a: "unat (src + i) = unat src + unat i" "unat (dst + i) = unat dst + unat i"
      using "1.prems" ltn by (simp_all add: unat_add_less)
    show ?thesis
    proof (cases "unat (src + i) < length old \<and> unat (dst + i) < length ps")
      case False
      then show ?thesis using lt a ltn by (auto simp: move_slots.simps [of i n])
    next
      case True
      let ?ps = "ps[unat (dst + i) := old ! unat (src + i)]"
      have IH: "move_slots (i + 1) n dst src old ?ps =
          (if i + 1 = n \<or> unat src + unat n \<le> length old \<and> unat dst + unat n \<le> length ?ps
           then Some (take (unat dst + unat (i + 1)) ?ps
                  @ take (unat n - unat (i + 1)) (drop (unat src + unat (i + 1)) old)
                  @ drop (unat dst + unat n) ?ps)
           else None)"
        using "1.IH" [OF lt True le' "1.prems"(2,3)] .
      have fit: "(i + 1 = n \<or> unat src + unat n \<le> length old \<and> unat dst + unat n \<le> length ?ps)
          \<longleftrightarrow> unat src + unat n \<le> length old \<and> unat dst + unat n \<le> length ps"
        using True a S by auto
      have 1: "take (unat dst + unat (i + 1)) ?ps = take (unat dst + unat i) ps @ [old ! (unat src + unat i)]"
        using True a S by (simp add: take_Suc_conv_app_nth)
      have 2: "take (unat n - unat i) (drop (unat src + unat i) old)
          = old ! (unat src + unat i) # take (unat n - unat (i + 1)) (drop (unat src + unat (i + 1)) old)"
        using True a S ltn by (simp add: Cons_nth_drop_Suc [symmetric] take_Cons' )
      have 3: "drop (unat dst + unat n) ?ps = drop (unat dst + unat n) ps" using a ltn by simp
      show ?thesis
        using IH fit lt True 1 2 3 \<open>i \<noteq> n\<close> by (simp add: move_slots.simps [of i n])
    qed
  qed
qed


lemma unat_pb_length:
  assumes "pb_wf b"
  shows "unat (pb_length b) = length (pb_content b)"
proof -
  have le: "unat (pb_start b) \<le> unat (pb_size b)" "unat (pb_end b) \<le> unat (pb_size b)"
    using assms by (simp_all add: pb_wf_def word_le_nat_alt)
  define ps where "ps = (case pb_packets b of None \<Rightarrow> [] | Some xs \<Rightarrow> xs)"
  have len: "length ps = unat (pb_size b)"
    using assms by (simp add: ps_def pb_wf_def split: option.splits)
  show ?thesis
  proof (cases "pb_start b \<le> pb_end b")
    case True
    then have "unat (pb_end b - pb_start b) = unat (pb_end b) - unat (pb_start b)" by (rule unat_sub)
    with True len le show ?thesis by (simp add: pb_length_def pb_content_def ps_def [symmetric])
  next
    case False
    then have "pb_end b < pb_start b" by simp
    then have lt: "unat (pb_end b) < unat (pb_start b)" by (simp add: word_less_nat_alt)
    have eq: "pb_size b + pb_end b - pb_start b = (pb_size b - pb_start b) + pb_end b" by simp
    have "unat (pb_size b - pb_start b) = unat (pb_size b) - unat (pb_start b)"
      using le by (intro unat_sub) (simp add: word_le_nat_alt)
    moreover have "unat (pb_size b) < 2 ^ 32" using unsigned_less [of "pb_size b", where ?'a = nat] by simp
    ultimately have "unat (pb_size b + pb_end b - pb_start b)
        = unat (pb_size b) - unat (pb_start b) + unat (pb_end b)"
      unfolding eq using lt le by (subst unat_add_less) simp_all
    with False len le show ?thesis by (simp add: pb_length_def pb_content_def ps_def [symmetric])
  qed
qed

text \<open>What the loops copy, when the content is in one piece and when it is in two.\<close>

lemma straight_slots:
  assumes "i + unat n \<le> length ps" and "i = unat start" and "length ps < 2 ^ 32"
  shows "move_slots 0 n 0 start ps (replicate (unat new_size) fresh) =
    (if unat n \<le> unat new_size
     then Some (take (unat n) (drop i ps) @ drop (unat n) (replicate (unat new_size) fresh)) else None)"
  using assms by (subst move_slots_eq) (auto simp: unat_eq_0 [symmetric])

lemma wrapped_slots:
  fixes start :: u32
  assumes "unat start \<le> unat sz" and "length ps = unat sz" and "0 < unat start"
    and new: "new = replicate (unat new_size) fresh" and ss: "ss = sz - start"
  shows "(case move_slots 0 ss 0 start ps new of None \<Rightarrow> None | Some ps' \<Rightarrow> move_slots 0 start ss 0 ps ps') =
    (if unat sz \<le> unat new_size
     then Some (drop (unat start) ps @ take (unat start) ps @ drop (unat sz) new) else None)"
proof -
  have lt: "unat sz < 2 ^ 32" using unsigned_less [of sz, where ?'a = nat] by simp
  have S: "unat ss = unat sz - unat start"
    unfolding ss using assms(1) by (intro unat_sub) (simp add: word_le_nat_alt)
  have 1: "move_slots 0 ss 0 start ps new =
      (if unat ss \<le> unat new_size then Some (drop (unat start) ps @ drop (unat ss) new) else None)"
    using S assms lt by (subst move_slots_eq) (auto simp: unat_eq_0 [symmetric])
  have "move_slots 0 start ss 0 ps (drop (unat start) ps @ drop (unat ss) new) =
      (if unat sz \<le> unat new_size
       then Some (drop (unat start) ps @ take (unat start) ps @ drop (unat sz) new) else None)"
    if "unat ss \<le> unat new_size"
    using that S assms lt by (subst move_slots_eq) (auto simp: unat_eq_0 [symmetric])
  with 1 show ?thesis using S by auto
qed

lemma pb_resize_cases:
  assumes "pb_wf b"
  shows "case pb_resize fresh new_size b of
      None \<Rightarrow> (if pb_start b \<le> pb_end b then pb_length b > new_size else pb_size b > new_size)
    | Some b' \<Rightarrow> (if pb_start b \<le> pb_end b then pb_length b \<le> new_size else pb_size b \<le> new_size) \<and>
        pb_wf b' \<and> pb_content b' = pb_content b \<and> pb_size b' = new_size \<and>
        pb_seq_start b' = pb_seq_start b \<and> pb_start b' = 0"
proof -
  have le: "unat (pb_start b) \<le> unat (pb_size b)" "unat (pb_end b) \<le> unat (pb_size b)"
    using assms by (simp_all add: pb_wf_def word_le_nat_alt)
  define ps where "ps = (case pb_packets b of None \<Rightarrow> [] | Some xs \<Rightarrow> xs)"
  have len: "length ps = unat (pb_size b)"
    using assms by (simp add: ps_def pb_wf_def split: option.splits)
  have sz: "unat (pb_size b) < 2 ^ 32" using unsigned_less [of "pb_size b", where ?'a = nat] by simp
  have L: "unat (pb_length b) = length (pb_content b)" by (rule unat_pb_length [OF assms])
  note defs = pb_resize_def pb_take_over_def pb_assign_def ps_def [symmetric] Let_def
    pb_wf_def pb_content_def [where b = "\<lparr>pb_packets = _, pb_size = _, pb_start = _, pb_end = _, pb_seq_start = _\<rparr>"]
    word_le_nat_alt word_less_nat_alt
  show ?thesis
  proof (cases "pb_start b \<le> pb_end b")
    case True
    have c: "pb_content b = take (unat (pb_end b) - unat (pb_start b)) (drop (unat (pb_start b)) ps)"
      using True by (simp add: pb_content_def ps_def [symmetric])
    then have n: "unat (pb_length b) = unat (pb_end b) - unat (pb_start b)" using L len le by simp
    have "unat (pb_start b) \<le> unat (pb_end b)" using True by (simp add: word_le_nat_alt)
    then show ?thesis
      using True L c n le len sz straight_slots [OF _ refl, of "pb_start b" "pb_length b" ps new_size fresh]
      by (auto simp: defs)
  next
    case False
    then have "pb_end b < pb_start b" by simp
    then have lt: "unat (pb_end b) < unat (pb_start b)" by (simp add: word_less_nat_alt)
    have c: "pb_content b = drop (unat (pb_start b)) ps @ take (unat (pb_end b)) ps"
      using False by (simp add: pb_content_def ps_def [symmetric])
    show ?thesis
      using False L c len le lt wrapped_slots [OF le(1) len _ refl refl, of new_size fresh] by (auto simp: defs)
  qed
qed


section \<open>Walking the ring\<close>

lemma unat_next_pos:
  assumes "pos < pb_size b"
  shows "unat (next_pos b pos) = (if Suc (unat pos) = unat (pb_size b) then 0 else Suc (unat pos))"
  using assms by (auto simp: next_pos_def word_less_nat_alt unat_Suc_less)

lemma next_pos_less: "pos < pb_size b \<Longrightarrow> next_pos b pos < pb_size b"
  by (auto simp: next_pos_def word_less_nat_alt)

lemma prev_next_pos:
  assumes "pos < pb_size b"
  shows "prev_pos b (next_pos b pos) = pos"
proof (cases "pos + 1 < pb_size b")
  case True
  moreover have "pos + 1 \<noteq> 0" using unat_Suc_less [OF assms] by (metis nat.simps(3) unsigned_0)
  ultimately show ?thesis by (simp add: next_pos_def prev_pos_def)
next
  case False
  have "unat (pos + 1) = unat (pb_size b)"
    using False assms unat_Suc_less [OF assms] by (simp add: word_less_nat_alt)
  then have "pb_size b = pos + 1" by (simp add: word_unat_eq_iff)
  then show ?thesis using False by (simp add: next_pos_def prev_pos_def)
qed

lemma walk_position:
  assumes "pb_start b < pb_size b" and "k \<le> unat (pb_size b)"
  shows "unat ((next_pos b ^^ k) (pb_start b)) =
    (if unat (pb_start b) + k < unat (pb_size b) then unat (pb_start b) + k
     else unat (pb_start b) + k - unat (pb_size b)) \<and> (next_pos b ^^ k) (pb_start b) < pb_size b"
  using assms(2)
proof (induction k)
  case 0
  then show ?case using assms(1) by (simp add: word_less_nat_alt)
next
  case (Suc k)
  then have "(next_pos b ^^ k) (pb_start b) < pb_size b" by simp
  with Suc show ?case using assms(1)
    by (auto simp: unat_next_pos next_pos_less word_less_nat_alt)
qed

section \<open>Properties\<close>

text \<open>
  (C20) Resizing keeps the queue: the packets between \<open>start\<close> and \<open>end\<close> and the first sequence
  number survive, moved to the front. It is defined exactly when the slots copied fit: a
  contiguous ring can shrink down to its length, but a wrapped one copies every slot in front
  of \<open>start\<close>, used or not, and overruns the new array whenever it is smaller than the old.
\<close>

theorem pb_resize_content:
  fixes b :: "('p, 's::len word) packet_buffer"
  assumes "pb_wf b"
  shows "(\<exists>b'. pb_resize fresh new_size b = Some b') =
      (if pb_start b \<le> pb_end b then pb_length b \<le> new_size else pb_size b \<le> new_size) \<and>
    (\<forall>b'. pb_resize fresh new_size b = Some b' \<longrightarrow>
      pb_wf b' \<and> pb_content b' = pb_content b \<and> pb_size b' = new_size \<and>
      pb_length b' = pb_length b \<and> pb_seq_start b' = pb_seq_start b)"
proof (cases "pb_resize fresh new_size b")
  case None
  then show ?thesis using pb_resize_cases [OF assms, where fresh = fresh and new_size = new_size] by auto
next
  case (Some b')
  then have b': "if pb_start b \<le> pb_end b then pb_length b \<le> new_size else pb_size b \<le> new_size"
    "pb_wf b'" "pb_content b' = pb_content b" "pb_size b' = new_size" "pb_seq_start b' = pb_seq_start b"
    using pb_resize_cases [OF assms, where fresh = fresh and new_size = new_size] by simp_all
  then have "pb_length b' = pb_length b"
    using unat_pb_length [OF assms] unat_pb_length [OF b'(2)] by (simp add: word_unat_eq_iff)
  with b' Some show ?thesis by auto
qed

theorem pb_resize_content_witness:
  "\<exists>b'. pb_resize 0 4 \<lparr>pb_packets = Some [7, 8, 9 :: nat], pb_size = 3, pb_start = 2, pb_end = 1,
      pb_seq_start = 5 :: u16\<rparr> = Some b' \<and> pb_content b' = [9, 7] \<and>
    pb_resize 0 2 \<lparr>pb_packets = Some [7, 8, 9 :: nat], pb_size = 3, pb_start = 2, pb_end = 1,
      pb_seq_start = 5 :: u16\<rparr> = None"
proof -
  let ?b = "\<lparr>pb_packets = Some [7, 8, 9 :: nat], pb_size = 3, pb_start = 2, pb_end = 1, pb_seq_start = 5 :: u16\<rparr>"
  have wf: "pb_wf ?b" and c: "pb_content ?b = [9, 7]" by (simp_all add: pb_wf_def pb_content_def Let_def word_le_nat_alt)
  from pb_resize_content [OF wf, where fresh = 0 and new_size = 4] c obtain b' where "pb_resize 0 4 ?b = Some b'" "pb_content b' = [9, 7]"
    by (auto simp: word_le_nat_alt)
  moreover have "pb_resize 0 2 ?b = None"
    using pb_resize_content [OF wf, where fresh = 0 and new_size = 2] by (cases "pb_resize 0 2 ?b") (auto simp: word_le_nat_alt)
  ultimately show ?thesis by blast
qed

text \<open>
  \<open>next_pos\<close> walks the content: the \<open>k\<close>-th packet is in the slot reached from \<open>start\<close> by
  \<open>k\<close> steps, across the end of the array; the walk ends at \<open>end\<close>, and \<open>prev_pos\<close> undoes
  a step.
\<close>

theorem next_pos_walks_content:
  assumes "pb_wf b" and "pb_packets b = Some ps" and "pb_start b < pb_size b" and "pb_end b < pb_size b"
  shows "(\<forall>k < length (pb_content b). pb_content b ! k = ps ! unat ((next_pos b ^^ k) (pb_start b))) \<and>
    (next_pos b ^^ length (pb_content b)) (pb_start b) = pb_end b \<and>
    (\<forall>pos < pb_size b. prev_pos b (next_pos b pos) = pos)"
proof -
  have len: "length ps = unat (pb_size b)" using assms(1,2) by (simp add: pb_wf_def)
  have lt: "unat (pb_start b) < unat (pb_size b)" "unat (pb_end b) < unat (pb_size b)"
    using assms(3,4) by (simp_all add: word_less_nat_alt)
  have "length (pb_content b) \<le> unat (pb_size b)"
    and e: "(if unat (pb_start b) + length (pb_content b) < unat (pb_size b) then unat (pb_start b) + length (pb_content b)
     else unat (pb_start b) + length (pb_content b) - unat (pb_size b)) = unat (pb_end b)"
    using lt len assms(2) by (auto simp: pb_content_def Let_def word_le_nat_alt min_def)
  moreover have "pb_content b ! k = ps ! unat ((next_pos b ^^ k) (pb_start b))" if k: "k < length (pb_content b)" for k
  proof -
    have "k \<le> unat (pb_size b)" using calculation(1) k by simp
    note w = walk_position [OF assms(3) this]
    show ?thesis using w k lt len assms(2)
      by (auto simp: pb_content_def Let_def nth_append word_le_nat_alt add.commute split: if_splits)
  qed
  ultimately show ?thesis
    using walk_position [OF assms(3), of "length (pb_content b)"]
    by (auto simp: prev_next_pos intro: unsigned_word_eqI)
qed

theorem next_pos_walks_content_witness:
  "let b = \<lparr>pb_packets = Some [7, 8, 9 :: nat], pb_size = 3, pb_start = 2, pb_end = 1, pb_seq_start = 5 :: u16\<rparr>
   in (next_pos b ^^ 2) 2 = 1"
proof -
  let ?b = "\<lparr>pb_packets = Some [7, 8, 9 :: nat], pb_size = 3, pb_start = 2, pb_end = 1, pb_seq_start = 5 :: u16\<rparr>"
  have h: "pb_wf ?b" "pb_packets ?b = Some [7, 8, 9]" "pb_start ?b < pb_size ?b" "pb_end ?b < pb_size ?b"
    and l: "length (pb_content ?b) = 2" by (simp_all add: pb_wf_def pb_content_def Let_def word_le_nat_alt)
  show ?thesis using next_pos_walks_content [OF h] unfolding l by (simp add: Let_def)
qed

end
