(* ===== verification/Buffers.thy ===== *)
theory Buffers
  imports Prelude
begin

text \<open>
  \<open>buffer.h\<close> and \<open>chained_buffer.h\<close>. \<open>PtrBuf\<close> and \<open>StaticBuf\<close> are both a region of memory
  and the number \<open>l\<close> of elements left before its end (\<open>int\<close>, so it can go negative); they
  differ in \<open>shift\<close>. \<open>buf_cp\<close> is a template over the two: the model takes the \<open>shift\<close> members
  of the two arguments. A \<open>memcpy\<close> outside either region is \<open>None\<close>.
\<close>

section \<open>PtrBuf and StaticBuf\<close>

record 'a span_buf =
  sp_cells :: "'a list"
  sp_l :: int

definition ptr_buf :: "'a list \<Rightarrow> 'a span_buf" where
  "ptr_buf xs = \<lparr>sp_cells = xs, sp_l = int (length xs)\<rparr>"

definition ptr_shift :: "int \<Rightarrow> 'a span_buf \<Rightarrow> 'a span_buf" where
  "ptr_shift v b = b\<lparr>sp_l := sp_l b - v\<rparr>"

text \<open>The constructor of \<open>StaticBuf\<close> initialises neither the elements nor \<open>l\<close>.\<close>

definition static_buf :: "'a list \<Rightarrow> int \<Rightarrow> 'a span_buf" where
  "static_buf garbage l0 = \<lparr>sp_cells = garbage, sp_l = l0\<rparr>"

definition static_shift :: "int \<Rightarrow> 'a span_buf \<Rightarrow> 'a span_buf" where
  "static_shift v b = b\<lparr>sp_l := sp_l b + v\<rparr>"

definition sp_empty :: "'a span_buf \<Rightarrow> bool" where
  "sp_empty b = (sp_l b = 0)"

definition sp_left :: "'a span_buf \<Rightarrow> int" where
  "sp_left b = sp_l b"

definition sp_start :: "'a span_buf \<Rightarrow> int" where
  "sp_start b = int (length (sp_cells b)) - sp_l b"

definition sp_end :: "'a span_buf \<Rightarrow> int" where
  "sp_end b = int (length (sp_cells b))"

definition sp_finish :: "'a span_buf \<Rightarrow> 'a span_buf" where
  "sp_finish b = b\<lparr>sp_l := 0\<rparr>"

text \<open>\<open>memcpy(out.start(), in.start(), n)\<close>; a negative count is a huge \<open>size_t\<close>.\<close>

definition memcpy_span :: "int \<Rightarrow> 'a span_buf \<Rightarrow> 'a span_buf \<Rightarrow> 'a span_buf option" where
  "memcpy_span n src dst =
     (if 0 \<le> n \<and> 0 \<le> sp_start src \<and> sp_start src + n \<le> int (length (sp_cells src)) \<and> 0 \<le> sp_start dst
      then (case write_at (nat (sp_start dst)) (take (nat n) (drop (nat (sp_start src)) (sp_cells src))) (sp_cells dst) of
              None \<Rightarrow> None
            | Some cells \<Rightarrow> Some (dst\<lparr>sp_cells := cells\<rparr>))
      else None)"

definition buf_cp ::
  "(int \<Rightarrow> 'a span_buf \<Rightarrow> 'a span_buf) \<Rightarrow> (int \<Rightarrow> 'a span_buf \<Rightarrow> 'a span_buf)
    \<Rightarrow> 'a span_buf \<Rightarrow> 'a span_buf \<Rightarrow> ('a span_buf \<times> 'a span_buf) option" where
  "buf_cp in_shift out_shift inb outb =
     (if sp_left inb < sp_left outb then
        (case memcpy_span (sp_left inb) inb outb of
           None \<Rightarrow> None
         | Some outb' \<Rightarrow> Some (sp_finish inb, out_shift (sp_left inb) outb'))
      else
        (case memcpy_span (sp_left outb) inb outb of
           None \<Rightarrow> None
         | Some outb' \<Rightarrow> Some (in_shift (sp_left outb) inb, sp_finish outb')))"

text \<open>What is still to be read of an input, and what has been written of an output.\<close>

definition sp_wf :: "'a span_buf \<Rightarrow> bool" where
  "sp_wf b \<longleftrightarrow> 0 \<le> sp_l b \<and> sp_l b \<le> int (length (sp_cells b))"

definition sp_pending :: "'a span_buf \<Rightarrow> 'a list" where
  "sp_pending b = drop (nat (sp_start b)) (sp_cells b)"

definition sp_written :: "'a span_buf \<Rightarrow> 'a list" where
  "sp_written b = take (nat (sp_start b)) (sp_cells b)"

lemmas sp_defs = sp_wf_def sp_pending_def sp_written_def sp_left_def sp_start_def sp_finish_def
  sp_empty_def ptr_shift_def

lemma sp_start_left: "sp_start b + sp_left b = sp_end b"
  by (simp add: sp_start_def sp_left_def sp_end_def)

lemma sp_wf_ptr_buf [simp]: "sp_wf (ptr_buf xs)"
  by (simp add: sp_wf_def ptr_buf_def)

lemma sp_pending_ptr_buf [simp]: "sp_pending (ptr_buf xs) = xs"
  by (simp add: sp_defs ptr_buf_def)

lemma sp_written_ptr_buf [simp]: "sp_written (ptr_buf xs) = []"
  by (simp add: sp_defs ptr_buf_def)

lemma sp_left_ptr_buf [simp]: "sp_left (ptr_buf xs) = int (length xs)"
  by (simp add: sp_defs ptr_buf_def)

lemma memcpy_span_eq:
  assumes "sp_wf inb" and "sp_wf outb" and "0 \<le> n" and "n \<le> sp_l inb" and "n \<le> sp_l outb"
  shows "memcpy_span n inb outb = Some (outb\<lparr>sp_cells :=
    sp_written outb @ take (nat n) (sp_pending inb)
      @ drop (nat (sp_start outb) + nat n) (sp_cells outb)\<rparr>)"
proof -
  have "length (take (nat n) (sp_pending inb)) = nat n"
    using assms by (auto simp: sp_defs nat_le_iff)
  moreover have "nat (sp_start outb) + nat n \<le> length (sp_cells outb)"
    using assms by (auto simp: sp_defs)
  ultimately show ?thesis
    using assms by (simp add: memcpy_span_def write_at_def sp_pending_def sp_written_def) (simp add: sp_defs)
qed

section \<open>The double block buffer\<close>

text \<open>
  \<open>DoubleBlockProcBuf\<close> with the views the input and output wrappers take of it; \<open>db_size\<close> is
  twice the block size. \<open>InBufWrapper\<close> advances \<open>e\<close>, \<open>OutBufWrapper\<close> advances \<open>b\<close> up to
  \<open>proc_e\<close>.
\<close>

record double_buf =
  db_size :: int
  db_b :: int
  db_proc_e :: int
  db_e :: int

definition db_left_between :: "double_buf \<Rightarrow> int \<Rightarrow> int \<Rightarrow> int" where
  "db_left_between q b e = (if b < e then e - b else db_size q - b)"

definition db_clear :: "double_buf \<Rightarrow> double_buf" where
  "db_clear q = q\<lparr>db_b := 0, db_proc_e := 0, db_e := 0\<rparr>"

definition in_left :: "double_buf \<Rightarrow> int" where
  "in_left q = (if db_b q \<le> db_e q then db_size q - db_e q else db_b q - db_e q - 1)"

definition in_finish :: "double_buf \<Rightarrow> double_buf" where
  "in_finish q = (if db_b q \<le> db_e q then q\<lparr>db_e := 0\<rparr> else q\<lparr>db_e := db_b q - 1\<rparr>)"

definition in_shift :: "int \<Rightarrow> double_buf \<Rightarrow> double_buf" where
  "in_shift s q = (let e = db_e q + s in q\<lparr>db_e := (if e \<ge> db_size q then 0 else e)\<rparr>)"

definition out_left :: "double_buf \<Rightarrow> int" where
  "out_left q = (if db_b q \<le> db_proc_e q then db_proc_e q - db_b q else db_size q - db_b q)"

definition out_finish :: "double_buf \<Rightarrow> double_buf" where
  "out_finish q = (if db_b q \<le> db_proc_e q then q\<lparr>db_b := db_proc_e q\<rparr> else q\<lparr>db_b := 0\<rparr>)"

definition out_shift :: "int \<Rightarrow> double_buf \<Rightarrow> double_buf" where
  "out_shift s q = (let b = db_b q + s in q\<lparr>db_b := (if b \<ge> db_size q then 0 else b)\<rparr>)"

definition db_wf :: "double_buf \<Rightarrow> bool" where
  "db_wf q \<longleftrightarrow> 0 < db_size q \<and> 0 \<le> db_b q \<and> db_b q < db_size q \<and>
     0 \<le> db_proc_e q \<and> db_proc_e q < db_size q \<and> 0 \<le> db_e q \<and> db_e q < db_size q"

lemmas db_defs = db_wf_def in_left_def in_finish_def in_shift_def out_left_def out_finish_def
  out_shift_def db_clear_def db_left_between_def Let_def

text \<open>Finishing a view is shifting it by all that is left.\<close>

lemma in_finish_shift: "db_wf q \<Longrightarrow> in_finish q = in_shift (in_left q) q"
  by (auto simp: db_defs)

lemma out_finish_shift: "db_wf q \<Longrightarrow> out_finish q = out_shift (out_left q) q"
  by (auto simp: db_defs)

section \<open>Chained buffers\<close>

text \<open>
  The classes of \<open>chained_buffer.h\<close> by the bytes each holds (the object representation of its
  struct, its vector, or its array) and its parent. \<open>vector_insert\<close> appends to \<open>v\<close>, which the
  caller keeps even when the base class throws.
\<close>

datatype chained_buffer =
    Chained_buffer
  | Struct_buffer chained_buffer bytes
  | Struct_init_buffer bytes
  | Vector_chained_buffer chained_buffer bytes
  | Array_chained_buffer chained_buffer bytes
  | Array_init_buffer bytes

datatype chain_exc = Unimplemented

primrec vector_insert :: "chained_buffer \<Rightarrow> bytes \<Rightarrow> chain_exc option \<times> bytes" where
  "vector_insert Chained_buffer v = (Some Unimplemented, v)"
| "vector_insert (Struct_buffer parent bs) v = vector_insert parent (v @ bs)"
| "vector_insert (Struct_init_buffer bs) v = (None, v @ bs)"
| "vector_insert (Vector_chained_buffer parent bs) v = vector_insert parent (v @ bs)"
| "vector_insert (Array_chained_buffer parent bs) v = vector_insert parent (v @ bs)"
| "vector_insert (Array_init_buffer bs) v = (None, v @ bs)"

primrec layers :: "chained_buffer \<Rightarrow> bytes list" where
  "layers Chained_buffer = []"
| "layers (Struct_buffer parent bs) = bs # layers parent"
| "layers (Struct_init_buffer bs) = [bs]"
| "layers (Vector_chained_buffer parent bs) = bs # layers parent"
| "layers (Array_chained_buffer parent bs) = bs # layers parent"
| "layers (Array_init_buffer bs) = [bs]"

primrec grounded :: "chained_buffer \<Rightarrow> bool" where
  "grounded Chained_buffer = False"
| "grounded (Struct_buffer parent bs) = grounded parent"
| "grounded (Struct_init_buffer bs) = True"
| "grounded (Vector_chained_buffer parent bs) = grounded parent"
| "grounded (Array_chained_buffer parent bs) = grounded parent"
| "grounded (Array_init_buffer bs) = True"

lemma vector_insert_eq:
  "vector_insert c v = (if grounded c then None else Some Unimplemented, v @ concat (layers c))"
  by (induction c arbitrary: v) simp_all

section \<open>Properties\<close>

text \<open>
  \<open>buf_cp\<close> between pointer buffers moves as many elements as the smaller side holds: they
  are appended to what the output has written and removed from the front of what the input has
  pending, in order; one of the two is used up, and nothing outside is read or written.
\<close>

theorem buf_cp_moves:
  assumes "sp_wf inb" and "sp_wf outb"
  defines "n \<equiv> min (sp_left inb) (sp_left outb)"
  shows "\<exists>inb' outb'. buf_cp ptr_shift ptr_shift inb outb = Some (inb', outb') \<and>
    sp_wf inb' \<and> sp_wf outb' \<and>
    sp_written outb' = sp_written outb @ take (nat n) (sp_pending inb) \<and>
    sp_pending inb' = drop (nat n) (sp_pending inb) \<and>
    sp_left inb' = sp_left inb - n \<and> sp_left outb' = sp_left outb - n \<and>
    (sp_empty inb' \<or> sp_empty outb')"
proof -
  have n: "0 \<le> n" "n \<le> sp_l inb" "n \<le> sp_l outb" using assms by (auto simp: sp_defs)
  let ?out = "outb\<lparr>sp_cells := sp_written outb @ take (nat n) (sp_pending inb)
      @ drop (nat (sp_start outb) + nat n) (sp_cells outb)\<rparr>"
  have cp: "buf_cp ptr_shift ptr_shift inb outb = Some (ptr_shift n inb, ptr_shift n ?out)"
  proof (cases "sp_left inb < sp_left outb")
    case True
    then have "n = sp_left inb" by (simp add: n_def)
    with True memcpy_span_eq [OF assms(1,2) n] show ?thesis
      by (simp add: buf_cp_def) (simp add: sp_defs)
  next
    case False
    then have "n = sp_left outb" by (simp add: n_def)
    with False memcpy_span_eq [OF assms(1,2) n] show ?thesis
      by (simp add: buf_cp_def) (simp add: sp_defs)
  qed
  have len: "length (sp_cells ?out) = length (sp_cells outb)"
    using assms(1,2) n by (auto simp: sp_defs)
  have ple: "nat n \<le> length (sp_pending inb)" using assms(1) n by (auto simp: sp_defs)
  have st: "nat (sp_start (ptr_shift n ?out)) = length (sp_written outb @ take (nat n) (sp_pending inb))"
    using assms(1,2) n len by (auto simp: sp_defs)
  have "sp_written (ptr_shift n ?out) = sp_written outb @ take (nat n) (sp_pending inb)"
    unfolding sp_written_def [of "ptr_shift n ?out"] st by (simp add: ptr_shift_def ple min_def)
  moreover have "nat (sp_start (ptr_shift n inb)) = nat n + nat (sp_start inb)"
    using assms(1) n by (auto simp: sp_defs)
  then have "sp_pending (ptr_shift n inb) = drop (nat n) (sp_pending inb)"
    by (simp add: sp_pending_def) (simp add: ptr_shift_def)
  moreover have "sp_wf (ptr_shift n inb)" "sp_wf (ptr_shift n ?out)"
    using assms(1,2) n len by (auto simp: sp_wf_def ptr_shift_def)
  moreover have "sp_empty (ptr_shift n inb) \<or> sp_empty (ptr_shift n ?out)"
    by (auto simp: sp_empty_def ptr_shift_def n_def sp_left_def min_def)
  ultimately show ?thesis using cp by (auto simp: sp_left_def ptr_shift_def)
qed

theorem buf_cp_moves_witness:
  "\<exists>i o'. buf_cp ptr_shift ptr_shift (ptr_buf [1, 2, 3 :: u8]) (ptr_buf [0, 0]) = Some (i, o') \<and>
    sp_written o' = [1, 2] \<and> sp_pending i = [3]"
  using buf_cp_moves [OF sp_wf_ptr_buf sp_wf_ptr_buf, of "[1, 2, 3 :: u8]" "[0, 0]"]
  by auto

text \<open>
  A static buffer as the output goes wrong: \<open>StaticBuf::shift\<close> adds, so after a copy that
  does not fill it the output claims more room than before, and its start has moved back.
\<close>

theorem buf_cp_static_output:
  assumes "sp_wf inb" and "sp_wf outb" and "0 < sp_left inb" and "sp_left inb < sp_left outb"
  shows "\<exists>inb' outb'. buf_cp ptr_shift static_shift inb outb = Some (inb', outb') \<and>
    sp_left outb' = sp_left outb + sp_left inb \<and> sp_start outb' < sp_start outb"
proof -
  have "length (take (nat (sp_left inb)) (sp_pending inb)) = nat (sp_left inb)"
    and "nat (sp_start outb) + nat (sp_left inb) \<le> length (sp_cells outb)"
    using assms by (auto simp: sp_defs)
  then show ?thesis
    using assms memcpy_span_eq [OF assms(1,2), of "sp_left inb"]
    by (auto simp: buf_cp_def static_shift_def sp_defs)
qed

theorem buf_cp_static_output_witness:
  "\<exists>i o'. buf_cp ptr_shift static_shift (ptr_buf [1 :: u8]) (static_buf [0, 0, 0] 2) = Some (i, o') \<and>
    sp_left o' = 3"
proof -
  have "sp_wf (static_buf [0, 0, 0 :: u8] 2)" "0 < sp_left (ptr_buf [1 :: u8])"
    "sp_left (ptr_buf [1 :: u8]) < sp_left (static_buf [0, 0, 0 :: u8] 2)"
    by (simp_all add: sp_defs static_buf_def ptr_buf_def)
  from buf_cp_static_output [OF sp_wf_ptr_buf this] show ?thesis
    by (auto simp: sp_left_def static_buf_def ptr_buf_def)
qed

text \<open>
  The input view of the double block buffer keeps its indices in range, but filling a
  buffer whose output is at 0 to the end makes it indistinguishable from an empty one.
\<close>

lemma double_buf_input:
  assumes "db_wf q" and "0 \<le> s" and "s \<le> in_left q"
  shows "db_wf (in_shift s q) \<and>
    (db_b q = 0 \<longrightarrow> in_shift (in_left q) (db_clear q\<lparr>db_e := db_e q\<rparr>) = db_clear q)"
  using assms by (auto simp: db_defs split: if_splits)

text \<open>
  \<open>vector_insert\<close> appends the bytes of every layer, the buffer itself first and its
  ancestors after it; it throws when the chain ends in the base class, leaving the bytes of the
  layers it passed in the vector.
\<close>

theorem vector_insert_layers:
  "vector_insert c v = (if grounded c then None else Some Unimplemented, v @ concat (layers c))"
  by (rule vector_insert_eq)

end
