(* ===== verification/Udp_Checksum.thy ===== *)
theory Udp_Checksum
  imports Prelude
begin

text \<open>
  \<open>ChecksumCalculator\<close> of \<open>udp4.h\<close>: the Internet checksum over 16-bit words read from memory,
  kept in 32 bits and folded at the end. A read past the end of the memory given is \<open>None\<close>.
\<close>

section \<open>The calculator\<close>

text \<open>The calculator is its one member \<open>sum\<close>. The first word is read whatever the length.\<close>

function add_words :: "u32 \<Rightarrow> bytes \<Rightarrow> nat \<Rightarrow> (u32 \<times> bytes) option" where
  "add_words acc mem words =
     (case mem of
        a # b # mem' \<Rightarrow>
          (let acc' = acc + ucast (rd16 a b)
           in if 1 < words then add_words acc' mem' (words - 1) else Some (acc', mem'))
      | _ \<Rightarrow> None)"
  by pat_completeness auto
termination
  by (relation "measure (\<lambda>(acc, mem, words). words)") auto

declare add_words.simps [simp del]

definition cc_init :: u32 where
  "cc_init = 0"

definition cc_add :: "bytes \<Rightarrow> nat \<Rightarrow> u32 \<Rightarrow> u32 option" where
  "cc_add mem l acc =
     (case add_words acc mem (l div 2) of
        None \<Rightarrow> None
      | Some (acc', rest) \<Rightarrow>
          if l mod 2 = 1 then
            (case rest of [] \<Rightarrow> None | c # _ \<Rightarrow> Some (acc' + ucast c))
          else Some acc')"

function fold_sum :: "u32 \<Rightarrow> u32" where
  "fold_sum acc = (if acc > 0xffff then fold_sum (drop_bit 16 acc + (acc AND 0xffff)) else acc)"
  by pat_completeness auto

lemma unat_drop_16: "unat (drop_bit 16 (s :: u32)) = unat s div 65536"
  by (simp add: drop_bit_eq_div unat_div_distrib)

lemma unat_low_16: "unat ((s :: u32) AND 0xffff) = unat s mod 65536"
proof -
  have "s AND 0xffff = take_bit 16 s" by (simp add: take_bit_eq_mask mask_eq_exp_minus_1)
  then show ?thesis by (simp add: take_bit_eq_mod unat_mod_distrib)
qed

lemma unat_fold_step: "unat (drop_bit 16 (s :: u32) + (s AND 0xffff)) = unat s div 65536 + unat s mod 65536"
proof -
  have "unat s < 4294967296" using unsigned_less [of s, where ?'a = nat] by simp
  then have "unat s div 65536 + unat s mod 65536 < 4294967296" by linarith
  then show ?thesis by (simp add: unat_word_ariths unat_drop_16 unat_low_16)
qed

termination fold_sum
proof (relation "measure unat")
  fix s :: u32 assume "0xffff < s"
  then have "65536 \<le> unat s" by (simp add: word_less_nat_alt)
  then have "1 \<le> unat s div 65536" by (simp add: less_eq_div_iff_mult_less_eq)
  moreover have "unat s = 65536 * (unat s div 65536) + unat s mod 65536" by simp
  ultimately have "unat s div 65536 + unat s mod 65536 < unat s" by linarith
  then show "(drop_bit 16 s + (s AND 0xffff), s) \<in> measure unat" by (simp add: unat_fold_step)
qed simp

declare fold_sum.simps [simp del]

definition cc_finish :: "u32 \<Rightarrow> u16" where
  "cc_finish acc = NOT (ucast (fold_sum acc))"

section \<open>What it computes\<close>

text \<open>The 16-bit words of a region, an odd last byte padded with zero.\<close>

fun words16 :: "bytes \<Rightarrow> u16 list" where
  "words16 [] = []"
| "words16 [a] = [ucast a]"
| "words16 (a # b # bs) = rd16 a b # words16 bs"

definition word_sum :: "bytes \<Rightarrow> nat" where
  "word_sum bs = sum_list (map unat (words16 bs))"

lemma word_sum_Nil [simp]: "word_sum [] = 0"
  by (simp add: word_sum_def)

lemma word_sum_Cons2 [simp]: "word_sum (a # b # bs) = unat (rd16 a b) + word_sum bs"
  by (simp add: word_sum_def)

lemma word_sum_single [simp]: "word_sum [a] = unat a"
  using unsigned_less [of a, where ?'a = nat]
  by (simp add: word_sum_def unsigned_ucast_eq take_bit_nat_eq_self_iff)

lemma word_sum_append: "even (length xs) \<Longrightarrow> word_sum (xs @ ys) = word_sum xs + word_sum ys"
  by (induction xs rule: words16.induct) simp_all

lemma word_sum_le16 [simp]: "word_sum (le16 x) = unat x"
  by (simp add: le16_def rd16_le16)

lemma word_sum_le32: "word_sum (le32 x) = unat (ucast x :: u16) + unat (ucast (drop_bit 16 x) :: u16)"
proof -
  have "rd16 (ucast x) (ucast (drop_bit 8 x)) = (ucast x :: u16)"
    "rd16 (ucast (drop_bit 16 x)) (ucast (drop_bit 24 x)) = (ucast (drop_bit 16 x) :: u16)"
    by (rule bit_word_eqI, auto simp: rd16_def bit_simps)+
  then show ?thesis by (simp add: le32_def)
qed

lemma add_words_sum:
  assumes "0 < n" and "2 * n \<le> length mem"
  shows "\<exists>s. add_words acc mem n = Some (s, drop (2 * n) mem) \<and>
    unat s = (unat acc + word_sum (take (2 * n) mem)) mod 2 ^ 32"
  using assms
proof (induction acc mem n rule: add_words.induct)
  case (1 acc mem n)
  from "1.prems" obtain a b mem' where mem: "mem = a # b # mem'"
    by (cases mem; cases "tl mem") auto
  have u: "unat (acc + ucast (rd16 a b)) = (unat acc + unat (rd16 a b)) mod 2 ^ 32"
    by (simp add: unat_word_ariths unsigned_ucast_eq take_bit_eq_mod mod_add_right_eq)
  show ?case
  proof (cases "1 < n")
    case True
    then obtain m where n: "n = Suc m" "0 < m" by (cases n) auto
    with "1.IH" [OF mem refl refl True] "1.prems" mem obtain s where
      s: "add_words (acc + ucast (rd16 a b)) mem' m = Some (s, drop (2 * m) mem')"
      "unat s = (unat (acc + ucast (rd16 a b)) + word_sum (take (2 * m) mem')) mod 2 ^ 32" by auto
    with n mem True u show ?thesis
      by (simp add: add_words.simps [of acc] mod_simps add.assoc)
  next
    case False
    with "1.prems" have "n = 1" by simp
    with mem u show ?thesis by (simp add: add_words.simps [of acc])
  qed
qed

lemma word_sum_take_odd:
  assumes "l < length mem" and "even l"
  shows "word_sum (take (Suc l) mem) = word_sum (take l mem) + unat (mem ! l)"
  using assms word_sum_append [of "take l mem" "[mem ! l]"] by (simp add: take_Suc_conv_app_nth)

lemma cc_add_sum:
  assumes "2 \<le> l" and "l \<le> length mem"
  shows "\<exists>s. cc_add mem l acc = Some s \<and> unat s = (unat acc + word_sum (take l mem)) mod 2 ^ 32"
proof -
  obtain s where s: "add_words acc mem (l div 2) = Some (s, drop (2 * (l div 2)) mem)"
    "unat s = (unat acc + word_sum (take (2 * (l div 2)) mem)) mod 2 ^ 32"
  proof -
    have "0 < l div 2" "2 * (l div 2) \<le> length mem" using assms by linarith+
    from add_words_sum [OF this, of acc] that show ?thesis by blast
  qed
  show ?thesis
  proof (cases "even l")
    case True
    with s show ?thesis by (simp add: cc_add_def)
  next
    case False
    then obtain k where l: "l = 2 * k + 1" by (auto elim: oddE)
    then have d: "drop (2 * k) mem = mem ! (2 * k) # drop (Suc (2 * k)) mem"
      using assms by (simp add: Cons_nth_drop_Suc)
    have "unat (s + ucast (mem ! (2 * k))) = (unat acc + word_sum (take l mem)) mod 2 ^ 32"
      using s l assms word_sum_take_odd [of "2 * k" mem]
      by (simp add: unat_word_ariths unsigned_ucast_eq take_bit_eq_mod mod_simps add.assoc)
    with s l d show ?thesis by (simp add: cc_add_def)
  qed
qed

lemma fold_sum_spec:
  "unat (fold_sum s) \<le> 65535 \<and> unat (fold_sum s) mod 65535 = unat s mod 65535 \<and>
   (unat (fold_sum s) = 0 \<longleftrightarrow> unat s = 0)"
proof (induction s rule: fold_sum.induct)
  case (1 s)
  show ?case
  proof (cases "0xffff < s")
    case True
    have "unat s = 65536 * (unat s div 65536) + unat s mod 65536" by simp
    then have eq: "unat s = 65535 * (unat s div 65536) + (unat s div 65536 + unat s mod 65536)" by linarith
    have "unat s mod 65535 = (unat s div 65536 + unat s mod 65536) mod 65535"
      by (subst eq) (rule mod_mult_self4)
    moreover have "unat s div 65536 + unat s mod 65536 = 0 \<longleftrightarrow> unat s = 0" using eq by linarith
    ultimately show ?thesis
      using "1.IH" True by (simp add: fold_sum.simps [of s] unat_fold_step)
  next
    case False
    then have "unat s \<le> 65535" by (simp add: word_le_nat_alt not_less)
    with False show ?thesis by (simp add: fold_sum.simps [of s])
  qed
qed


text \<open>Adding the checksum itself makes the folded sum all ones: the receiver's check.\<close>

lemma unat_cc_finish: "unat (cc_finish acc) = 65535 - unat (fold_sum acc)"
proof -
  have "unat (fold_sum acc) < 65536" using fold_sum_spec [of acc] by linarith
  then have "unat (ucast (fold_sum acc) :: u16) = unat (fold_sum acc)"
    by (simp add: unsigned_ucast_eq take_bit_nat_eq_self_iff)
  moreover have "unat (NOT x) = 65535 - unat x" for x :: u16
  proof -
    have "NOT x = - 1 - x" by (simp add: not_eq_complement)
    then show ?thesis by (simp only: unat_sub [OF word_n1_ge]) (simp add: unsigned_minus_1_eq_mask mask_eq_exp_minus_1)
  qed
  ultimately show ?thesis by (simp add: cc_finish_def)
qed

lemma cc_verify:
  assumes "unat acc + 65535 < 2 ^ 32"
  shows "cc_finish (acc + ucast (cc_finish acc)) = 0"
    and "(unat acc + unat (cc_finish acc)) mod 65535 = 0"
proof -
  let ?f = "unat (fold_sum acc)"
  have f: "?f \<le> 65535" "?f mod 65535 = unat acc mod 65535" "?f = 0 \<longleftrightarrow> unat acc = 0"
    using fold_sum_spec [of acc] by simp_all
  let ?T = "unat acc + (65535 - ?f)"
  have m: "?T mod 65535 = 0"
  proof -
    have "?T mod 65535 = (?f + (65535 - ?f)) mod 65535" by (rule mod_add_cong) (simp_all add: f(2))
    then show ?thesis using f(1) by simp
  qed
  then show "(unat acc + unat (cc_finish acc)) mod 65535 = 0" by (simp add: unat_cc_finish)
  have T: "unat (acc + ucast (cc_finish acc)) = ?T"
    using assms by (simp add: unat_word_ariths unsigned_ucast_eq unat_cc_finish take_bit_eq_mod)
  have pos: "0 < ?T" using f by (cases "unat acc = 0") auto
  let ?F = "unat (fold_sum (acc + ucast (cc_finish acc)))"
  have "?F \<le> 65535" "?F mod 65535 = 0" "?F \<noteq> 0"
    using fold_sum_spec [of "acc + ucast (cc_finish acc)"] T m pos by auto
  then have "?F = 65535" by (cases "?F = 65535") (auto simp: mod_less)
  then have "unat (cc_finish (acc + ucast (cc_finish acc))) = 0" by (simp add: unat_cc_finish)
  then show "cc_finish (acc + ucast (cc_finish acc)) = 0" by (simp add: unat_eq_0)
qed

end
