(* ===== verification/Udp4.thy ===== *)
theory Udp4
  imports Buffers Assoc_Map Udp_Checksum
begin

text \<open>
  \<open>udp4.h\<close>: the raw IPv4/UDP driver. Headers are records with the fields of \<open>struct iphdr\<close> and
  \<open>struct udphdr\<close>, each field as it lies in memory (network order unless converted), and their
  layout in bytes. \<open>Connection\<close>, whose header is not part of the sources, appears only as the
  pointer stored in the connection map and the calls made on it. The system calls
  \<open>sendmmsg\<close> and \<open>recvmmsg\<close> enter as the results they return.
\<close>

section \<open>Headers\<close>

record iphdr =
  ip_version :: u8
  ip_ihl :: u8
  ip_tos :: u8
  ip_tot_len :: u16
  ip_id :: u16
  ip_frag_off :: u16
  ip_ttl :: u8
  ip_protocol :: u8
  ip_check :: u16
  ip_saddr :: u32
  ip_daddr :: u32

record udphdr =
  ud_source :: u16
  ud_dest :: u16
  ud_len :: u16
  ud_check :: u16

text \<open>\<open>version\<close> and \<open>ihl\<close> are four-bit fields of the first byte.\<close>

definition iphdr_bytes :: "iphdr \<Rightarrow> bytes" where
  "iphdr_bytes h =
     [push_bit 4 (ip_version h) OR (ip_ihl h AND 15), ip_tos h] @ le16 (ip_tot_len h)
       @ le16 (ip_id h) @ le16 (ip_frag_off h) @ [ip_ttl h, ip_protocol h] @ le16 (ip_check h)
       @ le32 (ip_saddr h) @ le32 (ip_daddr h)"

definition udphdr_bytes :: "udphdr \<Rightarrow> bytes" where
  "udphdr_bytes u = le16 (ud_source u) @ le16 (ud_dest u) @ le16 (ud_len u) @ le16 (ud_check u)"

definition iphdr_zero :: iphdr where
  "iphdr_zero = \<lparr>ip_version = 0, ip_ihl = 0, ip_tos = 0, ip_tot_len = 0, ip_id = 0, ip_frag_off = 0,
     ip_ttl = 0, ip_protocol = 0, ip_check = 0, ip_saddr = 0, ip_daddr = 0\<rparr>"

definition udphdr_zero :: udphdr where
  "udphdr_zero = \<lparr>ud_source = 0, ud_dest = 0, ud_len = 0, ud_check = 0\<rparr>"

section \<open>Addresses\<close>

record udp_addr =
  ad_src_ip :: u32
  ad_dst_ip :: u32
  ad_src_port :: u16
  ad_dst_port :: u16

definition hash_prepv32 :: "u32 \<Rightarrow> u32 \<Rightarrow> u32" where
  "hash_prepv32 v m = (v * m) OR 1"

text \<open>For a \<open>uint16_t\<close> the product is taken in \<open>int\<close>; with these factors it cannot overflow.\<close>

definition hash_prepv16 :: "u16 \<Rightarrow> u32 \<Rightarrow> u32" where
  "hash_prepv16 v m = (ucast v * m) OR 1"

definition addr_hash :: "udp_addr \<Rightarrow> u64" where
  "addr_hash a = ucast (hash_prepv32 (ad_src_ip a) 457) * ucast (hash_prepv32 (ad_dst_ip a) 765)
     * ucast (hash_prepv16 (ad_src_port a) 43) * ucast (hash_prepv16 (ad_dst_port a) 75)"

definition addr_eq :: "udp_addr \<Rightarrow> udp_addr \<Rightarrow> bool" where
  "addr_eq a b \<longleftrightarrow> ad_src_ip a = ad_src_ip b \<and> ad_dst_ip a = ad_dst_ip b \<and>
     ad_src_port a = ad_src_port b \<and> ad_dst_port a = ad_dst_port b"

lemma addr_eq_iff [simp]: "addr_eq a b \<longleftrightarrow> a = b"
  by (auto simp: addr_eq_def)

text \<open>\<open>CONFIGURE\<close> reads a field from the configuration; ports are converted to network order.\<close>

definition addr_load :: "(string \<Rightarrow> u32) \<Rightarrow> (string \<Rightarrow> u16) \<Rightarrow> udp_addr" where
  "addr_load cfg_ip cfg_port =
     \<lparr>ad_src_ip = cfg_ip ''src_ip'', ad_dst_ip = cfg_ip ''dst_ip'',
      ad_src_port = htons (cfg_port ''src_port''), ad_dst_port = htons (cfg_port ''dst_port'')\<rparr>"

section \<open>The send queue\<close>

definition IPPROTO_UDP :: u8 where
  "IPPROTO_UDP = 17"

record send_packet_queue =
  uq_mtu :: int
  uq_msg_descr :: "(nat \<times> sockaddr_in) list"
  uq_packet_buffers :: bytes

definition uq_init :: send_packet_queue where
  "uq_init = \<lparr>uq_mtu = 1500, uq_msg_descr = [], uq_packet_buffers = []\<rparr>"

text \<open>When the packet throws, the bytes it had appended stay, without a descriptor.\<close>

definition uq_push ::
  "chained_buffer \<Rightarrow> sockaddr_in \<Rightarrow> send_packet_queue \<Rightarrow> chain_exc option \<times> send_packet_queue" where
  "uq_push packet dst_addr q =
     (let old_size = length (uq_packet_buffers q)
      in case vector_insert packet (uq_packet_buffers q) of
           (Some e, v) \<Rightarrow> (Some e, q\<lparr>uq_packet_buffers := v\<rparr>)
         | (None, v) \<Rightarrow> (None, q\<lparr>uq_packet_buffers := v,
                                uq_msg_descr := uq_msg_descr q @ [(length v - old_size, dst_addr)]\<rparr>))"

text \<open>The first loop of \<open>send\<close>: message \<open>i\<close> is the next \<open>len\<close> bytes of the buffer.\<close>

fun build_messages :: "(nat \<times> sockaddr_in) list \<Rightarrow> bytes \<Rightarrow> (sockaddr_in \<times> bytes) list" where
  "build_messages [] data = []"
| "build_messages ((len, dst) # ds) data = (dst, take len data) # build_messages ds (drop len data)"

text \<open>
  \<open>packet_buffers.empty()\<close> only tests the vector: the bytes stay.
\<close>

definition uq_clear :: "send_packet_queue \<Rightarrow> send_packet_queue" where
  "uq_clear q = q\<lparr>uq_msg_descr := []\<rparr>"

datatype sys_exc = Sys_error

text \<open>
  The second loop. The list gives what successive calls of \<open>sendmmsg\<close> return; the result is the
  exception and the messages handed over, or \<open>None\<close> when the loop is still running after them.
\<close>

fun send_loop ::
  "int list \<Rightarrow> (sockaddr_in \<times> bytes) list \<Rightarrow> nat \<Rightarrow> (sys_exc option \<times> (sockaddr_in \<times> bytes) list) option" where
  "send_loop [] messages sent = None"
| "send_loop (l # ls) messages sent =
     (if l < 0 then Some (Some Sys_error, [])
      else
        (let sent' = (if l > 0 then sent + nat l else sent);
             out = take (sent' - sent) (drop sent messages)
         in if sent' < length messages then
              (case send_loop ls messages sent' of
                 None \<Rightarrow> None
               | Some (e, later) \<Rightarrow> Some (e, out @ later))
            else Some (None, out)))"

definition uq_send ::
  "int list \<Rightarrow> send_packet_queue
    \<Rightarrow> (sys_exc option \<times> (sockaddr_in \<times> bytes) list \<times> send_packet_queue) option" where
  "uq_send results q =
     (case send_loop results (build_messages (uq_msg_descr q) (uq_packet_buffers q)) 0 of
        None \<Rightarrow> None
      | Some (Some e, out) \<Rightarrow> Some (Some e, out, q)
      | Some (None, out) \<Rightarrow> Some (None, out, uq_clear q))"

section \<open>Sending a packet\<close>

text \<open>
  The headers \<open>send_packet\<close> fills in; the struct starts out zeroed, and \<open>is_control << 7\<close> is
  stored without a change of byte order.
\<close>

definition packet_ip :: "udp_addr \<Rightarrow> u16 \<Rightarrow> bool \<Rightarrow> iphdr" where
  "packet_ip a pid is_control = iphdr_zero\<lparr>ip_ihl := 5, ip_version := 4, ip_id := htons pid,
     ip_frag_off := push_bit 7 (of_bool is_control), ip_ttl := 128, ip_protocol := IPPROTO_UDP,
     ip_saddr := ad_src_ip a, ip_daddr := ad_dst_ip a\<rparr>"

definition packet_udp :: "udp_addr \<Rightarrow> nat \<Rightarrow> udphdr" where
  "packet_udp a l = udphdr_zero\<lparr>ud_source := ad_src_port a, ud_dest := ad_dst_port a,
     ud_len := htons (of_nat (8 + l))\<rparr>"

text \<open>The calls of \<open>add\<close>, in order; \<open>mem\<close> is the memory \<open>data\<close> points to.\<close>

definition udp_checksum :: "iphdr \<Rightarrow> udphdr \<Rightarrow> bytes \<Rightarrow> nat \<Rightarrow> u16 option" where
  "udp_checksum iph udph mem l =
     map_option cc_finish
       (Option.bind (cc_add (le32 (ip_saddr iph)) 4 cc_init) (\<lambda>s1.
        Option.bind (cc_add (le32 (ip_daddr iph)) 4 s1) (\<lambda>s2.
        Option.bind (cc_add (le16 (htons (ucast (ip_protocol iph)))) 2 s2) (\<lambda>s3.
        Option.bind (cc_add (le16 (ud_len udph)) 2 s3) (\<lambda>s4.
        Option.bind (cc_add (udphdr_bytes udph) 8 s4) (\<lambda>s5.
        cc_add mem l s5))))))"

definition send_packet ::
  "udp_addr \<Rightarrow> u16 \<Rightarrow> bytes \<Rightarrow> nat \<Rightarrow> bool \<Rightarrow> send_packet_queue
    \<Rightarrow> (chain_exc option \<times> send_packet_queue) option" where
  "send_packet a pid mem l is_control q =
     (let iph = packet_ip a pid is_control;
          udph = packet_udp a l
      in case udp_checksum iph udph mem l of
           None \<Rightarrow> None
         | Some check \<Rightarrow>
             (let udph' = udph\<lparr>ud_check := check\<rparr>;
                  hdr = Struct_buffer (Array_init_buffer (take l mem)) (iphdr_bytes iph @ udphdr_bytes udph');
                  dst = \<lparr>sin_family = AF_INET, sin_addr = ip_daddr iph, sin_port = ud_dest udph'\<rparr>
              in Some (uq_push hdr dst q)))"

definition push_data ::
  "udp_addr \<Rightarrow> u16 \<Rightarrow> bytes \<Rightarrow> nat \<Rightarrow> send_packet_queue \<Rightarrow> (chain_exc option \<times> send_packet_queue) option" where
  "push_data a pid mem l q = send_packet a pid mem l False q"

definition push_control ::
  "udp_addr \<Rightarrow> u16 \<Rightarrow> bytes \<Rightarrow> nat \<Rightarrow> send_packet_queue \<Rightarrow> (chain_exc option \<times> send_packet_queue) option" where
  "push_control a pid mem l q = send_packet a pid mem l True q"

section \<open>The driver and receiving\<close>

text \<open>The connection map; \<open>'c\<close> are the connection pointers.\<close>

record 'c udp4_driver =
  dr_sock :: int
  dr_mtu :: nat
  dr_iov :: "(nat \<times> nat) list"
  dr_packet_buffers :: bytes
  dr_send_queue :: send_packet_queue
  dr_conn_map :: "(udp_addr, 'c) umap"

definition driver_init :: "'c udp4_driver" where
  "driver_init = \<lparr>dr_sock = - 1, dr_mtu = 1500, dr_iov = [], dr_packet_buffers = [],
     dr_send_queue = uq_init, dr_conn_map = []\<rparr>"

definition detach :: "udp_addr \<Rightarrow> 'c udp4_driver \<Rightarrow> 'c udp4_driver" where
  "detach a d = d\<lparr>dr_conn_map := um_erase a (dr_conn_map d)\<rparr>"

definition attach :: "udp_addr \<Rightarrow> 'c \<Rightarrow> 'c udp4_driver \<Rightarrow> 'c udp4_driver" where
  "attach a conn d = d\<lparr>dr_conn_map := um_emplace a conn (dr_conn_map d)\<rparr>"

text \<open>\<open>resize_buffers\<close>: buffer \<open>i\<close> is the \<open>mtu\<close> bytes from \<open>i * mtu\<close> on.\<close>

definition resize_buffers :: "nat \<Rightarrow> 'c udp4_driver \<Rightarrow> 'c udp4_driver" where
  "resize_buffers n d =
     (let total = n * dr_mtu d; old = dr_packet_buffers d
      in d\<lparr>dr_packet_buffers := take total old @ replicate (total - length old) 0,
           dr_iov := map (\<lambda>i. (i * dr_mtu d, dr_mtu d)) [0..<n]\<rparr>)"

definition send_all ::
  "int list \<Rightarrow> 'c udp4_driver \<Rightarrow> (sys_exc option \<times> (sockaddr_in \<times> bytes) list \<times> 'c udp4_driver) option" where
  "send_all results d =
     (case uq_send results (dr_send_queue d) of
        None \<Rightarrow> None
      | Some (e, out, q) \<Rightarrow> Some (e, out, d\<lparr>dr_send_queue := q\<rparr>))"

definition read16 :: "bytes \<Rightarrow> nat \<Rightarrow> u16 option" where
  "read16 buf k = (if k + 1 < length buf then Some (rd16 (buf ! k) (buf ! (k + 1))) else None)"

definition read32 :: "bytes \<Rightarrow> nat \<Rightarrow> u32 option" where
  "read32 buf k =
     (if k + 3 < length buf
      then Some (rd32 (buf ! k) (buf ! (k + 1)) (buf ! (k + 2)) (buf ! (k + 3))) else None)"

datatype 'c conn_call =
    Process_data 'c u16 bytes u64
  | Process_control 'c u16 bytes u64

text \<open>
  The body of the loop of \<open>recv_all\<close> for a message of \<open>msg_len\<close> bytes in the buffer \<open>buf\<close>:
  the call made on a connection, if any. \<open>data\<close> is the buffer from the payload on.
\<close>

definition recv_msg :: "(udp_addr, 'c) umap \<Rightarrow> u32 \<Rightarrow> bytes \<Rightarrow> 'c conn_call option option" where
  "recv_msg conn_map msg_len buf =
     (if buf = [] then None
      else
        (let udph = unat (buf ! 0 AND 15) * 4; data = udph + 8
         in Option.bind (read16 buf (udph + 4)) (\<lambda>len.
            let data_len = ucast (htons len) - 8 :: u64
            in if ucast msg_len \<noteq> of_nat data + data_len then Some None
               else
                 Option.bind (read32 buf 16) (\<lambda>daddr.
                 Option.bind (read32 buf 12) (\<lambda>saddr.
                 Option.bind (read16 buf (udph + 2)) (\<lambda>dest.
                 Option.bind (read16 buf udph) (\<lambda>source.
                 Option.bind (read16 buf 6) (\<lambda>frag_off.
                 Option.bind (read16 buf 4) (\<lambda>pid.
                   (case um_find conn_map
                      \<lparr>ad_src_ip = daddr, ad_dst_ip = saddr, ad_src_port = dest, ad_dst_port = source\<rparr> of
                      None \<Rightarrow> Some None
                    | Some conn \<Rightarrow>
                        if frag_off AND 0x80 = 0
                        then Some (Some (Process_data conn (htons pid) (drop data buf) data_len))
                        else Some (Some (Process_control conn (htons pid) (drop data buf) data_len))))))))))))"

fun recv_loop :: "(udp_addr, 'c) umap \<Rightarrow> (u32 \<times> bytes) list \<Rightarrow> 'c conn_call list option" where
  "recv_loop conn_map [] = Some []"
| "recv_loop conn_map ((msg_len, buf) # ms) =
     (case recv_msg conn_map msg_len buf of
        None \<Rightarrow> None
      | Some r \<Rightarrow>
          (case recv_loop conn_map ms of
             None \<Rightarrow> None
           | Some calls \<Rightarrow> Some (case r of None \<Rightarrow> calls | Some c \<Rightarrow> c # calls)))"

text \<open>A negative result of \<open>recvmmsg\<close> is not reported: the loop just does not run.\<close>

definition recv_all :: "int \<Rightarrow> (u32 \<times> bytes) list \<Rightarrow> 'c udp4_driver \<Rightarrow> 'c conn_call list option" where
  "recv_all nreceived messages d = recv_loop (dr_conn_map d) (take (nat nreceived) messages)"

end
