(* ===== verification/Udp4_Transport.thy ===== *)
theory Udp4_Transport
  imports Udp4
begin

text \<open>
  What the driver of \<open>udp4.h\<close> does end to end: the packets pushed are the messages sent, their
  checksum is the one a receiver verifies, and a packet sent is dispatched at the other side to
  the connection attached under the mirrored address.
\<close>

section \<open>The send queue\<close>

definition uq_messages :: "send_packet_queue \<Rightarrow> (sockaddr_in \<times> bytes) list" where
  "uq_messages q = build_messages (uq_msg_descr q) (uq_packet_buffers q)"

definition uq_wf :: "send_packet_queue \<Rightarrow> bool" where
  "uq_wf q \<longleftrightarrow> sum_list (map fst (uq_msg_descr q)) = length (uq_packet_buffers q)"

definition push_all :: "(chained_buffer \<times> sockaddr_in) list \<Rightarrow> send_packet_queue \<Rightarrow> send_packet_queue" where
  "push_all ps q = fold (\<lambda>(c, dst) q. snd (uq_push c dst q)) ps q"

lemma length_build_messages [simp]: "length (build_messages ds data) = length ds"
  by (induction ds data rule: build_messages.induct) simp_all

lemma build_messages_snoc:
  "sum_list (map fst ds) \<le> length data \<Longrightarrow>
   build_messages (ds @ [(n, dst)]) (data @ x)
     = build_messages ds data @ [(dst, take n (drop (sum_list (map fst ds)) (data @ x)))]"
  by (induction ds data rule: build_messages.induct) (auto simp: add.commute)

lemma uq_push_grounded:
  assumes "grounded c"
  shows "uq_push c dst q = (None, q\<lparr>uq_packet_buffers := uq_packet_buffers q @ concat (layers c),
    uq_msg_descr := uq_msg_descr q @ [(length (concat (layers c)), dst)]\<rparr>)"
  using assms by (simp add: uq_push_def vector_insert_eq)


lemma build_messages_prefix:
  "sum_list (map fst ds) \<le> length data \<Longrightarrow> build_messages ds (data @ x) = build_messages ds data"
  by (induction ds data rule: build_messages.induct) auto

lemma uq_push_messages:
  assumes "uq_wf q" and "grounded c"
  shows "uq_wf (snd (uq_push c dst q))"
    and "uq_messages (snd (uq_push c dst q)) = uq_messages q @ [(dst, concat (layers c))]"
  using assms by (simp_all add: uq_push_grounded uq_wf_def uq_messages_def build_messages_snoc)

lemma push_all_messages:
  assumes "uq_wf q" and "\<forall>(c, dst) \<in> set ps. grounded c"
  shows "uq_wf (push_all ps q) \<and>
    uq_messages (push_all ps q) = uq_messages q @ map (\<lambda>(c, dst). (dst, concat (layers c))) ps \<and>
    uq_packet_buffers (push_all ps q) = uq_packet_buffers q @ concat (map (\<lambda>(c, dst). concat (layers c)) ps)"
  using assms
proof (induction ps arbitrary: q)
  case Nil
  then show ?case by (simp add: push_all_def)
next
  case (Cons p ps)
  obtain c dst where p: "p = (c, dst)" by (cases p)
  with Cons.prems have g: "grounded c" by simp
  let ?q = "snd (uq_push c dst q)"
  have step: "push_all ((c, dst) # ps) q = push_all ps ?q" by (simp add: push_all_def)
  have b: "uq_packet_buffers ?q = uq_packet_buffers q @ concat (layers c)"
    using g by (simp add: uq_push_grounded)
  from Cons.IH [OF uq_push_messages(1) [OF Cons.prems(1) g, of dst]] Cons.prems(2)
  show ?case by (simp add: step p b uq_push_messages(2) [OF Cons.prems(1) g])
qed

lemma send_loop_all:
  assumes "\<forall>l \<in> set ls. 0 \<le> l" and "ls \<noteq> []" and "sent \<le> length ms"
    and "length ms \<le> sent + sum_list (map nat ls)"
  shows "send_loop ls ms sent = Some (None, drop sent ms)"
  using assms
proof (induction ls ms sent rule: send_loop.induct)
  case (2 l ls ms sent)
  let ?s = "if l > 0 then sent + nat l else sent"
  have s: "?s = sent + nat l" using "2.prems" by simp
  have l: "\<not> l < 0" using "2.prems" by simp
  show ?case
  proof (cases "sent + nat l < length ms")
    case True
    then have "ls \<noteq> []" using "2.prems"(4) by auto
    with 2 s l True have "send_loop ls ms (sent + nat l) = Some (None, drop (sent + nat l) ms)" by simp
    moreover have "take (nat l) (drop sent ms) @ drop (sent + nat l) ms = drop sent ms"
      by (metis append_take_drop_id drop_drop add.commute)
    ultimately show ?thesis using l s True by (simp del: drop_drop)
  next
    case False
    then show ?thesis using l s by simp
  qed
qed simp

lemma uq_send_all:
  assumes "\<forall>l \<in> set ls. 0 \<le> l" and "ls \<noteq> []" and "length (uq_msg_descr q) \<le> sum_list (map nat ls)"
  shows "uq_send ls q = Some (None, uq_messages q, uq_clear q)"
proof -
  have "send_loop ls (uq_messages q) 0 = Some (None, drop 0 (uq_messages q))"
    using assms by (intro send_loop_all) (simp_all add: uq_messages_def)
  then show ?thesis by (simp add: uq_send_def uq_messages_def)
qed

section \<open>Properties of the send queue\<close>

text \<open>
  (C27) A fresh send queue hands over exactly what was pushed, in order and each message once,
  however \<open>sendmmsg\<close> splits the work, as soon as its non-negative results cover the messages.
\<close>

theorem send_delivers_pushes:
  assumes "\<forall>(c, dst) \<in> set ps. grounded c"
    and "\<forall>l \<in> set ls. 0 \<le> l" and "ls \<noteq> []" and "length ps \<le> sum_list (map nat ls)"
  shows "\<exists>q'. uq_send ls (push_all ps uq_init)
      = Some (None, map (\<lambda>(c, dst). (dst, concat (layers c))) ps, q') \<and> uq_msg_descr q' = []"
proof -
  have wf: "uq_wf uq_init" and m: "uq_messages uq_init = []"
    by (simp_all add: uq_wf_def uq_init_def uq_messages_def)
  let ?q = "push_all ps uq_init"
  have eq: "uq_messages ?q = map (\<lambda>(c, dst). (dst, concat (layers c))) ps"
    using push_all_messages [OF wf assms(1)] m by simp
  then have "length (uq_msg_descr ?q) = length ps"
    by (metis length_build_messages length_map uq_messages_def)
  with uq_send_all [OF assms(2,3), of ?q] assms(4) eq show ?thesis by (simp add: uq_clear_def)
qed

theorem send_delivers_pushes_witness:
  "\<exists>q'. uq_send [1, 0, 1] (push_all [(Array_init_buffer [1, 2], \<lparr>sin_family = 2, sin_addr = 1, sin_port = 7\<rparr>), (Array_init_buffer [3], \<lparr>sin_family = 2, sin_addr = 2, sin_port = 7\<rparr>)] uq_init)
      = Some (None, [(\<lparr>sin_family = 2, sin_addr = 1, sin_port = 7\<rparr>, [1, 2]), (\<lparr>sin_family = 2, sin_addr = 2, sin_port = 7\<rparr>, [3])], q') \<and> uq_msg_descr q' = []"
  using send_delivers_pushes
    [of "[(Array_init_buffer [1, 2], \<lparr>sin_family = 2, sin_addr = 1, sin_port = 7\<rparr>), (Array_init_buffer [3], \<lparr>sin_family = 2, sin_addr = 2, sin_port = 7\<rparr>)]" "[1, 0, 1]"] by simp

text \<open>
  A second round sends stale bytes: \<open>clear\<close> leaves the packet bytes in place, so the next
  packet pushed is sent as the first bytes of the earlier round followed by its own.
\<close>

theorem second_send_stale:
  assumes "\<forall>(c, dst) \<in> set ps. grounded c"
    and "\<forall>l \<in> set ls. 0 \<le> l" and "ls \<noteq> []" and "length ps \<le> sum_list (map nat ls)"
    and "uq_send ls (push_all ps uq_init) = Some (e, out, q')" and "grounded c" and "1 \<le> k"
  shows "\<exists>q''. uq_send [k] (snd (uq_push c dst q')) = Some (None,
    [(dst, take (length (concat (layers c)))
             (concat (map (\<lambda>(c, dst). concat (layers c)) ps) @ concat (layers c)))], q'')"
proof -
  have wf: "uq_wf uq_init" and m: "uq_messages uq_init = []" "uq_packet_buffers uq_init = []"
    by (simp_all add: uq_wf_def uq_init_def uq_messages_def)
  let ?q = "push_all ps uq_init"
  have eq: "uq_messages ?q = map (\<lambda>(c, dst). (dst, concat (layers c))) ps"
    and b: "uq_packet_buffers ?q = concat (map (\<lambda>(c, dst). concat (layers c)) ps)"
    using push_all_messages [OF wf assms(1)] m by simp_all
  have "length (uq_msg_descr ?q) = length ps"
    using eq by (metis length_build_messages length_map uq_messages_def)
  then have q': "q' = uq_clear ?q" using uq_send_all [OF assms(2,3), of ?q] assms(4,5) by simp
  let ?q2 = "snd (uq_push c dst q')"
  have "uq_messages ?q2 = [(dst, take (length (concat (layers c)))
             (concat (map (\<lambda>(c, dst). concat (layers c)) ps) @ concat (layers c)))]"
    using assms(6) b by (simp add: q' uq_push_grounded uq_clear_def uq_messages_def)
  moreover have "length (uq_msg_descr ?q2) = 1"
    using assms(6) by (simp add: q' uq_push_grounded uq_clear_def)
  ultimately show ?thesis using uq_send_all [of "[k]" ?q2] assms(7) by simp
qed

theorem second_send_stale_witness:
  "\<forall>d. \<exists>q' q''. uq_send [1] (push_all [(Array_init_buffer [1, 2], d)] uq_init) = Some (None, [(d, [1, 2])], q') \<and>
    uq_send [1] (snd (uq_push (Array_init_buffer [9, 9]) d q')) = Some (None, [(d, [1, 2])], q'')"
proof
  fix d :: sockaddr_in
  let ?ps = "[(Array_init_buffer [1, 2], d)]"
  have sent: "uq_send [1] (push_all ?ps uq_init)
      = Some (None, uq_messages (push_all ?ps uq_init), uq_clear (push_all ?ps uq_init))"
    by (rule uq_send_all) (simp_all add: push_all_def uq_push_grounded uq_init_def)
  moreover have "uq_messages (push_all ?ps uq_init) = [(d, [1, 2])]"
    by (simp add: push_all_def uq_push_grounded uq_init_def uq_messages_def)
  moreover have "\<exists>q''. uq_send [1] (snd (uq_push (Array_init_buffer [9, 9]) d (uq_clear (push_all ?ps uq_init))))
      = Some (None, [(d, [1, 2])], q'')"
    using second_send_stale [OF _ _ _ _ sent, of "Array_init_buffer [9, 9]" 1 d] by simp
  ultimately show "\<exists>q' q''. uq_send [1] (push_all [(Array_init_buffer [1, 2], d)] uq_init) = Some (None, [(d, [1, 2])], q') \<and>
    uq_send [1] (snd (uq_push (Array_init_buffer [9, 9]) d q')) = Some (None, [(d, [1, 2])], q'')" by simp
qed


section \<open>The checksum of a packet\<close>

definition pseudo_header :: "udp_addr \<Rightarrow> nat \<Rightarrow> bytes" where
  "pseudo_header a l = le32 (ad_src_ip a) @ le32 (ad_dst_ip a) @ le16 (htons 17) @ le16 (htons (of_nat (8 + l)))"

lemma word_sum_bound: "word_sum bs \<le> 65535 * ((length bs + 1) div 2)"
proof (induction bs rule: words16.induct)
  case (2 a)
  then show ?case using unsigned_less [of a, where ?'a = nat] by simp
next
  case (3 a b bs)
  have "unat (rd16 a b) \<le> 65535" using unsigned_less [of "rd16 a b", where ?'a = nat] by simp
  with 3 show ?case by simp
qed simp

lemma cc_add_exact:
  assumes "2 \<le> l" and "l \<le> length mem" and "unat acc + word_sum (take l mem) < 2 ^ 32"
  shows "\<exists>s. cc_add mem l acc = Some s \<and> unat s = unat acc + word_sum (take l mem)"
  using cc_add_sum [OF assms(1,2), of acc] assms(3) by auto

lemma cc_add_exact2:
  assumes "length mem = n" and "2 \<le> n" and "unat acc + word_sum mem < 2 ^ 32"
  shows "\<exists>s. cc_add mem n acc = Some s \<and> unat s = unat acc + word_sum mem"
  using cc_add_exact [of n mem acc] assms by simp

lemma length_udphdr_bytes [simp]: "length (udphdr_bytes u) = 8"
  by (simp add: udphdr_bytes_def)

lemma length_iphdr_bytes [simp]: "length (iphdr_bytes h) = 20"
  by (simp add: iphdr_bytes_def)

lemma length_pseudo_header [simp]: "length (pseudo_header a l) = 12"
  by (simp add: pseudo_header_def)

lemma word_sum_pseudo:
  "word_sum (pseudo_header a l) = word_sum (le32 (ad_src_ip a)) + word_sum (le32 (ad_dst_ip a))
     + unat (htons 17) + unat (htons (of_nat (8 + l)))"
  by (simp add: pseudo_header_def word_sum_append)

lemma udp_checksum_sum:
  assumes "2 \<le> l" and "l \<le> length mem" and "l \<le> 65527"
    and "ip_saddr iph = ad_src_ip a" and "ip_daddr iph = ad_dst_ip a" and "ip_protocol iph = 17"
    and "ud_len udph = htons (of_nat (8 + l))"
  shows "\<exists>s. udp_checksum iph udph mem l = Some (cc_finish s) \<and>
    unat s = word_sum (pseudo_header a l @ udphdr_bytes udph @ take l mem) \<and> unat s + 65535 < 2 ^ 32"
proof -
  let ?S = "word_sum (pseudo_header a l @ udphdr_bytes udph @ take l mem)"
  have "?S \<le> 65535 * ((length (pseudo_header a l @ udphdr_bytes udph @ take l mem) + 1) div 2)"
    by (rule word_sum_bound)
  also have "\<dots> \<le> 65535 * 32774" using assms(2,3) by (intro mult_le_mono2) simp
  finally have bound: "?S + 65535 < 2 ^ 32" by simp
  have split: "?S = word_sum (le32 (ad_src_ip a)) + word_sum (le32 (ad_dst_ip a))
     + unat (htons 17) + unat (htons (of_nat (8 + l))) + word_sum (udphdr_bytes udph) + word_sum (take l mem)"
    by (simp add: word_sum_append word_sum_pseudo)
  obtain s1 where 1: "cc_add (le32 (ad_src_ip a)) 4 cc_init = Some s1" "unat s1 = word_sum (le32 (ad_src_ip a))"
    using cc_add_exact2 [of "le32 (ad_src_ip a)" 4 cc_init] bound split by (auto simp: cc_init_def)
  obtain s2 where 2: "cc_add (le32 (ad_dst_ip a)) 4 s1 = Some s2"
      "unat s2 = unat s1 + word_sum (le32 (ad_dst_ip a))"
    using cc_add_exact2 [of "le32 (ad_dst_ip a)" 4 s1] bound split 1 by auto
  obtain s3 where 3: "cc_add (le16 (htons 17)) 2 s2 = Some s3" "unat s3 = unat s2 + unat (htons 17)"
    using cc_add_exact2 [of "le16 (htons 17)" 2 s2] bound split 1 2 by auto
  obtain s4 where 4: "cc_add (le16 (ud_len udph)) 2 s3 = Some s4"
      "unat s4 = unat s3 + unat (htons (of_nat (8 + l)))"
    using cc_add_exact2 [of "le16 (ud_len udph)" 2 s3] bound split 1 2 3 assms(7) by auto
  obtain s5 where 5: "cc_add (udphdr_bytes udph) 8 s4 = Some s5"
      "unat s5 = unat s4 + word_sum (udphdr_bytes udph)"
    using cc_add_exact2 [of "udphdr_bytes udph" 8 s4] bound split 1 2 3 4 by auto
  obtain s6 where 6: "cc_add mem l s5 = Some s6" "unat s6 = unat s5 + word_sum (take l mem)"
    using cc_add_exact [OF assms(1,2), of s5] bound split 1 2 3 4 5 by auto
  have "unat s6 = ?S" using 1 2 3 4 5 6 split by simp
  moreover have "udp_checksum iph udph mem l = Some (cc_finish s6)"
    using assms(4-6) by (simp add: udp_checksum_def 1(1) 2(1) 3(1) 4(1) 5(1) 6(1))
  ultimately show ?thesis using bound by (intro exI [of _ s6]) simp
qed

lemma send_packet_message:
  assumes "2 \<le> l" and "l \<le> length mem" and "l \<le> 65527"
  shows "\<exists>udph. send_packet a pid mem l is_control q = Some (uq_push
      (Struct_buffer (Array_init_buffer (take l mem)) (iphdr_bytes (packet_ip a pid is_control) @ udphdr_bytes udph))
      \<lparr>sin_family = 2, sin_addr = ad_dst_ip a, sin_port = ad_dst_port a\<rparr> q) \<and>
    ud_source udph = ad_src_port a \<and> ud_dest udph = ad_dst_port a \<and> ud_len udph = htons (of_nat (8 + l)) \<and>
    word_sum (pseudo_header a l @ udphdr_bytes udph @ take l mem) mod 65535 = 0"
proof -
  let ?i = "packet_ip a pid is_control" and ?u = "packet_udp a l"
  obtain s where s: "udp_checksum ?i ?u mem l = Some (cc_finish s)"
    "unat s = word_sum (pseudo_header a l @ udphdr_bytes ?u @ take l mem)" "unat s + 65535 < 2 ^ 32"
    using udp_checksum_sum [OF assms, of ?i a ?u] by (auto simp: packet_ip_def packet_udp_def IPPROTO_UDP_def)
  let ?v = "?u\<lparr>ud_check := cc_finish s\<rparr>"
  have "word_sum (udphdr_bytes ?v) = word_sum (udphdr_bytes ?u) + unat (cc_finish s)"
    by (simp add: udphdr_bytes_def word_sum_append packet_udp_def udphdr_zero_def)
  then have "word_sum (pseudo_header a l @ udphdr_bytes ?v @ take l mem) = unat s + unat (cc_finish s)"
    by (simp add: word_sum_append s(2))
  with cc_verify(2) [OF s(3)]
  have "word_sum (pseudo_header a l @ udphdr_bytes ?v @ take l mem) mod 65535 = 0" by simp
  then show ?thesis
    using s(1) by (intro exI [of _ ?v]) (simp add: send_packet_def packet_udp_def packet_ip_def AF_INET_def udphdr_zero_def)
qed


lemma send_packet_short:
  assumes "length mem < 2"
  shows "send_packet a pid mem l is_control q = None"
proof -
  have "add_words acc mem n = None" for acc n
  proof -
    consider "mem = []" | x where "mem = [x]" using assms by (cases mem; cases "tl mem") auto
    then show ?thesis by cases (simp_all add: add_words.simps)
  qed
  then have "cc_add mem l acc = None" for acc by (simp add: cc_add_def)
  then have "udp_checksum iph udph mem l = None" for iph udph
    by (auto simp: udp_checksum_def bind_eq_None_conv)
  then show ?thesis by (simp add: send_packet_def Let_def)
qed

section \<open>Reading headers back\<close>

lemma read16_le16: "read16 (xs @ le16 x @ ys) (length xs) = Some x"
  by (simp add: read16_def le16_def nth_append rd16_le16)

lemma read32_le32: "read32 (xs @ le32 x @ ys) (length xs) = Some x"
  by (simp add: read32_def le32_def nth_append rd32_le32)

text \<open>Reads only look at the bytes of the field.\<close>

lemma read16_cong:
  assumes "length buf' = length buf" and "buf' ! k = buf ! k" and "buf' ! (k + 1) = buf ! (k + 1)"
  shows "read16 buf' k = read16 buf k"
  using assms by (simp add: read16_def)

lemma read32_cong:
  assumes "length buf' = length buf" and "\<forall>j < 4. buf' ! (k + j) = buf ! (k + j)"
  shows "read32 buf' k = read32 buf k"
proof -
  have "buf' ! k = buf ! k" "buf' ! (k + 1) = buf ! (k + 1)" "buf' ! (k + 2) = buf ! (k + 2)"
    "buf' ! (k + 3) = buf ! (k + 3)"
    using assms(2) [THEN spec, of 0] assms(2) [THEN spec, of 1] assms(2) [THEN spec, of 2]
      assms(2) [THEN spec, of 3] by simp_all
  with assms(1) show ?thesis by (simp add: read32_def)
qed

text \<open>What \<open>recv_msg\<close> reads of a datagram with a 20-byte header.\<close>

lemma datagram_fields:
  fixes h :: iphdr and u :: udphdr and payload :: bytes
  defines "dg \<equiv> iphdr_bytes h @ udphdr_bytes u @ payload"
  assumes "ip_ihl h = 5"
  shows "dg ! 0 AND 15 = 5" and "read16 dg 4 = Some (ip_id h)" and "read16 dg 6 = Some (ip_frag_off h)"
    and "read32 dg 12 = Some (ip_saddr h)" and "read32 dg 16 = Some (ip_daddr h)"
    and "read16 dg 20 = Some (ud_source u)" and "read16 dg 22 = Some (ud_dest u)"
    and "read16 dg 24 = Some (ud_len u)"
proof -
  have "(push_bit 4 v OR 5) AND 15 = (5 :: u8)" for v :: u8
  proof -
    have "(15 :: u8) = mask 4" by (simp add: mask_eq_exp_minus_1)
    then have "(push_bit 4 v OR 5) AND 15 = take_bit 4 (push_bit 4 v) OR take_bit 4 (5 :: u8)"
      by (simp only: take_bit_eq_mask [symmetric] take_bit_or)
    then show ?thesis by (simp add: take_bit_push_bit)
  qed
  then show "dg ! 0 AND 15 = 5" by (simp add: dg_def iphdr_bytes_def assms)
  let ?b = "push_bit 4 (ip_version h) OR (ip_ihl h AND 15)"
  show "read16 dg 4 = Some (ip_id h)"
    using read16_le16 [of "[?b, ip_tos h] @ le16 (ip_tot_len h)"] by (simp add: dg_def iphdr_bytes_def)
  show "read16 dg 6 = Some (ip_frag_off h)"
    using read16_le16 [of "[?b, ip_tos h] @ le16 (ip_tot_len h) @ le16 (ip_id h)"]
    by (simp add: dg_def iphdr_bytes_def)
  show "read32 dg 12 = Some (ip_saddr h)"
    using read32_le32 [of "[?b, ip_tos h] @ le16 (ip_tot_len h) @ le16 (ip_id h) @ le16 (ip_frag_off h)
      @ [ip_ttl h, ip_protocol h] @ le16 (ip_check h)"] by (simp add: dg_def iphdr_bytes_def)
  show "read32 dg 16 = Some (ip_daddr h)"
    using read32_le32 [of "[?b, ip_tos h] @ le16 (ip_tot_len h) @ le16 (ip_id h) @ le16 (ip_frag_off h)
      @ [ip_ttl h, ip_protocol h] @ le16 (ip_check h) @ le32 (ip_saddr h)"]
    by (simp add: dg_def iphdr_bytes_def)
  show "read16 dg 20 = Some (ud_source u)"
    using read16_le16 [of "iphdr_bytes h"] by (simp add: dg_def udphdr_bytes_def)
  show "read16 dg 22 = Some (ud_dest u)"
    using read16_le16 [of "iphdr_bytes h @ le16 (ud_source u)"] by (simp add: dg_def udphdr_bytes_def)
  show "read16 dg 24 = Some (ud_len u)"
    using read16_le16 [of "iphdr_bytes h @ le16 (ud_source u) @ le16 (ud_dest u)"]
    by (simp add: dg_def udphdr_bytes_def)
qed


text \<open>The address of a packet as its receiver sees it.\<close>

definition mirror :: "udp_addr \<Rightarrow> udp_addr" where
  "mirror a = \<lparr>ad_src_ip = ad_dst_ip a, ad_dst_ip = ad_src_ip a,
     ad_src_port = ad_dst_port a, ad_dst_port = ad_src_port a\<rparr>"

text \<open>The bytes of the header the kernel fills in: the total length and the header checksum.\<close>

definition same_datagram :: "bytes \<Rightarrow> bytes \<Rightarrow> bool" where
  "same_datagram dg dg' \<longleftrightarrow> length dg' = length dg \<and>
     (\<forall>k < length dg. k \<notin> {2, 3, 10, 11} \<longrightarrow> dg' ! k = dg ! k)"

lemma recv_msg_datagram:
  assumes "length payload = l" and "l \<le> 65507" and "ip_ihl h = 5" and "ud_len u = htons (of_nat (8 + l))"
    and "same_datagram (iphdr_bytes h @ udphdr_bytes u @ payload) dg"
    and "um_find m \<lparr>ad_src_ip = ip_daddr h, ad_dst_ip = ip_saddr h,
           ad_src_port = ud_dest u, ad_dst_port = ud_source u\<rparr> = Some c"
  shows "recv_msg m (of_nat (length dg)) (dg @ junk) = Some (Some
    (if ip_frag_off h AND 0x80 = 0
     then Process_data c (htons (ip_id h)) (payload @ junk) (of_nat l)
     else Process_control c (htons (ip_id h)) (payload @ junk) (of_nat l)))"
proof -
  let ?g = "iphdr_bytes h @ udphdr_bytes u @ payload" and ?buf = "dg @ junk"
  have len: "length dg = 28 + l" using assms(1,5) by (simp add: same_datagram_def)
  have same: "?buf ! k = (?g @ junk) ! k" if "k < 28 + l" "k \<notin> {2, 3, 10, 11}" for k
  proof -
    have lg: "length ?g = 28 + l" using assms(1) by simp
    have "(?g @ junk) ! k = ?g ! k" using that(1) lg nth_append [of ?g junk k] by simp
    moreover have "?buf ! k = dg ! k" using that(1) len nth_append [of dg junk k] by simp
    moreover have "dg ! k = ?g ! k" using assms(5) that lg by (simp add: same_datagram_def)
    ultimately show ?thesis by simp
  qed
  have lenb: "length ?buf = length (?g @ junk)" using len assms(1) by simp
  note f = datagram_fields [OF assms(3), of u "payload @ junk"]
  have g: "?g @ junk = iphdr_bytes h @ udphdr_bytes u @ payload @ junk" by simp
  have r16: "read16 ?buf k = read16 (?g @ junk) k" if "k \<in> {4, 6, 20, 22, 24}" for k
    using that by (intro read16_cong [OF lenb] same) auto
  have r32: "read32 ?buf k = read32 (?g @ junk) k" if "k \<in> {12, 16}" for k
    using that by (intro read32_cong [OF lenb] allI impI same) auto
  have b0: "?buf ! 0 AND 15 = 5" using same [of 0] f(1) g by simp
  have ne: "?buf \<noteq> []" using len by auto
  have dl: "(ucast (8 + of_nat l :: u16) :: u64) = 8 + of_nat l"
    using assms(2) ucast_of_nat_small [of "8 + l", where ?'a = 16 and ?'b = 64] by simp
  have ml: "(ucast (of_nat (length dg) :: u32) :: u64) = of_nat 28 + of_nat l"
    using assms(2) len ucast_of_nat_small [of "28 + l", where ?'a = 32 and ?'b = 64] by simp
  have pay: "drop 28 ?buf = payload @ junk"
  proof (rule nth_equalityI)
    show "length (drop 28 ?buf) = length (payload @ junk)" using len assms(1) by simp
    fix k assume "k < length (drop 28 ?buf)"
    show "drop 28 ?buf ! k = (payload @ junk) ! k"
    proof (cases "k < l")
      case True
      then show ?thesis using same [of "28 + k"] len assms(1) by (simp add: nth_append)
    next
      case False
      then show ?thesis using len assms(1) by (simp add: nth_append)
    qed
  qed
  show ?thesis
    using ne b0 f(2-) r16 r32 dl ml assms(4,6) pay by (simp add: recv_msg_def g Let_def)
qed

section \<open>Properties of the driver\<close>

text \<open>
  (C28) A packet carries a valid checksum: for a payload of 2 to 65527 bytes, what is queued is
  the IPv4 and UDP headers with the address of the connection, in front of exactly the payload,
  and the words of the pseudo header, the UDP header with its check field and the payload sum to
  0 in ones' complement, which is the receiver's test. A payload in fewer than two bytes of
  memory makes the checksum read past its end.
\<close>

theorem send_packet_checksum_valid:
  assumes "l \<le> length mem" and "l \<le> 65527"
  shows "(2 \<le> l \<longrightarrow> (\<exists>udph. send_packet a pid mem l is_control q = Some (uq_push
      (Struct_buffer (Array_init_buffer (take l mem)) (iphdr_bytes (packet_ip a pid is_control) @ udphdr_bytes udph))
      \<lparr>sin_family = 2, sin_addr = ad_dst_ip a, sin_port = ad_dst_port a\<rparr> q) \<and>
    word_sum (pseudo_header a l @ udphdr_bytes udph @ take l mem) mod 65535 = 0)) \<and>
   (length mem < 2 \<longrightarrow> send_packet a pid mem l is_control q = None)"
proof (intro conjI impI)
  assume "2 \<le> l"
  from send_packet_message [OF this assms, of a pid is_control q]
  show "\<exists>udph. send_packet a pid mem l is_control q = Some (uq_push
      (Struct_buffer (Array_init_buffer (take l mem)) (iphdr_bytes (packet_ip a pid is_control) @ udphdr_bytes udph))
      \<lparr>sin_family = 2, sin_addr = ad_dst_ip a, sin_port = ad_dst_port a\<rparr> q) \<and>
    word_sum (pseudo_header a l @ udphdr_bytes udph @ take l mem) mod 65535 = 0"
    by (elim exE conjE) (intro exI conjI)
qed (rule send_packet_short)

theorem send_packet_checksum_valid_witness:
  "\<exists>udph. word_sum (pseudo_header \<lparr>ad_src_ip = 1, ad_dst_ip = 2, ad_src_port = 3, ad_dst_port = 4\<rparr> 3
      @ udphdr_bytes udph @ [7, 8, 9]) mod 65535 = 0"
proof -
  have "3 \<le> length [7, 8, 9 :: u8]" "(3 :: nat) \<le> 65527" by simp_all
  from send_packet_checksum_valid [OF this,
    of "\<lparr>ad_src_ip = 1, ad_dst_ip = 2, ad_src_port = 3, ad_dst_port = 4\<rparr>" 5 False uq_init]
  show ?thesis by (auto simp: mod_eq_0_iff_dvd)
qed



text \<open>
  A UDP length below 8 is not caught: the payload length wraps around, the length test
  still holds for a message cut off accordingly, and the connection is called with a length
  of almost 2 to the 64.
\<close>

theorem short_udp_length_dispatched:
  assumes "ip_ihl h = 5" and "k < 8" and "ud_len u = htons (of_nat k)" and "ip_frag_off h = 0"
    and "um_find m \<lparr>ad_src_ip = ip_daddr h, ad_dst_ip = ip_saddr h,
           ad_src_port = ud_dest u, ad_dst_port = ud_source u\<rparr> = Some c"
  shows "recv_msg m (of_nat (20 + k)) (iphdr_bytes h @ udphdr_bytes u @ stale)
      = Some (Some (Process_data c (htons (ip_id h)) stale (of_nat k - 8))) \<and>
    2 ^ 64 - 8 \<le> unat (of_nat k - 8 :: u64)"
proof -
  note f = datagram_fields [OF assms(1), of u stale]
  have b0: "(iphdr_bytes h @ udphdr_bytes u @ stale) ! 0 AND 15 = 5" by (rule f(1))
  have dl: "(ucast (of_nat k :: u16) :: u64) = of_nat k"
    using assms(2) by (simp add: ucast_of_nat_small)
  have ml: "(ucast (of_nat (20 + k) :: u32) :: u64) = 20 + of_nat k"
    using assms(2) ucast_of_nat_small [of "20 + k", where ?'a = 32 and ?'b = 64] by simp
  have ne: "iphdr_bytes h @ udphdr_bytes u @ stale \<noteq> []" by (simp add: udphdr_bytes_def le16_def)
  have "k \<in> {0, 1, 2, 3, 4, 5, 6, 7}" using assms(2) by auto
  then have "2 ^ 64 - 8 \<le> unat (of_nat k - 8 :: u64)"
    by (auto simp: unsigned_minus_1_eq_mask mask_eq_exp_minus_1)
  moreover have "recv_msg m (of_nat (20 + k)) (iphdr_bytes h @ udphdr_bytes u @ stale)
      = Some (Some (Process_data c (htons (ip_id h)) stale (of_nat k - 8)))"
    using ne b0 f(2-) dl ml assms(3-5) by (simp add: recv_msg_def Let_def)
  ultimately show ?thesis by blast
qed

theorem short_udp_length_dispatched_witness:
  "recv_msg [(\<lparr>ad_src_ip = 1, ad_dst_ip = 2, ad_src_port = 3, ad_dst_port = 4\<rparr>, ''conn'')] 27
      (iphdr_bytes (iphdr_zero\<lparr>ip_ihl := 5, ip_daddr := 1, ip_saddr := 2\<rparr>)
       @ udphdr_bytes (udphdr_zero\<lparr>ud_dest := 3, ud_source := 4, ud_len := htons 7\<rparr>) @ [])
    = Some (Some (Process_data ''conn'' 0 [] (- 1)))"
  using short_udp_length_dispatched [of "iphdr_zero\<lparr>ip_ihl := 5, ip_daddr := 1, ip_saddr := 2\<rparr>" 7
      "udphdr_zero\<lparr>ud_dest := 3, ud_source := 4, ud_len := htons 7\<rparr>"
      "[(\<lparr>ad_src_ip = 1, ad_dst_ip = 2, ad_src_port = 3, ad_dst_port = 4\<rparr>, ''conn'')]" "''conn''" "[]"]
  by (simp add: iphdr_zero_def htons_def)

end
