(* ===== verification/Udp4_Conn.thy ===== *)
theory Udp4_Conn
  imports Packet_Reassembly Udp4
begin

text \<open>
  \<open>udp4_conn.h\<close>: a connection that carries packets of the queues in datagrams, each the 16-bit
  packet number followed by the data. \<open>recvfrom\<close> enters as the sender and the datagram it
  delivers, or its failure, \<open>sendto\<close> as whether it succeeds. \<open>Buffer_overrun\<close> marks accesses
  outside \<open>packet_buf\<close>, undefined in the code.
\<close>

section \<open>The connection\<close>

datatype conn_error = Recvfrom_failed | Sendto_failed | Buffer_overrun | Queue_error pq_exc

record udp4_connection =
  uc_recv_queue :: recv_queue
  uc_send_queue :: send_queue
  uc_si_peer :: sockaddr_in

text \<open>\<open>setup_from_init_packet\<close> and \<open>process_control\<close> do nothing.\<close>

definition setup_from_init_packet :: "bytes \<Rightarrow> u32 \<Rightarrow> udp4_connection \<Rightarrow> udp4_connection" where
  "setup_from_init_packet init_packet init_packet_size c = c"

definition process_control :: "bytes \<Rightarrow> u32 \<Rightarrow> udp4_connection \<Rightarrow> udp4_connection" where
  "process_control packet packet_size c = c"

definition uc_new :: "sockaddr_in \<Rightarrow> bytes \<Rightarrow> u32 \<Rightarrow> udp4_connection" where
  "uc_new si_peer init_packet init_packet_size =
     setup_from_init_packet init_packet init_packet_size
       \<lparr>uc_recv_queue = rq_init, uc_send_queue = sq_init, uc_si_peer = si_peer\<rparr>"

text \<open>
  \<open>recv_packet\<close>: the system copies as much of the datagram as fits into the buffer, returns that
  length and stores the sender's address, which becomes the peer of the connection.
\<close>

definition recv_packet ::
  "(u32 \<Rightarrow> bool) \<Rightarrow> (sockaddr_in \<times> bytes) option \<Rightarrow> bytes \<Rightarrow> udp4_connection
    \<Rightarrow> (conn_error + bool) \<times> bytes \<times> udp4_connection" where
  "recv_packet alloc incoming packet_buf c =
     (case incoming of
        None \<Rightarrow> (Inl Recvfrom_failed, packet_buf, c)
      | Some (src, datagram) \<Rightarrow>
          (let result = min (length datagram) (length packet_buf);
               buf = take result datagram @ drop result packet_buf;
               c1 = c\<lparr>uc_si_peer := src\<rparr>
           in if result > 0 then
                if length buf < 2 then (Inl Buffer_overrun, buf, c1)
                else
                  (case rq_push_packet alloc (rd16 (buf ! 0) (buf ! 1)) (drop 2 buf) (of_nat result - 2) (uc_recv_queue c1) of
                     Inl e \<Rightarrow> (Inl (Queue_error e), buf, c1)
                   | Inr q \<Rightarrow> (Inr True, buf, c1\<lparr>uc_recv_queue := q\<rparr>))
              else (Inr False, buf, c1)))"

text \<open>
  \<open>send_packet\<close> of \<open>UDP4Connection\<close>: the datagram handed to the system with its destination, and
  the buffer. The length is computed in 32 bits.
\<close>

definition uc_send_packet ::
  "bool \<Rightarrow> bytes \<Rightarrow> u16 \<Rightarrow> bytes \<Rightarrow> u32 \<Rightarrow> udp4_connection
    \<Rightarrow> conn_error option \<times> (sockaddr_in \<times> bytes) option \<times> bytes" where
  "uc_send_packet sendto_ok packet_buf pid data sz c =
     (if length packet_buf < 2 then (Some Buffer_overrun, None, packet_buf)
      else
        (let buf1 = le16 pid @ drop 2 packet_buf
         in if length data < unat sz \<or> length buf1 < 2 + unat sz then (Some Buffer_overrun, None, buf1)
            else
              (let buf2 = take 2 buf1 @ take (unat sz) data @ drop (2 + unat sz) buf1;
                   datagram = take (unat (sz + 2)) buf2
               in if sendto_ok then (None, Some (uc_si_peer c, datagram), buf2)
                  else (Some Sendto_failed, None, buf2))))"

section \<open>Sending and receiving\<close>

lemma uc_send_datagram:
  assumes "length data + 2 \<le> length buf" and "length data + 2 < 2 ^ 32"
  shows "uc_send_packet True buf pid data (of_nat (length data)) c
    = (None, Some (uc_si_peer c, le16 pid @ data), le16 pid @ data @ drop (2 + length data) buf)"
proof -
  have "unat (of_nat (length data) :: u32) = length data" using assms(2) by (simp add: unat_of_nat)
  moreover have "unat (of_nat (length data) + 2 :: u32) = length data + 2"
  proof -
    have "of_nat (length data) + 2 = (of_nat (length data + 2) :: u32)" by simp
    then show ?thesis using assms(2) by (simp only: unat_of_nat) simp
  qed
  ultimately show ?thesis using assms(1) by (simp add: uc_send_packet_def Let_def)
qed

lemma recv_datagram:
  assumes "length data + 2 \<le> length buf" and "length data + 2 < 2 ^ 32"
  shows "\<exists>buf'. length buf' = length buf \<and> recv_packet alloc (Some (src, le16 pid @ data)) buf c =
    (case rq_push_packet alloc pid data (of_nat (length data)) (uc_recv_queue c) of
       Inl e \<Rightarrow> (Inl (Queue_error e), buf', c\<lparr>uc_si_peer := src\<rparr>)
     | Inr q \<Rightarrow> (Inr True, buf', c\<lparr>uc_si_peer := src, uc_recv_queue := q\<rparr>))"
proof -
  let ?buf = "(le16 pid @ data) @ drop (2 + length data) buf"
  have sz: "of_nat (2 + length data) - 2 = (of_nat (length data) :: u32)" by simp
  have u: "unat (of_nat (length data) :: u32) = length data" using assms(2) by (simp add: unat_of_nat)
  have "descr_new alloc (of_nat (length data)) (data @ drop (2 + length data) buf) = descr_new alloc (of_nat (length data)) data"
    using u by (simp add: descr_new_def)
  then have "rq_push_packet alloc pid (data @ drop (2 + length data) buf) (of_nat (length data)) (uc_recv_queue c)
      = rq_push_packet alloc pid data (of_nat (length data)) (uc_recv_queue c)"
    by (simp add: rq_push_packet_def)
  moreover have "rd16 (?buf ! 0) (?buf ! 1) = pid" by (simp add: le16_def rd16_le16)
  moreover have m: "min (length (le16 pid @ data)) (length buf) = 2 + length data" using assms(1) by simp
  moreover have "drop 2 ?buf = data @ drop (2 + length data) buf" by simp
  moreover have "take (2 + length data) (le16 pid @ data) = le16 pid @ data" by simp
  moreover have "uc_recv_queue (c\<lparr>uc_si_peer := src\<rparr>) = uc_recv_queue c" by simp
  moreover have "(0 < 2 + length data) = True" "(length ?buf < 2) = False" by simp_all
  ultimately have "recv_packet alloc (Some (src, le16 pid @ data)) buf c =
    (case rq_push_packet alloc pid data (of_nat (length data)) (uc_recv_queue c) of
       Inl e \<Rightarrow> (Inl (Queue_error e), ?buf, c\<lparr>uc_si_peer := src\<rparr>)
     | Inr q \<Rightarrow> (Inr True, ?buf, c\<lparr>uc_si_peer := src, uc_recv_queue := q\<rparr>))"
    by (simp only: recv_packet_def Let_def option.case prod.case sz if_True if_False udp4_connection.simps)
  moreover have "length ?buf = length buf" using assms(1) by simp
  ultimately show ?thesis by blast
qed

text \<open>A sender that sends the packets of a list, and a receiver that takes in datagrams.\<close>

fun send_packets :: "bytes \<Rightarrow> (u16 \<times> bytes) list \<Rightarrow> udp4_connection \<Rightarrow> conn_error + (sockaddr_in \<times> bytes) list" where
  "send_packets buf [] c = Inr []"
| "send_packets buf ((pid, data) # ps) c =
     (case uc_send_packet True buf pid data (of_nat (length data)) c of
        (None, Some dg, buf') \<Rightarrow>
          (case send_packets buf' ps c of Inl e \<Rightarrow> Inl e | Inr dgs \<Rightarrow> Inr (dg # dgs))
      | (Some e, _, _) \<Rightarrow> Inl e
      | (None, None, _) \<Rightarrow> Inl Sendto_failed)"

fun recv_packets :: "(u32 \<Rightarrow> bool) \<Rightarrow> (sockaddr_in \<times> bytes) list \<Rightarrow> bytes \<Rightarrow> udp4_connection \<Rightarrow> conn_error + udp4_connection" where
  "recv_packets alloc [] buf c = Inr c"
| "recv_packets alloc (dg # dgs) buf c =
     (case recv_packet alloc (Some dg) buf c of
        (Inl e, _, _) \<Rightarrow> Inl e
      | (Inr _, buf', c') \<Rightarrow> recv_packets alloc dgs buf' c')"

lemma send_packets_datagrams:
  assumes "\<forall>(pid, data) \<in> set ps. length data + 2 \<le> length buf \<and> length data + 2 < 2 ^ 32"
  shows "send_packets buf ps c = Inr (map (\<lambda>(pid, data). (uc_si_peer c, le16 pid @ data)) ps)"
  using assms
proof (induction ps arbitrary: buf)
  case (Cons p ps)
  obtain pid data where p: "p = (pid, data)" by fastforce
  with Cons.prems have l: "length data + 2 \<le> length buf" "length data + 2 < 2 ^ 32" by simp_all
  have "length (le16 pid @ data @ drop (2 + length data) buf) = length buf" using l(1) by simp
  then have "send_packets (le16 pid @ data @ drop (2 + length data) buf) ps c
      = Inr (map (\<lambda>(pid, data). (uc_si_peer c, le16 pid @ data)) ps)"
    using Cons.prems by (intro Cons.IH) auto
  then show ?case using uc_send_datagram [OF l, of pid c] p by simp
qed simp

lemma recv_packets_deliver:
  assumes "\<forall>(pid, data) \<in> set ds. length data + 2 \<le> length buf \<and> length data + 2 < 2 ^ 32"
    and "deliver_all alloc ds (uc_recv_queue c) = Inr r"
  shows "\<exists>c'. recv_packets alloc (map (\<lambda>(pid, data). (src, le16 pid @ data)) ds) buf c = Inr c' \<and>
    uc_recv_queue c' = r \<and> uc_si_peer c' = (if ds = [] then uc_si_peer c else src)"
  using assms
proof (induction ds arbitrary: buf c)
  case (Cons p ds)
  obtain pid data where p: "p = (pid, data)" by fastforce
  with Cons.prems have l: "length data + 2 \<le> length buf" "length data + 2 < 2 ^ 32" by simp_all
  obtain q where q: "rq_push_packet alloc pid data (of_nat (length data)) (uc_recv_queue c) = Inr q"
    "deliver_all alloc ds q = Inr r" using Cons.prems(2) p by (auto split: sum.splits)
  obtain buf' where b: "length buf' = length buf"
    "recv_packet alloc (Some (src, le16 pid @ data)) buf c = (Inr True, buf', c\<lparr>uc_si_peer := src, uc_recv_queue := q\<rparr>)"
    using recv_datagram [OF l, of alloc src pid c] q(1) by auto
  have "\<exists>c'. recv_packets alloc (map (\<lambda>(pid, data). (src, le16 pid @ data)) ds) buf' (c\<lparr>uc_si_peer := src, uc_recv_queue := q\<rparr>) = Inr c' \<and>
    uc_recv_queue c' = r \<and> uc_si_peer c' = (if ds = [] then src else src)"
    using Cons.IH [of buf' "c\<lparr>uc_si_peer := src, uc_recv_queue := q\<rparr>"] Cons.prems(1) q(2) b(1)
    by (simp split: if_splits)
  then show ?case using b(2) p by simp
qed simp

section \<open>Properties\<close>

text \<open>
  (C9) Two connections carry a buffer end to end: pushed into a send queue, its packets sent as
  datagrams in any order and with repetitions, and taken in by the other connection with a buffer
  of its own, it is reassembled exactly; and the receiver's peer is whoever sent the datagrams.
\<close>

theorem connections_carry_buffer:
  assumes "sq_wf q" and "sq_mtu q \<noteq> 0" and "even (unat (sq_mtu q))"
    and "even (length data)" and "length data < 2 ^ 32"
    and "n = length (chunks (unat (sq_mtu q)) data)" and "n < 2 ^ 16"
    and "a = sq_end_seq q + 1" and "b = a + of_nat n"
    and "free_range (sq_packets q) a b" and "free_range (rq_packets (uc_recv_queue d)) a b"
    and "rq_wf (uc_recv_queue d)" and "rq_seq_mapping (uc_recv_queue d) = []"
  shows "\<exists>q'. push_buffer (\<lambda>_. True) data (of_nat (length data)) q = Some (None, q') \<and>
    (\<forall>ds sbuf rbuf dest. delivers q' a b ds \<longrightarrow> length data \<le> length dest \<longrightarrow>
      (\<forall>(pid, bs) \<in> set ds. length bs + 2 \<le> length sbuf \<and> length bs + 2 \<le> length rbuf \<and> length bs + 2 < 2 ^ 32) \<longrightarrow>
      (\<exists>dgs d'. send_packets sbuf ds c = Inr (map (Pair (uc_si_peer c)) dgs) \<and>
        recv_packets (\<lambda>_. True) (map (Pair src) dgs) rbuf d = Inr d' \<and>
        copy_data (uc_recv_queue d') dest a b = Some (Inr (data @ drop (length data) dest)) \<and>
        (ds \<noteq> [] \<longrightarrow> uc_si_peer d' = src)))"
proof -
  obtain q' where push: "push_buffer (\<lambda>_. True) data (of_nat (length data)) q = Some (None, q')"
    and re: "\<And>ds dest. delivers q' a b ds \<Longrightarrow> length data \<le> length dest \<Longrightarrow>
      \<exists>r'. deliver_all (\<lambda>_. True) ds (uc_recv_queue d) = Inr r' \<and>
        copy_data r' dest a b = Some (Inr (data @ drop (length data) dest))"
    using reassembly [OF assms] by blast
  have "\<exists>dgs d'. send_packets sbuf ds c = Inr (map (Pair (uc_si_peer c)) dgs) \<and>
        recv_packets (\<lambda>_. True) (map (Pair src) dgs) rbuf d = Inr d' \<and>
        copy_data (uc_recv_queue d') dest a b = Some (Inr (data @ drop (length data) dest)) \<and>
        (ds \<noteq> [] \<longrightarrow> uc_si_peer d' = src)"
    if ds: "delivers q' a b ds" "length data \<le> length dest"
      and fit: "\<forall>(pid, bs) \<in> set ds. length bs + 2 \<le> length sbuf \<and> length bs + 2 \<le> length rbuf \<and> length bs + 2 < 2 ^ 32"
    for ds sbuf rbuf dest
  proof -
    let ?dgs = "map (\<lambda>(pid, bs). le16 pid @ bs) ds"
    obtain r' where r': "deliver_all (\<lambda>_. True) ds (uc_recv_queue d) = Inr r'"
      "copy_data r' dest a b = Some (Inr (data @ drop (length data) dest))" using re [OF ds] by blast
    have 1: "send_packets sbuf ds c = Inr (map (Pair (uc_si_peer c)) ?dgs)"
      using send_packets_datagrams [of ds sbuf c] fit by (simp add: split_def)
    have "\<exists>d'. recv_packets (\<lambda>_. True) (map (\<lambda>(pid, bs). (src, le16 pid @ bs)) ds) rbuf d = Inr d' \<and>
      uc_recv_queue d' = r' \<and> uc_si_peer d' = (if ds = [] then uc_si_peer d else src)"
      using fit by (intro recv_packets_deliver r') auto
    then obtain d' where 2: "recv_packets (\<lambda>_. True) (map (Pair src) ?dgs) rbuf d = Inr d'" "uc_recv_queue d' = r'"
      "uc_si_peer d' = (if ds = [] then uc_si_peer d else src)" by (auto simp: split_def comp_def)
    show ?thesis using 1 2 r'(2) by (intro exI [of _ ?dgs] exI [of _ d']) simp
  qed
  then show ?thesis using push by blast
qed

theorem connections_carry_buffer_witness:
  "\<exists>q' dgs d'. push_buffer (\<lambda>_. True) [1, 2, 3, 4] 4 (sq_init\<lparr>sq_mtu := 2\<rparr>) = Some (None, q') \<and>
    send_packets [0, 0, 0, 0] [(2, [3, 4]), (1, [1, 2]), (2, [3, 4])]
      (uc_new \<lparr>sin_family = 2, sin_addr = 2, sin_port = 9\<rparr> [] 0) = Inr dgs \<and>
    copy_data (uc_recv_queue (d' :: udp4_connection)) [0, 0, 0, 0, 9] 1 3 = Some (Inr [1, 2, 3, 4, 9])"
proof -
  let ?q = "sq_init\<lparr>sq_mtu := 2\<rparr>" and ?data = "[1, 2, 3, 4] :: bytes"
  let ?ds = "[(2, [3, 4]), (1, [1, 2]), (2, [3, 4])] :: (u16 \<times> bytes) list"
  let ?c = "uc_new \<lparr>sin_family = 2, sin_addr = 2, sin_port = 9\<rparr> [] 0"
  let ?src = "\<lparr>sin_family = 2, sin_addr = 1, sin_port = 9\<rparr>"
  have two: "chunks 2 ?data = [[1, 2], [3, 4]]" by (simp add: chunks.simps)
  have h: "sq_wf ?q" "sq_mtu ?q \<noteq> 0" "even (unat (sq_mtu ?q))" "even (length ?data)" "length ?data < 2 ^ 32"
    "2 = length (chunks (unat (sq_mtu ?q)) ?data)" "(2 :: nat) < 2 ^ 16" "1 = sq_end_seq ?q + 1" "3 = 1 + (of_nat 2 :: u16)"
    "free_range (sq_packets ?q) 1 3" "free_range (rq_packets (uc_recv_queue ?c)) 1 3" "rq_wf (uc_recv_queue ?c)"
    "rq_seq_mapping (uc_recv_queue ?c) = []"
    by (simp_all add: two sq_wf_def wf_table_def sq_init_def free_range_def rq_init_def rq_wf_def uc_new_def
        setup_from_init_packet_def)
  from connections_carry_buffer [OF h, of ?c ?src] obtain q' where
    push: "push_buffer (\<lambda>_. True) ?data (of_nat (length ?data)) ?q = Some (None, q')"
    and all: "\<And>ds sbuf rbuf dest. delivers q' 1 3 ds \<Longrightarrow> length ?data \<le> length dest \<Longrightarrow>
      \<forall>(pid, bs) \<in> set ds. length bs + 2 \<le> length sbuf \<and> length bs + 2 \<le> length rbuf \<and> length bs + 2 < 2 ^ 32 \<Longrightarrow>
      \<exists>dgs d'. send_packets sbuf ds ?c = Inr (map (Pair (uc_si_peer ?c)) dgs) \<and>
        recv_packets (\<lambda>_. True) (map (Pair ?src) dgs) rbuf ?c = Inr d' \<and>
        copy_data (uc_recv_queue d') dest 1 3 = Some (Inr (?data @ drop (length ?data) dest))" by meson
  have "q' = ?q\<lparr>sq_end_seq := 2, sq_packets := [(1, descr_of [1, 2]), (2, descr_of [3, 4])]\<rparr>"
    using push by (simp add: push_buffer_def push_buffer_loop.simps sq_push_packet_def descr_new_def
        sq_init_def descr_of_def)
  then have del: "delivers q' 1 3 ?ds"
    by (auto simp: delivers_def seq_upto.simps descr_bytes_def descr_of_def)
  have len: "length ?data \<le> length ([0, 0, 0, 0, 9] :: bytes)"
    and fit: "\<forall>(pid, bs) \<in> set ?ds. length bs + 2 \<le> length ([0, 0, 0, 0] :: bytes) \<and>
      length bs + 2 \<le> length ([0, 0, 0, 0] :: bytes) \<and> length bs + 2 < 2 ^ 32" by simp_all
  from all [OF del len fit] obtain dgs and d' :: udp4_connection where "send_packets [0, 0, 0, 0] ?ds ?c = Inr (map (Pair (uc_si_peer ?c)) dgs)"
    "copy_data (uc_recv_queue d') [0, 0, 0, 0, 9] 1 3 = Some (Inr (?data @ drop (length ?data) [0, 0, 0, 0, 9]))"
    by (elim exE conjE) (rule that)
  then have "send_packets [0, 0, 0, 0] ?ds ?c = Inr (map (Pair (uc_si_peer ?c)) dgs)"
    "copy_data (uc_recv_queue d') [0, 0, 0, 0, 9] 1 3 = Some (Inr [1, 2, 3, 4, 9])"
    "push_buffer (\<lambda>_. True) [1, 2, 3, 4] 4 ?q = Some (None, q')" using push by simp_all
  then show ?thesis by blast
qed

text \<open>
  What a connection does with short datagrams: none at all leaves everything as it was, an
  empty one changes only the peer, and one of a single byte makes the packet size wrap to
  \<open>2\<^sup>32 - 1\<close>, so that the queue reads past the buffer.
\<close>

theorem short_datagrams:
  assumes "2 \<le> length buf" and "length buf < 2 ^ 31"
  shows "recv_packet alloc None buf c = (Inl Recvfrom_failed, buf, c) \<and>
    recv_packet alloc (Some (src, [])) buf c = (Inr False, buf, c\<lparr>uc_si_peer := src\<rparr>) \<and>
    (\<exists>e buf'. recv_packet alloc (Some (src, [x])) buf c = (Inl (Queue_error e), buf', c\<lparr>uc_si_peer := src\<rparr>) \<and>
      e = (if alloc (- 1) then Out_of_bounds else Bad_alloc))"
proof -
  obtain y z bs where buf: "buf = y # z # bs" using assms(1) by (cases buf; cases "tl buf") auto
  have u: "unat (- 1 :: u32) = 2 ^ 32 - 1" by (simp add: unsigned_minus_1_eq_mask mask_eq_exp_minus_1)
  have "length bs < unat (- 1 :: u32)" using assms(2) buf by (simp only: u) simp
  then show ?thesis by (simp add: recv_packet_def buf Let_def rq_push_packet_def descr_new_def)
qed

theorem short_datagrams_witness:
  "fst (recv_packet (\<lambda>n. True) (Some (\<lparr>sin_family = 2, sin_addr = 1, sin_port = 9\<rparr>, [7])) [0, 0, 0, 0]
     (uc_new \<lparr>sin_family = 2, sin_addr = 2, sin_port = 9\<rparr> [] 0)) = Inl (Queue_error Out_of_bounds)"
proof -
  have "2 \<le> length ([0, 0, 0, 0] :: bytes)" "length ([0, 0, 0, 0] :: bytes) < 2 ^ 31" by simp_all
  from short_datagrams [OF this, of "\<lambda>n. True" "uc_new \<lparr>sin_family = 2, sin_addr = 2, sin_port = 9\<rparr> [] 0"
      "\<lparr>sin_family = 2, sin_addr = 1, sin_port = 9\<rparr>" 7]
  show ?thesis by auto
qed

end
