(* ===== verification/Guards.thy ===== *)
theory Guards
  imports Main "HOL-Library.Multiset"
begin

text \<open>
  The owners of resources: \<open>SocketGuard\<close> (\<open>net/socket.h\<close>) and \<open>GuardPointer\<close>
  (\<open>utils/common.h\<close>). Each operation returns the guards it leaves and the resources it released
  (the file descriptors closed, the pointers freed), in order. The locale \<open>resource_guard\<close> is
  their common contract; from it follows that no program of guard operations releases a resource
  twice or loses one.
\<close>

section \<open>SocketGuard\<close>

record socket_guard =
  sg_fd :: int

definition sg_empty :: socket_guard where
  "sg_empty = \<lparr>sg_fd = - 1\<rparr>"

definition sg_new :: "int \<Rightarrow> socket_guard" where
  "sg_new fd = \<lparr>sg_fd = fd\<rparr>"

definition sg_handle :: "socket_guard \<Rightarrow> int \<times> socket_guard" where
  "sg_handle g = (sg_fd g, g\<lparr>sg_fd := - 1\<rparr>)"

definition sg_clear :: "socket_guard \<Rightarrow> socket_guard \<times> int list" where
  "sg_clear g = (if sg_fd g \<ge> 0 then (g\<lparr>sg_fd := - 1\<rparr>, [sg_fd g]) else (g, []))"

text \<open>The move constructor: the new guard and the one moved from.\<close>

definition sg_move :: "socket_guard \<Rightarrow> socket_guard \<times> socket_guard" where
  "sg_move other = (let (fd, other') = sg_handle other in (\<lparr>sg_fd = fd\<rparr>, other'))"

text \<open>Move assignment, between two guards and from a guard to itself.\<close>

definition sg_assign :: "socket_guard \<Rightarrow> socket_guard \<Rightarrow> socket_guard \<times> socket_guard \<times> int list" where
  "sg_assign this other =
     (let (this1, closed) = sg_clear this; (fd, other') = sg_handle other
      in (this1\<lparr>sg_fd := fd\<rparr>, other', closed))"

definition sg_self_assign :: "socket_guard \<Rightarrow> socket_guard \<times> int list" where
  "sg_self_assign this =
     (let (this1, closed) = sg_clear this; (fd, this2) = sg_handle this1
      in (this2\<lparr>sg_fd := fd\<rparr>, closed))"

text \<open>A negative descriptor, of a call that failed, is no resource.\<close>

definition sg_held :: "socket_guard \<Rightarrow> int option" where
  "sg_held g = (if sg_fd g \<ge> 0 then Some (sg_fd g) else None)"

definition sg_take :: "socket_guard \<Rightarrow> int option \<times> socket_guard" where
  "sg_take g = (let (fd, g') = sg_handle g in (if fd \<ge> 0 then Some fd else None, g'))"

section \<open>GuardPointer\<close>

record guard_pointer =
  gp_ptr :: "nat option"

definition gp_empty :: guard_pointer where
  "gp_empty = \<lparr>gp_ptr = None\<rparr>"

definition gp_new :: "nat \<Rightarrow> guard_pointer" where
  "gp_new p = \<lparr>gp_ptr = Some p\<rparr>"

definition gp_free :: "nat option \<Rightarrow> nat list" where
  "gp_free p = (case p of None \<Rightarrow> [] | Some x \<Rightarrow> [x])"

definition gp_move :: "guard_pointer \<Rightarrow> guard_pointer \<times> guard_pointer" where
  "gp_move other = (\<lparr>gp_ptr = gp_ptr other\<rparr>, other\<lparr>gp_ptr := None\<rparr>)"

definition gp_assign :: "guard_pointer \<Rightarrow> guard_pointer \<Rightarrow> guard_pointer \<times> guard_pointer \<times> nat list" where
  "gp_assign this other = (this\<lparr>gp_ptr := gp_ptr other\<rparr>, other\<lparr>gp_ptr := None\<rparr>, gp_free (gp_ptr this))"

text \<open>Assigning a guard to itself frees the pointer and leaves null: the last write wins.\<close>

definition gp_self_assign :: "guard_pointer \<Rightarrow> guard_pointer \<times> nat list" where
  "gp_self_assign this =
     (let freed = gp_free (gp_ptr this); this1 = this\<lparr>gp_ptr := gp_ptr this\<rparr>
      in (this1\<lparr>gp_ptr := None\<rparr>, freed))"

definition gp_handle :: "guard_pointer \<Rightarrow> nat option \<times> guard_pointer" where
  "gp_handle g = (gp_ptr g, g\<lparr>gp_ptr := None\<rparr>)"

text \<open>The destructor; the object is gone, so what is left counts as empty.\<close>

definition gp_destroy :: "guard_pointer \<Rightarrow> guard_pointer \<times> nat list" where
  "gp_destroy g = (g\<lparr>gp_ptr := None\<rparr>, gp_free (gp_ptr g))"

section \<open>Programs of guard operations\<close>

text \<open>
  A program works on a list of guard variables. \<open>Acquire\<close> constructs a guard from a resource in
  an empty variable, \<open>Move\<close> constructs one from another, \<open>Handle\<close> hands the resource out.
\<close>

datatype 'r guard_op =
    Acquire nat 'r
  | Move nat nat
  | Assign nat nat
  | Handle nat
  | Destroy nat

record ('g, 'r) guard_class =
  gc_held :: "'g \<Rightarrow> 'r option"
  gc_new :: "'r \<Rightarrow> 'g"
  gc_move :: "'g \<Rightarrow> 'g \<times> 'g"
  gc_assign :: "'g \<Rightarrow> 'g \<Rightarrow> 'g \<times> 'g \<times> 'r list"
  gc_self_assign :: "'g \<Rightarrow> 'g \<times> 'r list"
  gc_handle :: "'g \<Rightarrow> 'r option \<times> 'g"
  gc_destroy :: "'g \<Rightarrow> 'g \<times> 'r list"

definition socket_class :: "(socket_guard, int) guard_class" where
  "socket_class = \<lparr>gc_held = sg_held, gc_new = sg_new, gc_move = sg_move, gc_assign = sg_assign,
     gc_self_assign = sg_self_assign, gc_handle = sg_take, gc_destroy = sg_clear\<rparr>"

definition pointer_class :: "(guard_pointer, nat) guard_class" where
  "pointer_class = \<lparr>gc_held = gp_ptr, gc_new = gp_new, gc_move = gp_move, gc_assign = gp_assign,
     gc_self_assign = gp_self_assign, gc_handle = gp_handle, gc_destroy = gp_destroy\<rparr>"

text \<open>A step that would construct a guard over a used variable does not happen.\<close>

definition opt_list :: "'a option \<Rightarrow> 'a list" where
  "opt_list p = (case p of None \<Rightarrow> [] | Some x \<Rightarrow> [x])"

fun guard_step ::
  "('g, 'r) guard_class \<Rightarrow> 'r guard_op \<Rightarrow> 'g list \<Rightarrow> ('g list \<times> 'r list \<times> 'r list \<times> 'r list) option" where
  "guard_step c (Acquire i r) gs =
     (if i < length gs \<and> gc_held c (gs ! i) = None
      then Some (gs[i := gc_new c r], opt_list (gc_held c (gc_new c r)), [], []) else None)"
| "guard_step c (Move i j) gs =
     (if i < length gs \<and> j < length gs \<and> i \<noteq> j \<and> gc_held c (gs ! i) = None
      then (let (new, old) = gc_move c (gs ! j) in Some (gs[i := new, j := old], [], [], [])) else None)"
| "guard_step c (Assign i j) gs =
     (if i < length gs \<and> j < length gs then
        if i = j then (let (g, rel) = gc_self_assign c (gs ! i) in Some (gs[i := g], [], rel, []))
        else (let (a, b, rel) = gc_assign c (gs ! i) (gs ! j) in Some (gs[i := a, j := b], [], rel, []))
      else None)"
| "guard_step c (Handle i) gs =
     (if i < length gs then (let (r, g) = gc_handle c (gs ! i) in Some (gs[i := g], [], [], opt_list r)) else None)"
| "guard_step c (Destroy i) gs =
     (if i < length gs then (let (g, rel) = gc_destroy c (gs ! i) in Some (gs[i := g], [], rel, [])) else None)"

text \<open>A program's variables at the end, and what it acquired, released and handed out.\<close>

fun guard_run ::
  "('g, 'r) guard_class \<Rightarrow> 'r guard_op list \<Rightarrow> 'g list \<Rightarrow> ('g list \<times> 'r list \<times> 'r list \<times> 'r list) option" where
  "guard_run c [] gs = Some (gs, [], [], [])"
| "guard_run c (p # ps) gs =
     (case guard_step c p gs of
        None \<Rightarrow> None
      | Some (gs1, acq, rel, out) \<Rightarrow>
          (case guard_run c ps gs1 of
             None \<Rightarrow> None
           | Some (gs2, acq', rel', out') \<Rightarrow> Some (gs2, acq @ acq', rel @ rel', out @ out')))"

section \<open>The contract\<close>

definition held_bag :: "('g, 'r) guard_class \<Rightarrow> 'g \<Rightarrow> 'r multiset" where
  "held_bag c g = mset (opt_list (gc_held c g))"

definition bag :: "('g, 'r) guard_class \<Rightarrow> 'g list \<Rightarrow> 'r multiset" where
  "bag c gs = sum_list (map (held_bag c) gs)"

lemma sum_list_upd:
  fixes f :: "'g \<Rightarrow> 'r multiset"
  shows "i < length gs \<Longrightarrow> sum_list (map f (gs[i := g])) + f (gs ! i) = sum_list (map f gs) + f g"
proof (induction gs arbitrary: i)
  case (Cons x gs)
  then show ?case by (cases i) (auto simp: ac_simps)
qed simp

lemma bag_upd: "i < length gs \<Longrightarrow> bag c (gs[i := g]) + held_bag c (gs ! i) = bag c gs + held_bag c g"
  by (simp add: bag_def sum_list_upd)

locale resource_guard =
  fixes c :: "('g, 'r) guard_class"
  assumes move_law: "held_bag c (fst (gc_move c g)) = held_bag c g \<and> held_bag c (snd (gc_move c g)) = {#}"
    and assign_law: "gc_assign c a b = (a', b', rel) \<Longrightarrow>
      held_bag c a' = held_bag c b \<and> held_bag c b' = {#} \<and> mset rel = held_bag c a"
    and self_assign_law: "gc_self_assign c g = (g', rel) \<Longrightarrow> held_bag c g' + mset rel = held_bag c g"
    and handle_law: "gc_handle c g = (r, g') \<Longrightarrow> held_bag c g' = {#} \<and> mset (opt_list r) = held_bag c g"
    and destroy_law: "gc_destroy c g = (g', rel) \<Longrightarrow> held_bag c g' = {#} \<and> mset rel = held_bag c g"
begin

lemma self_assign_conserves:
  assumes "gc_self_assign c (gs ! i) = (g, rel)" and "i < length gs"
  shows "bag c gs = bag c (gs[i := g]) + mset rel"
proof -
  have "bag c (gs[i := g]) + (held_bag c g + mset rel) = bag c gs + held_bag c g"
    unfolding self_assign_law [OF assms(1)] by (rule bag_upd [OF assms(2)])
  then have "(bag c (gs[i := g]) + mset rel) + held_bag c g = bag c gs + held_bag c g" by (simp only: ac_simps)
  then show ?thesis by simp
qed

lemma assign_conserves:
  assumes "gc_assign c (gs ! i) (gs ! j) = (a, b, rel)" and "i < length gs" "j < length gs" "i \<noteq> j"
  shows "bag c gs = bag c (gs[i := a, j := b]) + mset rel"
proof -
  have h: "held_bag c a = held_bag c (gs ! j)" "held_bag c b = {#}" "mset rel = held_bag c (gs ! i)"
    using assign_law [OF assms(1)] by simp_all
  have 1: "bag c (gs[i := a, j := b]) + held_bag c (gs ! j) = bag c (gs[i := a])"
    using bag_upd [of j "gs[i := a]" c b] assms(2-4) h(2) by simp
  have "(bag c (gs[i := a, j := b]) + mset rel) + held_bag c (gs ! j) = bag c (gs[i := a]) + held_bag c (gs ! i)"
    unfolding 1 [symmetric] h(3) by (simp only: ac_simps)
  also have "\<dots> = bag c gs + held_bag c (gs ! j)" using bag_upd [OF assms(2), of c a] h(1) by simp
  finally show ?thesis by simp
qed

lemma step_conserves:
  assumes "guard_step c p gs = Some (gs', acq, rel, out)"
  shows "bag c gs + mset acq = bag c gs' + mset rel + mset out"
proof (cases p)
  case (Acquire i r)
  then show ?thesis using assms bag_upd [of i gs c "gc_new c r"]
    by (auto simp: held_bag_def opt_list_def split: if_splits)
next
  case (Move i j)
  then obtain new old where m: "gc_move c (gs ! j) = (new, old)" and ij: "i < length gs" "j < length gs" "i \<noteq> j"
    "gc_held c (gs ! i) = None" and r: "gs' = gs[i := new, j := old]" "acq = []" "rel = []" "out = []"
    using assms by (auto split: if_splits prod.splits)
  have h: "held_bag c new = held_bag c (gs ! j)" "held_bag c old = {#}" using move_law [of "gs ! j"] m by simp_all
  have e: "held_bag c (gs ! i) = {#}" using ij by (simp add: held_bag_def opt_list_def)
  show ?thesis using bag_upd [of j "gs[i := new]" c old] bag_upd [of i gs c new] ij h e r by simp
next
  case (Assign i j)
  show ?thesis
  proof (cases "i = j")
    case True
    then show ?thesis using assms Assign self_assign_conserves by (auto split: if_splits prod.splits)
  next
    case False
    then show ?thesis using assms Assign assign_conserves by (auto split: if_splits prod.splits)
  qed
next
  case (Handle i)
  then obtain r g where s: "gc_handle c (gs ! i) = (r, g)" and i: "i < length gs"
    and r: "gs' = gs[i := g]" "acq = []" "rel = []" "out = opt_list r"
    using assms by (auto split: if_splits prod.splits)
  then show ?thesis using handle_law [OF s] bag_upd [OF i, of c g] by simp
next
  case (Destroy i)
  then obtain g where s: "gc_destroy c (gs ! i) = (g, rel)" and i: "i < length gs"
    and r: "gs' = gs[i := g]" "acq = []" "out = []"
    using assms by (auto split: if_splits prod.splits)
  then show ?thesis using destroy_law [OF s] bag_upd [OF i, of c g] by simp
qed

lemma run_conserves:
  "guard_run c ps gs = Some (gs', acq, rel, out) \<Longrightarrow> bag c gs + mset acq = bag c gs' + mset rel + mset out"
proof (induction ps arbitrary: gs acq rel out)
  case (Cons p ps)
  then obtain gs1 a1 r1 o1 a2 r2 o2 where 1: "guard_step c p gs = Some (gs1, a1, r1, o1)"
    and 2: "guard_run c ps gs1 = Some (gs', a2, r2, o2)" and eq: "acq = a1 @ a2" "rel = r1 @ r2" "out = o1 @ o2"
    by (auto split: option.splits)
  have "bag c gs + mset acq = (bag c gs1 + mset r1 + mset o1) + mset a2"
    using step_conserves [OF 1] eq by (simp add: ac_simps)
  also have "\<dots> = (bag c gs1 + mset a2) + mset r1 + mset o1" by (simp add: ac_simps)
  also have "\<dots> = bag c gs' + mset rel + mset out" using Cons.IH [OF 2] eq by (simp add: ac_simps)
  finally show ?case .
qed simp

end

lemmas sg_defs = socket_class_def sg_held_def sg_new_def sg_move_def sg_assign_def sg_self_assign_def
  sg_take_def sg_handle_def sg_clear_def

lemmas gp_defs = pointer_class_def gp_new_def gp_move_def gp_assign_def gp_self_assign_def
  gp_handle_def gp_destroy_def gp_free_def

interpretation sock: resource_guard socket_class
  by unfold_locales (auto simp: held_bag_def opt_list_def sg_defs split: if_splits)

interpretation gptr: resource_guard pointer_class
  by unfold_locales (auto simp: held_bag_def opt_list_def gp_defs split: option.splits)

section \<open>Properties\<close>

text \<open>
  (C14) Guards neither leak nor release twice: whatever a program does with socket guards and with
  pointer guards, including moves and self-assignments, every resource acquired is, once each, in
  a guard at the end, or released, or handed out.
\<close>

theorem guards_conserve_resources:
  "(guard_run socket_class ps (replicate n sg_empty) = Some (gs, acq, rel, out) \<longrightarrow>
      mset acq = bag socket_class gs + mset rel + mset out) \<and>
   (guard_run pointer_class qs (replicate n gp_empty) = Some (hs, acq', rel', out') \<longrightarrow>
      mset acq' = bag pointer_class hs + mset rel' + mset out')"
proof -
  have "bag socket_class (replicate n sg_empty) = {#}"
    by (induction n) (simp_all add: bag_def held_bag_def opt_list_def socket_class_def sg_held_def sg_empty_def)
  moreover have "bag pointer_class (replicate n gp_empty) = {#}"
    by (induction n) (simp_all add: bag_def held_bag_def opt_list_def pointer_class_def gp_empty_def)
  ultimately show ?thesis
    using sock.run_conserves [of ps "replicate n sg_empty" gs acq rel out]
      gptr.run_conserves [of qs "replicate n gp_empty" hs acq' rel' out'] by auto
qed

theorem guards_conserve_resources_witness:
  "\<exists>gs acq rel out. guard_run socket_class [Acquire 0 5, Move 1 0, Acquire 0 6, Assign 0 1, Handle 0] (replicate 2 sg_empty)
      = Some (gs, acq, rel, out) \<and> mset acq = bag socket_class gs + mset rel + mset out \<and> rel = [6]"
proof -
  have r: "guard_run socket_class [Acquire 0 5, Move 1 0, Acquire 0 6, Assign 0 1, Handle 0] (replicate 2 sg_empty)
      = Some ([\<lparr>sg_fd = - 1\<rparr>, \<lparr>sg_fd = - 1\<rparr>], [5, 6], [6], [5])"
    by (simp add: sg_defs sg_empty_def opt_list_def numeral_2_eq_2)
  from guards_conserve_resources [THEN conjunct1, THEN mp, OF r] r show ?thesis by blast
qed

end
