(* ===== verification/Tcp_Socket.thy ===== *)
theory Tcp_Socket
  imports Prelude Guards
begin

text \<open>
  \<open>net/socket.cc\<close> and the socket calls of \<open>net/tcpv4.cc\<close>, and the thread of \<open>conn/peers.cc\<close> that
  listens for peers. A system call is a parameter: the function from the arguments the code passes
  to what it returns. The descriptors opened and closed are logged.
\<close>

section \<open>Checked calls\<close>

datatype net_exc = Connection_error string

text \<open>\<open>ccall\<close> takes negative results for failures; of the message, the description is kept.\<close>

definition ccall :: "string \<Rightarrow> int \<Rightarrow> net_exc option" where
  "ccall descr ret_val = (if ret_val < 0 then Some (Connection_error descr) else None)"

section \<open>Socket flags\<close>

definition O_NONBLOCK :: u32 where
  "O_NONBLOCK = 0x800"

text \<open>\<open>fcntl(F_GETFL)\<close> returns flags or a negative number, \<open>fcntl(F_SETFL)\<close> a result.\<close>

definition set_socket_blocking :: "int + u32 \<Rightarrow> (u32 \<Rightarrow> int) \<Rightarrow> bool \<Rightarrow> net_exc + u32" where
  "set_socket_blocking getfl setfl blocking =
     (case getfl of
        Inl r \<Rightarrow> Inl (Connection_error ''getting flags'')
      | Inr old_flags \<Rightarrow>
          (let flags = (if blocking then old_flags AND NOT O_NONBLOCK else old_flags OR O_NONBLOCK)
           in if flags \<noteq> old_flags then
                (case ccall ''setting flags'' (setfl flags) of Some e \<Rightarrow> Inl e | None \<Rightarrow> Inr flags)
              else Inr flags))"

lemma set_socket_blocking_bit:
  assumes "set_socket_blocking getfl setfl blocking = Inr flags"
  shows "bit flags 11 \<longleftrightarrow> \<not> blocking"
proof -
  have b: "bit O_NONBLOCK 11" by (simp add: O_NONBLOCK_def bit_numeral_rec)
  have "\<exists>old. flags = (if blocking then old AND NOT O_NONBLOCK else old OR O_NONBLOCK)"
    using assms
    by (cases getfl; cases blocking; cases "0 > setfl flags")
      (auto simp: set_socket_blocking_def ccall_def Let_def split: if_splits intro: sym)
  then obtain old where "flags = (if blocking then old AND NOT O_NONBLOCK else old OR O_NONBLOCK)" ..
  then show ?thesis using b by (auto simp: bit_simps)
qed

text \<open>The timeout itself is computed in \<open>Waiting\<close>; the call is checked here.\<close>

definition set_socket_timeout :: "int \<Rightarrow> net_exc option" where
  "set_socket_timeout setsockopt_result = ccall ''setting timeout'' setsockopt_result"

section \<open>The calls of tcpv4.cc\<close>

definition SOCK_STREAM :: u32 where
  "SOCK_STREAM = 1"

definition SOCK_NONBLOCK :: u32 where
  "SOCK_NONBLOCK = 0x800"

definition AF_UNSPEC :: u16 where
  "AF_UNSPEC = 0"

definition INADDR_ANY :: u32 where
  "INADDR_ANY = 0"

definition tcpv4_new_socket :: "(u32 \<Rightarrow> int) \<Rightarrow> bool \<Rightarrow> net_exc + int" where
  "tcpv4_new_socket socket blocking =
     (let flags = (if blocking then 0 else SOCK_NONBLOCK); fd = socket (SOCK_STREAM OR flags)
      in case ccall ''creating socket'' fd of Some e \<Rightarrow> Inl e | None \<Rightarrow> Inr fd)"

definition tcpv4_close_socket :: "int \<Rightarrow> net_exc option" where
  "tcpv4_close_socket close_result = ccall ''closing socket'' close_result"

definition tcpv4_bind_port :: "(sockaddr_in \<Rightarrow> int) \<Rightarrow> u16 \<Rightarrow> u32 \<Rightarrow> net_exc option" where
  "tcpv4_bind_port bind src_port src_addr =
     ccall ''binding port'' (bind \<lparr>sin_family = AF_INET, sin_addr = src_addr, sin_port = src_port\<rparr>)"

definition tcpv4_connect :: "(sockaddr_in \<Rightarrow> int) \<Rightarrow> u16 \<Rightarrow> u32 \<Rightarrow> net_exc option" where
  "tcpv4_connect connect dst_port dst_addr =
     ccall ''connecting'' (connect \<lparr>sin_family = AF_INET, sin_addr = dst_addr, sin_port = dst_port\<rparr>)"

definition tcpv4_connect_unsafe :: "(sockaddr_in \<Rightarrow> int) \<Rightarrow> u16 \<Rightarrow> u32 \<Rightarrow> int" where
  "tcpv4_connect_unsafe connect dst_port dst_addr =
     connect \<lparr>sin_family = AF_INET, sin_addr = dst_addr, sin_port = dst_port\<rparr>"

text \<open>Only the family of the address is set; \<open>garbage\<close> is what the rest holds.\<close>

definition tcpv4_connect_abort :: "(sockaddr_in \<Rightarrow> int) \<Rightarrow> sockaddr_in \<Rightarrow> net_exc option" where
  "tcpv4_connect_abort connect garbage =
     ccall ''aborting connection'' (connect (garbage\<lparr>sin_family := AF_UNSPEC\<rparr>))"

definition tcpv4_listen :: "(int \<Rightarrow> int) \<Rightarrow> int \<Rightarrow> net_exc option" where
  "tcpv4_listen listen backlog = ccall ''listening'' (listen backlog)"

definition tcpv4_accept_unsafe :: "(u32 \<Rightarrow> int \<times> sockaddr_in) \<Rightarrow> bool \<Rightarrow> int \<times> sockaddr_in" where
  "tcpv4_accept_unsafe accept4 create_blocking = accept4 (if create_blocking then 0 else SOCK_NONBLOCK)"

definition tcpv4_accept :: "(u32 \<Rightarrow> int \<times> sockaddr_in) \<Rightarrow> bool \<Rightarrow> net_exc + int \<times> sockaddr_in" where
  "tcpv4_accept accept4 create_blocking =
     (let flags = (if create_blocking then 0 else SOCK_NONBLOCK); ret = accept4 flags
      in case ccall ''accepting'' (fst ret) of Some e \<Rightarrow> Inl e | None \<Rightarrow> Inr ret)"

lemmas tcp_call_defs = ccall_def set_socket_timeout_def tcpv4_new_socket_def tcpv4_bind_port_def tcpv4_connect_def
  tcpv4_connect_unsafe_def tcpv4_listen_def tcpv4_accept_def tcpv4_accept_unsafe_def

section \<open>Descriptors\<close>

text \<open>
  What happened so far: the descriptors opened and closed, and the addresses bound. A guard closes
  what it holds when it is destroyed.
\<close>

record net_log =
  nl_opened :: "int list"
  nl_closed :: "int list"
  nl_bound :: "(u16 \<times> u32) list"

definition empty_log :: net_log where
  "empty_log = \<lparr>nl_opened = [], nl_closed = [], nl_bound = []\<rparr>"

definition log_open :: "int \<Rightarrow> net_log \<Rightarrow> net_log" where
  "log_open fd l = l\<lparr>nl_opened := nl_opened l @ [fd]\<rparr>"

definition log_close :: "int list \<Rightarrow> net_log \<Rightarrow> net_log" where
  "log_close fds l = l\<lparr>nl_closed := nl_closed l @ fds\<rparr>"

definition log_destroy :: "socket_guard \<Rightarrow> net_log \<Rightarrow> net_log" where
  "log_destroy g l = log_close (snd (sg_clear g)) l"

definition log_bind :: "u16 \<Rightarrow> u32 \<Rightarrow> net_log \<Rightarrow> net_log" where
  "log_bind port addr l = l\<lparr>nl_bound := nl_bound l @ [(port, addr)]\<rparr>"

lemmas log_defs = log_open_def log_close_def log_destroy_def log_bind_def

section \<open>Listening for peers\<close>

text \<open>
  The loop of \<open>peer_listen_thread\<close>, over what each \<open>accept4\<close> returns; \<open>None\<close> when it goes on after
  the last of them. The descriptor accepted is assigned to the guard of the iteration, which is
  destroyed at its end. A failed \<open>accept\<close> ends the thread.
\<close>

fun listen_loop :: "socket_guard \<Rightarrow> (u32 \<Rightarrow> int \<times> sockaddr_in) list \<Rightarrow> net_log \<Rightarrow> net_log option" where
  "listen_loop s [] l = None"
| "listen_loop s (accept4 # accepts) l =
     (let peer_socket = sg_empty
      in case tcpv4_accept accept4 True of
           Inl e \<Rightarrow> Some (log_destroy s (log_destroy peer_socket l))
         | Inr (new_fd, addr) \<Rightarrow>
             (case sg_assign peer_socket (sg_new new_fd) of
                (peer_socket', temporary, closed) \<Rightarrow>
                  listen_loop s accepts
                    (log_destroy peer_socket' (log_destroy temporary (log_close closed (log_open new_fd l))))))"

definition peer_listen_thread ::
  "u16 \<Rightarrow> (u32 \<Rightarrow> int) \<Rightarrow> (sockaddr_in \<Rightarrow> int) \<Rightarrow> (int \<Rightarrow> int) \<Rightarrow> (u32 \<Rightarrow> int \<times> sockaddr_in) list
    \<Rightarrow> (net_exc option \<times> net_log) option" where
  "peer_listen_thread port socket bind listen accepts =
     (case tcpv4_new_socket socket True of
        Inl e \<Rightarrow> Some (Some e, empty_log)
      | Inr fd \<Rightarrow>
          (let s = sg_new fd; l = log_bind (htons port) INADDR_ANY (log_open fd empty_log)
           in case tcpv4_bind_port bind (htons port) INADDR_ANY of
                Some e \<Rightarrow> Some (Some e, log_destroy s l)
              | None \<Rightarrow>
                  (case tcpv4_listen listen 4 of
                     Some e \<Rightarrow> Some (Some e, log_destroy s l)
                   | None \<Rightarrow> map_option (\<lambda>l. (None, l)) (listen_loop s accepts l))))"

lemma listen_loop_closes:
  assumes "0 \<le> sg_fd s"
  shows "listen_loop s accepts l =
    (let fds = map (\<lambda>accept4. fst (accept4 0)) accepts; served = takeWhile (\<lambda>fd. 0 \<le> fd) fds
     in if served = fds then None
        else Some (log_close (served @ [sg_fd s]) (l\<lparr>nl_opened := nl_opened l @ served\<rparr>)))"
  using assms
proof (induction s accepts l rule: listen_loop.induct)
  case (2 s a accepts l)
  obtain fd addr where a: "a 0 = (fd, addr)" by fastforce
  show ?case
  proof (cases "fd < 0")
    case True
    then show ?thesis using a "2.prems"
      by (simp add: tcp_call_defs log_defs sg_empty_def sg_clear_def)
  next
    case False
    let ?l = "l\<lparr>nl_opened := nl_opened l @ [fd], nl_closed := nl_closed l @ [fd]\<rparr>"
    have acc: "tcpv4_accept a True = Inr (fd, addr)" using a False by (simp add: tcp_call_defs)
    have asg: "sg_assign sg_empty (sg_new fd) = (\<lparr>sg_fd = fd\<rparr>, \<lparr>sg_fd = - 1\<rparr>, [])"
      by (simp add: sg_assign_def sg_empty_def sg_new_def sg_clear_def sg_handle_def)
    have lg: "log_destroy \<lparr>sg_fd = fd\<rparr> (log_destroy \<lparr>sg_fd = - 1\<rparr> (log_close [] (log_open fd l))) = ?l"
      using False by (simp add: log_defs sg_clear_def)
    have "listen_loop s (a # accepts) l = listen_loop s accepts ?l" using acc asg lg by simp
    also have "\<dots> = (let fds = map (\<lambda>accept4. fst (accept4 0)) accepts; served = takeWhile (\<lambda>fd. 0 \<le> fd) fds
     in if served = fds then None
        else Some (log_close (served @ [sg_fd s]) (?l\<lparr>nl_opened := nl_opened ?l @ served\<rparr>)))"
      using "2.IH" [OF refl acc refl asg [symmetric] refl "2.prems"] unfolding lg .
    finally show ?thesis using a False by (simp add: Let_def log_defs)
  qed
qed simp

section \<open>Properties\<close>

text \<open>
  The listening thread closes every connection as soon as it has accepted it, in order and
  once, so no peer is ever served; it runs until \<open>accept4\<close> fails, and then ends without an
  exception with every descriptor closed. If the socket cannot be made, bound or listened on, it
  throws, and what was opened is closed.
\<close>

theorem listen_thread_closes:
  "peer_listen_thread port socket bind listen accepts =
     (let fd = socket SOCK_STREAM; here = \<lparr>sin_family = AF_INET, sin_addr = 0, sin_port = htons port\<rparr>;
          fds = map (\<lambda>accept4. fst (accept4 0)) accepts; served = takeWhile (\<lambda>fd. 0 \<le> fd) fds;
          log = (\<lambda>fds. \<lparr>nl_opened = fd # fds, nl_closed = fds @ [fd], nl_bound = [(htons port, 0)]\<rparr>)
      in if fd < 0 then Some (Some (Connection_error ''creating socket''), empty_log)
         else if bind here < 0 then Some (Some (Connection_error ''binding port''), log [])
         else if listen 4 < 0 then Some (Some (Connection_error ''listening''), log [])
         else if served = fds then None
         else Some (None, log served))"
proof (cases "socket SOCK_STREAM < 0")
  case True
  then show ?thesis by (simp add: peer_listen_thread_def tcp_call_defs)
next
  case False
  then have "0 \<le> sg_fd (sg_new (socket SOCK_STREAM))" by (simp add: sg_new_def)
  note loop = listen_loop_closes [OF this, unfolded sg_new_def]
  have new: "tcpv4_new_socket socket True = Inr (socket SOCK_STREAM)" using False by (simp add: tcp_call_defs)
  show ?thesis using False
    by (simp add: peer_listen_thread_def new loop Let_def sg_new_def tcp_call_defs log_defs sg_clear_def empty_log_def
        INADDR_ANY_def)
qed

end
