(* ===== verification/Hole_Punch.thy ===== *)
theory Hole_Punch
  imports Tcp_Socket
begin

text \<open>
  \<open>tcpv4_hole_punch\<close> of \<open>net/tcpv4.cc\<close>: establishing a TCP connection between two peers that both
  try to connect and to accept. The system calls are given by what they return in each attempt.
  The waiting times, which do not influence which sockets are opened, closed or returned, are in
  \<open>Waiting\<close>.
\<close>

section \<open>The calls of one attempt\<close>

record attempt =
  at_socket :: int
  at_bind :: int
  at_timeout :: int
  at_listen :: int
  at_accept_fd :: int
  at_accept_ip :: u32
  at_accept_port :: u16
  at_connect :: int

record hole_punch_settings =
  hp_src_port :: u16
  hp_src_addr :: u32
  hp_dst_port :: u16
  hp_dst_addr :: u32
  hp_listen_first :: bool
  hp_connect_count :: u32

datatype outcome = Return int | Throw net_exc | Next_attempt

text \<open>\<open>settings.src_addr || INADDR_ANY\<close> is a truth value: 1 for every source address but 0.\<close>

definition bind_addr :: "hole_punch_settings \<Rightarrow> u32" where
  "bind_addr st = of_bool (hp_src_addr st \<noteq> 0 \<or> INADDR_ANY \<noteq> 0)"

definition accepted :: "attempt \<Rightarrow> int \<times> sockaddr_in" where
  "accepted a = (at_accept_fd a,
     \<lparr>sin_family = AF_INET, sin_addr = at_accept_ip a, sin_port = at_accept_port a\<rparr>)"

definition try_listen :: "hole_punch_settings \<Rightarrow> attempt \<Rightarrow> net_log \<Rightarrow> outcome \<times> net_log" where
  "try_listen st a l =
     (case tcpv4_listen (\<lambda>_. at_listen a) 1 of
        Some e \<Rightarrow> (Throw e, l)
      | None \<Rightarrow>
          (let (new_fd, addr) = tcpv4_accept_unsafe (\<lambda>_. accepted a) True
           in if new_fd \<ge> 0 then
                (let l' = log_open new_fd l
                 in if sin_addr addr \<noteq> hp_dst_addr st then (Throw (Connection_error ''Incorrent peer ip''), l')
                    else if sin_port addr \<noteq> hp_dst_port st then (Throw (Connection_error ''Incorrent peer port''), l')
                    else (Return new_fd, l'))
              else (Next_attempt, l)))"

text \<open>One pass through the loop body. The main socket is owned by a guard.\<close>

definition punch_attempt ::
  "hole_punch_settings \<Rightarrow> bool \<Rightarrow> attempt \<Rightarrow> net_log \<Rightarrow> outcome \<times> net_log" where
  "punch_attempt st listen a l0 =
     (case tcpv4_new_socket (\<lambda>_. at_socket a) True of
        Inl e \<Rightarrow> (Throw e, l0)
      | Inr fd \<Rightarrow>
          (let main_fd = sg_new fd; l = log_bind (hp_src_port st) (bind_addr st) (log_open fd l0)
           in case tcpv4_bind_port (\<lambda>_. at_bind a) (hp_src_port st) (bind_addr st) of
                Some e \<Rightarrow> (Throw e, log_destroy main_fd l)
              | None \<Rightarrow>
                  (case set_socket_timeout (at_timeout a) of
                     Some e \<Rightarrow> (Throw e, log_destroy main_fd l)
                   | None \<Rightarrow>
                       if listen then (let (r, l2) = try_listen st a l in (r, log_destroy main_fd l2))
                       else if tcpv4_connect_unsafe (\<lambda>_. at_connect a) (hp_dst_port st) (hp_dst_addr st) = 0 then
                         (let (fd, main_fd') = sg_handle main_fd in (Return fd, log_destroy main_fd' l))
                       else (Next_attempt, log_destroy main_fd l))))"

lemmas attempt_defs = punch_attempt_def try_listen_def accepted_def tcp_call_defs

fun punch_loop ::
  "hole_punch_settings \<Rightarrow> u32 \<Rightarrow> bool \<Rightarrow> attempt list \<Rightarrow> net_log \<Rightarrow> ((net_exc + int) \<times> net_log) option" where
  "punch_loop st tries listen [] l = None"
| "punch_loop st tries listen (a # as) l =
     (case punch_attempt st listen a l of
        (Return fd, l') \<Rightarrow> Some (Inr fd, l')
      | (Throw e, l') \<Rightarrow> Some (Inl e, l')
      | (Next_attempt, l') \<Rightarrow>
          if tries - 1 \<noteq> 0 then punch_loop st (tries - 1) (\<not> listen) as l'
          else Some (Inl (Connection_error ''TCPv4 hole punching failed''), l'))"

definition tcpv4_hole_punch ::
  "hole_punch_settings \<Rightarrow> attempt list \<Rightarrow> ((net_exc + int) \<times> net_log) option" where
  "tcpv4_hole_punch st attempts =
     punch_loop st (hp_connect_count st) (hp_listen_first st) attempts empty_log"

section \<open>What is closed\<close>

definition wrong_peer :: "net_exc \<Rightarrow> bool" where
  "wrong_peer e \<longleftrightarrow> e = Connection_error ''Incorrent peer ip'' \<or> e = Connection_error ''Incorrent peer port''"

text \<open>The descriptors left open by an attempt, beyond those open before.\<close>

definition left_open :: "outcome \<Rightarrow> attempt \<Rightarrow> int multiset" where
  "left_open r a = (case r of
     Return fd \<Rightarrow> {#fd#} | Throw e \<Rightarrow> (if wrong_peer e then {#at_accept_fd a#} else {#}) | Next_attempt \<Rightarrow> {#})"

lemma punch_attempt_conserves:
  assumes "punch_attempt st listen a l = (r, l')"
  shows "mset (nl_opened l') + mset (nl_closed l) = mset (nl_opened l) + mset (nl_closed l') + left_open r a"
  using assms
  by (auto simp: attempt_defs log_defs sg_clear_def sg_new_def
      sg_handle_def left_open_def wrong_peer_def Let_def split: if_splits prod.splits)

lemma punch_loop_conserves:
  assumes "punch_loop st tries listen as l = Some (res, l')" and "mset (nl_opened l) = mset (nl_closed l)"
  shows "\<exists>leak. mset (nl_opened l') = mset (nl_closed l') + leak \<and>
    (case res of Inr fd \<Rightarrow> leak = {#fd#}
     | Inl e \<Rightarrow> if wrong_peer e then \<exists>a \<in> set as. leak = {#at_accept_fd a#} \<and> 0 \<le> at_accept_fd a else leak = {#})"
  using assms
proof (induction st tries listen as l rule: punch_loop.induct)
  case (2 st tries listen a as l)
  obtain r l1 where a: "punch_attempt st listen a l = (r, l1)" by fastforce
  have c: "mset (nl_opened l1) = mset (nl_closed l1) + left_open r a"
    using punch_attempt_conserves [OF a] "2.prems"(2) by simp
  show ?case
  proof (cases r)
    case (Return fd)
    then show ?thesis using a c "2.prems"(1) by (auto simp: left_open_def)
  next
    case (Throw e)
    have "0 \<le> at_accept_fd a" if "wrong_peer e"
      using a Throw that by (auto simp: attempt_defs wrong_peer_def Let_def split: if_splits prod.splits)
    then show ?thesis using a c "2.prems"(1) Throw by (auto simp: left_open_def)
  next
    case Next_attempt
    then have c1: "mset (nl_opened l1) = mset (nl_closed l1)" using c by (simp add: left_open_def)
    show ?thesis
    proof (cases "tries - 1 = 0")
      case True
      then show ?thesis using a c1 "2.prems"(1) Next_attempt by (auto simp: wrong_peer_def)
    next
      case False
      then have "punch_loop st (tries - 1) (\<not> listen) as l1 = Some (res, l')"
        using a "2.prems"(1) Next_attempt by simp
      from "2.IH" [OF a [symmetric] Next_attempt False this c1] show ?thesis
        by (auto split: sum.splits if_splits)
    qed
  qed
qed simp

text \<open>Attempts that fail without an error, in either role.\<close>

definition fails_quietly :: "attempt \<Rightarrow> bool" where
  "fails_quietly a \<longleftrightarrow> 0 \<le> at_socket a \<and> 0 \<le> at_bind a \<and> 0 \<le> at_timeout a \<and> 0 \<le> at_listen a \<and>
     at_accept_fd a < 0 \<and> at_connect a \<noteq> 0"

lemma punch_attempt_fails: "fails_quietly a \<Longrightarrow> \<exists>l'. punch_attempt st listen a l = (Next_attempt, l')"
  by (auto simp: fails_quietly_def attempt_defs Let_def)

text \<open>The number of attempts: \<open>connect_count\<close>, but \<open>2\<^sup>32\<close> for 0.\<close>

definition attempts_of :: "u32 \<Rightarrow> nat" where
  "attempts_of n = Suc (unat (n - 1))"

lemma attempts_of_pred: "n - 1 \<noteq> 0 \<Longrightarrow> attempts_of n = Suc (attempts_of (n - 1))"
proof -
  assume "n - 1 \<noteq> 0"
  then have "unat (n - 1 - 1) = unat (n - 1) - 1" "0 < unat (n - 1)"
    by (simp_all only: unat_minus_one unat_gt_0 not_False_eq_True)
  then show ?thesis by (simp add: attempts_of_def)
qed

lemma punch_loop_fails:
  assumes "\<forall>a \<in> set as. fails_quietly a"
  shows "punch_loop st tries listen as l = None \<and> length as < attempts_of tries \<or>
    (\<exists>l'. punch_loop st tries listen as l = Some (Inl (Connection_error ''TCPv4 hole punching failed''), l')) \<and>
    attempts_of tries \<le> length as"
  using assms
proof (induction st tries listen as l rule: punch_loop.induct)
  case (1 st tries listen l)
  then show ?case by (simp add: attempts_of_def)
next
  case (2 st tries listen a as l)
  obtain l1 where a: "punch_attempt st listen a l = (Next_attempt, l1)"
    using punch_attempt_fails "2.prems" by fastforce
  show ?case
  proof (cases "tries - 1 = 0")
    case True
    then show ?thesis using a by (simp add: attempts_of_def)
  next
    case False
    have "\<forall>a \<in> set as. fails_quietly a" using "2.prems" by simp
    from "2.IH" [OF a [symmetric] refl False this] show ?thesis
      using a False attempts_of_pred [OF False] by auto
  qed
qed

section \<open>Properties\<close>

text \<open>
  (C33) Hole punching closes every socket it opens exactly once, except the connection it
  returns; and except, when a connection from the wrong peer was accepted, that connection, which
  is leaked.
\<close>

theorem hole_punch_closes:
  assumes "tcpv4_hole_punch st as = Some (res, l)"
  shows "\<exists>leak. mset (nl_opened l) = mset (nl_closed l) + leak \<and>
    (case res of Inr fd \<Rightarrow> leak = {#fd#}
     | Inl e \<Rightarrow> if wrong_peer e then \<exists>a \<in> set as. leak = {#at_accept_fd a#} \<and> 0 \<le> at_accept_fd a else leak = {#})"
  by (rule punch_loop_conserves [OF assms [unfolded tcpv4_hole_punch_def]]) (simp add: empty_log_def)

theorem hole_punch_closes_witness:
  "\<exists>l. tcpv4_hole_punch \<lparr>hp_src_port = 1, hp_src_addr = 0, hp_dst_port = 2, hp_dst_addr = 3, hp_listen_first = True,
      hp_connect_count = 5\<rparr> [\<lparr>at_socket = 7, at_bind = 0, at_timeout = 0, at_listen = 0, at_accept_fd = 8,
      at_accept_ip = 4, at_accept_port = 2, at_connect = 0\<rparr>]
    = Some (Inl (Connection_error ''Incorrent peer ip''), l) \<and> mset (nl_opened l) = mset (nl_closed l) + {#8#}"
proof -
  let ?st = "\<lparr>hp_src_port = 1, hp_src_addr = 0, hp_dst_port = 2, hp_dst_addr = 3, hp_listen_first = True,
      hp_connect_count = 5\<rparr>"
  let ?a = "\<lparr>at_socket = 7, at_bind = 0, at_timeout = 0, at_listen = 0, at_accept_fd = 8,
      at_accept_ip = 4, at_accept_port = 2, at_connect = 0\<rparr>"
  obtain l where run: "tcpv4_hole_punch ?st [?a] = Some (Inl (Connection_error ''Incorrent peer ip''), l)"
    by (simp add: tcpv4_hole_punch_def attempt_defs Let_def)
  from hole_punch_closes [OF this] have "mset (nl_opened l) = mset (nl_closed l) + {#8#}"
    by (auto simp: wrong_peer_def)
  with run show ?thesis by blast
qed

text \<open>
  (C40) The loop ends: when every attempt fails without an error it gives up after
  \<open>connect_count\<close> attempts, but with a count of 0 only after \<open>2\<^sup>32\<close>.
\<close>

theorem hole_punch_attempts:
  assumes "\<forall>a \<in> set as. fails_quietly a"
  shows "((\<exists>l. tcpv4_hole_punch st as = Some (Inl (Connection_error ''TCPv4 hole punching failed''), l)) \<longleftrightarrow>
      (if hp_connect_count st = 0 then 2 ^ 32 \<le> length as else unat (hp_connect_count st) \<le> length as)) \<and>
    (tcpv4_hole_punch st as = None \<longleftrightarrow>
      (if hp_connect_count st = 0 then length as < 2 ^ 32 else length as < unat (hp_connect_count st)))"
proof -
  have n: "attempts_of (hp_connect_count st) = (if hp_connect_count st = 0 then 2 ^ 32 else unat (hp_connect_count st))"
  proof (cases "hp_connect_count st = 0")
    case True
    then show ?thesis by (simp add: attempts_of_def unsigned_minus_1_eq_mask mask_eq_exp_minus_1)
  next
    case False
    then have "0 < unat (hp_connect_count st)" by (simp only: unat_gt_0) simp
    then show ?thesis using False by (simp add: attempts_of_def unat_minus_one)
  qed
  show ?thesis
    using punch_loop_fails [OF assms, of st "hp_connect_count st" "hp_listen_first st"
        empty_log] n
    unfolding tcpv4_hole_punch_def by (auto split: if_splits)
qed

theorem hole_punch_attempts_witness:
  "tcpv4_hole_punch \<lparr>hp_src_port = 1, hp_src_addr = 0, hp_dst_port = 2, hp_dst_addr = 3, hp_listen_first = True,
      hp_connect_count = 0\<rparr> (replicate 5 \<lparr>at_socket = 7, at_bind = 0, at_timeout = 0, at_listen = 0, at_accept_fd = - 1,
      at_accept_ip = 4, at_accept_port = 2, at_connect = - 1\<rparr>) = None"
  by (subst hole_punch_attempts [THEN conjunct2]) (simp_all add: fails_quietly_def)

end
