(* ===== verification/Port_Filter.thy ===== *)
theory Port_Filter
  imports Udp4 Hole_Punch
begin

text \<open>
  The socket filters of \<open>udp4.h\<close> with \<open>socket_filter.h\<close>, and \<open>init_socket\<close>. A filter is the list
  of instructions the code builds; the machine of the kernel that runs it is a parameter, of
  which \<open>bpf_laws\<close> states what its documentation says of the instructions used.
\<close>

section \<open>Filter programs\<close>

record sock_filter =
  bf_code :: u16
  bf_jt :: u8
  bf_jf :: u8
  bf_k :: u32

definition BPF_STMT :: "u16 \<Rightarrow> u32 \<Rightarrow> sock_filter" where
  "BPF_STMT code k = \<lparr>bf_code = code, bf_jt = 0, bf_jf = 0, bf_k = k\<rparr>"

definition BPF_JUMP :: "u16 \<Rightarrow> u32 \<Rightarrow> u8 \<Rightarrow> u8 \<Rightarrow> sock_filter" where
  "BPF_JUMP code k jt jf = \<lparr>bf_code = code, bf_jt = jt, bf_jf = jf, bf_k = k\<rparr>"

text \<open>
  The codes of \<open>linux/filter.h\<close>: load a half word or a byte from the packet, subtract, jump if
  equal or greater, return.
\<close>

definition OP_LDH :: u16 where "OP_LDH = 0x00 OR 0x08 OR 0x20"
definition OP_LDB :: u16 where "OP_LDB = 0x00 OR 0x10 OR 0x20"
definition OP_SUB :: u16 where "OP_SUB = 0x04 OR 0x10 OR 0x00"
definition OP_JEQ :: u16 where "OP_JEQ = 0x05 OR 0x10 OR 0x00"
definition OP_JGT :: u16 where "OP_JGT = 0x05 OR 0x20 OR 0x00"
definition OP_RET :: u16 where "OP_RET = 0x06 OR 0x00"
definition BPF_ACCEPT :: u32 where "BPF_ACCEPT = - 1"
definition BPF_DROP :: u32 where "BPF_DROP = 0"

text \<open>\<open>sizeof(iphdr) + FIELD_POS(udphdr, dest)\<close>.\<close>

definition dest_port_pos :: u32 where
  "dest_port_pos = 20 + 2"

definition filter_udp_port :: "u16 \<Rightarrow> sock_filter list" where
  "filter_udp_port port =
     [BPF_STMT OP_LDH dest_port_pos,
      BPF_JUMP OP_JEQ (ucast port) 1 0,
      BPF_STMT OP_RET BPF_DROP,
      BPF_STMT OP_RET BPF_ACCEPT]"

text \<open>The length of the range is computed as an \<open>int\<close> and becomes unsigned.\<close>

definition filter_udp_port_range :: "u16 \<Rightarrow> u16 \<Rightarrow> sock_filter list" where
  "filter_udp_port_range port_start port_end =
     (let port_range_len = ucast port_end - ucast port_start :: u32
      in [BPF_STMT OP_LDH dest_port_pos,
          BPF_STMT OP_SUB (ucast port_start),
          BPF_JUMP OP_JGT port_range_len 0 1,
          BPF_STMT OP_RET BPF_DROP,
          BPF_STMT OP_RET BPF_ACCEPT])"

section \<open>The machine\<close>

text \<open>
  \<open>run prog a pkt\<close> is what the machine returns for the rest \<open>prog\<close> of a program with the
  accumulator \<open>a\<close>: how many bytes of the packet to keep. A load past the end of the packet ends
  the program with 0. Half words are read in network order.
\<close>

definition half_word :: "bytes \<Rightarrow> nat \<Rightarrow> u32" where
  "half_word pkt k = ucast (htons (rd16 (pkt ! k) (pkt ! (k + 1))))"

definition bpf_laws :: "(sock_filter list \<Rightarrow> u32 \<Rightarrow> bytes \<Rightarrow> u32) \<Rightarrow> bool" where
  "bpf_laws run \<longleftrightarrow>
     (\<forall>k prog a pkt. run (BPF_STMT OP_LDH k # prog) a pkt =
        (if unat k + 2 \<le> length pkt then run prog (half_word pkt (unat k)) pkt else 0)) \<and>
     (\<forall>k prog a pkt. run (BPF_STMT OP_SUB k # prog) a pkt = run prog (a - k) pkt) \<and>
     (\<forall>k jt jf prog a pkt. run (BPF_JUMP OP_JEQ k jt jf # prog) a pkt =
        run (drop (unat (if a = k then jt else jf)) prog) a pkt) \<and>
     (\<forall>k jt jf prog a pkt. run (BPF_JUMP OP_JGT k jt jf # prog) a pkt =
        run (drop (unat (if a > k then jt else jf)) prog) a pkt) \<and>
     (\<forall>k prog a pkt. run (BPF_STMT OP_RET k # prog) a pkt = k)"

definition accepts :: "(sock_filter list \<Rightarrow> u32 \<Rightarrow> bytes \<Rightarrow> u32) \<Rightarrow> sock_filter list \<Rightarrow> bytes \<Rightarrow> bool" where
  "accepts run prog pkt \<longleftrightarrow> run prog 0 pkt \<noteq> 0"

lemmas bpf_defs = BPF_STMT_def BPF_JUMP_def OP_LDH_def OP_LDB_def OP_SUB_def OP_JEQ_def OP_JGT_def OP_RET_def

text \<open>A machine that satisfies the laws.\<close>

function bpf_run :: "sock_filter list \<Rightarrow> u32 \<Rightarrow> bytes \<Rightarrow> u32" where
  "bpf_run [] a pkt = 0"
| "bpf_run (i # prog) a pkt =
     (if bf_code i = OP_LDH then
        (if unat (bf_k i) + 2 \<le> length pkt then bpf_run prog (half_word pkt (unat (bf_k i))) pkt else 0)
      else if bf_code i = OP_SUB then bpf_run prog (a - bf_k i) pkt
      else if bf_code i = OP_JEQ then bpf_run (drop (unat (if a = bf_k i then bf_jt i else bf_jf i)) prog) a pkt
      else if bf_code i = OP_JGT then bpf_run (drop (unat (if a > bf_k i then bf_jt i else bf_jf i)) prog) a pkt
      else if bf_code i = OP_RET then bf_k i
      else 0)"
  by pat_completeness auto
termination
  by (relation "measure (\<lambda>(prog, a, pkt). length prog)") auto

lemma bpf_run_laws: "bpf_laws bpf_run"
  by (simp add: bpf_laws_def bpf_defs)

section \<open>What the filters accept\<close>

lemma single_port:
  assumes "bpf_laws run"
  shows "accepts run (filter_udp_port port) pkt \<longleftrightarrow> 24 \<le> length pkt \<and> half_word pkt 22 = ucast port"
  using assms by (simp add: accepts_def filter_udp_port_def dest_port_pos_def bpf_laws_def BPF_DROP_def BPF_ACCEPT_def)

lemma unat_port: "unat (ucast (x :: u16) :: u32) = unat x"
proof -
  have "unat x < 2 ^ 16" using unsigned_less [of x] by simp
  then have "unat x < 2 ^ LENGTH(32)" by simp
  then show ?thesis by (simp only: unsigned_ucast_eq take_bit_nat_eq_self)
qed

lemma ucast_port_eq: "(ucast (x :: u16) :: u32) = ucast y \<longleftrightarrow> x = y"
  unfolding word_unat_eq_iff unat_port ..

lemma u32_range:
  fixes p s e :: u16
  shows "ucast p - ucast s > (ucast e - ucast s :: u32) \<longleftrightarrow> \<not> (if s \<le> e then s \<le> p \<and> p \<le> e else s \<le> p \<or> p \<le> e)"
proof -
  have le: "unat x < 65536" for x :: u16 using unsigned_less [of x] by simp
  have m: "unat (ucast x - ucast y :: u32)
      = (if unat y \<le> unat x then unat x - unat y else unat x + 2 ^ 32 - unat y)" for x y :: u16
    by (simp add: unat_sub_if' unat_port)
  show ?thesis using le [of p] le [of s] le [of e]
    unfolding word_less_nat_alt word_le_nat_alt m by auto
qed

lemma port_range:
  assumes "bpf_laws run"
  shows "accepts run (filter_udp_port_range s e) pkt \<longleftrightarrow> 24 \<le> length pkt \<and>
    (let p = htons (rd16 (pkt ! 22) (pkt ! 23)) in if s \<le> e then s \<le> p \<and> p \<le> e else s \<le> p \<or> p \<le> e)"
proof -
  let ?p = "htons (rd16 (pkt ! 22) (pkt ! 23))"
  have "accepts run (filter_udp_port_range s e) pkt \<longleftrightarrow> 24 \<le> length pkt \<and>
      \<not> (ucast ?p - ucast s > (ucast e - ucast s :: u32))"
    using assms by (simp add: accepts_def filter_udp_port_range_def dest_port_pos_def bpf_laws_def BPF_DROP_def
        BPF_ACCEPT_def half_word_def Let_def)
  then show ?thesis unfolding u32_range Let_def by simp
qed

section \<open>Setting up the socket\<close>

text \<open>What the calls return, and what they leave: descriptor, flags, filter, \<open>IP_HDRINCL\<close>.\<close>

record init_results =
  ir_socket :: int
  ir_getfl :: int
  ir_setfl :: int
  ir_attach :: int
  ir_hdrincl :: int

record socket_setup =
  ss_flags :: "u32 option"
  ss_filter :: "sock_filter list option"
  ss_hdrincl :: bool

definition socket_attach_filter :: "int \<Rightarrow> sock_filter list \<Rightarrow> socket_setup \<Rightarrow> sys_exc option \<times> socket_setup" where
  "socket_attach_filter result bpfcode o' =
     (if result \<noteq> 0 then (Some Sys_error, o') else (None, o'\<lparr>ss_filter := Some bpfcode\<rparr>))"

definition init_socket ::
  "init_results \<Rightarrow> 'c udp4_driver \<Rightarrow> sys_exc option \<times> 'c udp4_driver \<times> socket_setup" where
  "init_socket r d =
     (let d' = d\<lparr>dr_sock := ir_socket r\<rparr>; o0 = \<lparr>ss_flags = None, ss_filter = None, ss_hdrincl = False\<rparr>
      in if ir_socket r = - 1 then (Some Sys_error, d', o0)
         else if ir_getfl r = - 1 then (Some Sys_error, d', o0)
         else if ir_setfl r \<noteq> 0 then (Some Sys_error, d', o0)
         else
           (let o1 = o0\<lparr>ss_flags := Some (of_int (ir_getfl r) OR O_NONBLOCK)\<rparr>
            in case socket_attach_filter (ir_attach r) (filter_udp_port_range 10 50) o1 of
                 (Some e, o2) \<Rightarrow> (Some e, d', o2)
               | (None, o2) \<Rightarrow>
                   if ir_hdrincl r \<noteq> 0 then (Some Sys_error, d', o2)
                   else (None, d', o2\<lparr>ss_hdrincl := True\<rparr>)))"

section \<open>Properties\<close>

text \<open>
  The range filter accepts exactly the packets whose half word at offset 22, the UDP
  destination port behind an IP header without options, is in the range; when the end lies
  before the start, the range wraps around. The filter for one port accepts that port.
\<close>

theorem filters_accept_ports:
  assumes "bpf_laws run"
  shows "(accepts run (filter_udp_port_range s e) pkt \<longleftrightarrow> 24 \<le> length pkt \<and>
      (let p = htons (rd16 (pkt ! 22) (pkt ! 23)) in if s \<le> e then s \<le> p \<and> p \<le> e else s \<le> p \<or> p \<le> e)) \<and>
    (accepts run (filter_udp_port q) pkt \<longleftrightarrow> 24 \<le> length pkt \<and> htons (rd16 (pkt ! 22) (pkt ! 23)) = q)"
proof
  show "accepts run (filter_udp_port_range s e) pkt \<longleftrightarrow> 24 \<le> length pkt \<and>
      (let p = htons (rd16 (pkt ! 22) (pkt ! 23)) in if s \<le> e then s \<le> p \<and> p \<le> e else s \<le> p \<or> p \<le> e)"
    by (rule port_range [OF assms])
  show "accepts run (filter_udp_port q) pkt \<longleftrightarrow> 24 \<le> length pkt \<and> htons (rd16 (pkt ! 22) (pkt ! 23)) = q"
    by (simp add: single_port [OF assms] half_word_def ucast_port_eq)
qed

theorem filters_accept_ports_witness:
  "\<not> accepts bpf_run (filter_udp_port_range 10 50) (replicate 22 0 @ [0, 51, 0, 0]) \<and>
   accepts bpf_run (filter_udp_port_range 50 10) (replicate 22 0 @ [0, 51, 0, 0])"
proof -
  have "htons (rd16 0 51) = 51" by (simp add: rd16_def htons_def)
  then show ?thesis
    using filters_accept_ports [OF bpf_run_laws, THEN conjunct1, of 10 50 "replicate 22 0 @ [0, 51, 0, 0]"]
      filters_accept_ports [OF bpf_run_laws, THEN conjunct1, of 50 10 "replicate 22 0 @ [0, 51, 0, 0]"]
    by (simp add: nth_append Let_def word_le_nat_alt)
qed

text \<open>
  \<open>init_socket\<close> succeeds exactly when every call does, and then the socket does not block,
  has \<open>IP_HDRINCL\<close> and lets exactly the UDP ports 10 to 50 through, so that a packet of
  \<open>send_packet\<close> passes exactly when it is sent to one of them. When a later call fails, the
  descriptor stays open in \<open>sock\<close>.
\<close>

theorem init_socket_filters:
  assumes "bpf_laws run" and "init_socket r d = (exc, d', opts)"
  shows "(exc = None \<longleftrightarrow> ir_socket r \<noteq> - 1 \<and> ir_getfl r \<noteq> - 1 \<and> ir_setfl r = 0 \<and> ir_attach r = 0 \<and> ir_hdrincl r = 0) \<and>
    dr_sock d' = ir_socket r \<and>
    (exc = None \<longrightarrow> ss_hdrincl opts \<and> (\<exists>fl. ss_flags opts = Some fl \<and> bit fl 11) \<and>
      (\<exists>prog. ss_filter opts = Some prog \<and>
        (\<forall>a pid c u data. ud_dest u = ad_dst_port a \<longrightarrow>
          (accepts run prog (iphdr_bytes (packet_ip a pid c) @ udphdr_bytes u @ data) \<longleftrightarrow>
           10 \<le> htons (ad_dst_port a) \<and> htons (ad_dst_port a) \<le> 50))))"
proof -
  let ?prog = "filter_udp_port_range 10 50"
  have "accepts run ?prog (iphdr_bytes ip @ udphdr_bytes u @ data) \<longleftrightarrow> 10 \<le> htons (ud_dest u) \<and> htons (ud_dest u) \<le> 50"
    for ip u data
  proof -
    let ?pkt = "iphdr_bytes ip @ udphdr_bytes u @ data"
    have "length (iphdr_bytes ip) = 20" "length (udphdr_bytes u) = 8" by (simp_all add: iphdr_bytes_def udphdr_bytes_def)
    then have "24 \<le> length ?pkt" "?pkt ! 22 = udphdr_bytes u ! 2" "?pkt ! 23 = udphdr_bytes u ! 3"
      by (simp_all add: nth_append)
    moreover have "rd16 (udphdr_bytes u ! 2) (udphdr_bytes u ! 3) = ud_dest u"
      by (simp add: udphdr_bytes_def le16_def rd16_le16)
    ultimately show ?thesis by (simp add: port_range [OF assms(1)] word_le_nat_alt Let_def)
  qed
  moreover have "bit O_NONBLOCK 11" by (simp add: O_NONBLOCK_def bit_numeral_rec)
  then have "bit (w OR O_NONBLOCK) 11" for w by (simp add: bit_or_iff)
  ultimately show ?thesis using assms(2)
    by (auto simp: init_socket_def socket_attach_filter_def Let_def split: if_splits)
qed

theorem init_socket_filters_witness:
  "\<exists>d' :: nat udp4_driver. \<exists>opts. init_socket \<lparr>ir_socket = 4, ir_getfl = 2, ir_setfl = 0, ir_attach = 1, ir_hdrincl = 0\<rparr> driver_init
      = (Some Sys_error, d', opts) \<and> dr_sock d' = 4"
proof -
  let ?r = "\<lparr>ir_socket = 4, ir_getfl = 2, ir_setfl = 0, ir_attach = 1, ir_hdrincl = 0\<rparr>"
  obtain exc opts and d' :: "nat udp4_driver" where i: "init_socket ?r driver_init = (exc, d', opts)"
    by (metis prod_cases3)
  from init_socket_filters [OF bpf_run_laws i] have "exc \<noteq> None" "dr_sock d' = 4" by simp_all
  moreover have "exc = None \<or> exc = Some Sys_error" by (cases exc) (auto intro: sys_exc.exhaust)
  ultimately show ?thesis using i by blast
qed

end
