(* ===== verification/Config_Parser.thy ===== *)
theory Config_Parser
  imports Prelude
begin

text \<open>
  \<open>config.h\<close>, first part: \<open>ParseConfig\<close>, the state machine that turns configuration text into
  the packed form \<open>ImmutableConfig\<close> keeps. The text is the list of its bytes; it ends at a zero
  byte or at the end of the list. \<open>pos_stack\<close> is kept back first, and its \<open>-1\<close> entries, which
  stand for no position, are \<open>None\<close>. \<open>Cfg_undefined\<close> is an access outside the output.
\<close>

section \<open>The parser\<close>

datatype parse_mode = Inside | Quoted_inside | Outside

text \<open>The four messages of \<open>throw_error\<close>.\<close>

datatype cfg_msg =
    Too_many_strings
  | Invalid_string_count
  | Unmatching_brace
  | Lacking_brace

datatype cfg_exc = Parse_error cfg_msg nat | Cfg_undefined

record parser =
  cp_out :: bytes
  cp_pos_stack :: "nat option list"
  cp_nstr :: nat
  cp_line_num :: nat
  cp_mode :: parse_mode

definition throw_error :: "cfg_msg \<Rightarrow> parser \<Rightarrow> cfg_exc + 'a" where
  "throw_error msg s = Inl (Parse_error msg (cp_line_num s))"

definition reserve_len :: "parser \<Rightarrow> nat \<times> parser" where
  "reserve_len s = (length (cp_out s), s\<lparr>cp_out := cp_out s @ [0, 0, 0, 0]\<rparr>)"

definition update_len :: "nat option \<Rightarrow> parser \<Rightarrow> cfg_exc + parser" where
  "update_len len_pos s =
     (case len_pos of
        None \<Rightarrow> Inl Cfg_undefined
      | Some p \<Rightarrow>
          (case write_at p (le32 (of_nat (length (cp_out s) - p))) (cp_out s) of
             None \<Rightarrow> Inl Cfg_undefined
           | Some out' \<Rightarrow> Inr (s\<lparr>cp_out := out'\<rparr>)))"

definition push_char :: "u8 \<Rightarrow> parser \<Rightarrow> parser" where
  "push_char c s = s\<lparr>cp_out := cp_out s @ [c]\<rparr>"

text \<open>\<open>push_str\<close> appends a string with its terminating zero.\<close>

definition push_str :: "bytes \<Rightarrow> parser \<Rightarrow> parser" where
  "push_str xs s = s\<lparr>cp_out := cp_out s @ xs @ [0]\<rparr>"

definition end_opt :: "parser \<Rightarrow> cfg_exc + parser" where
  "end_opt s =
     (if cp_nstr s = 0 then Inr s
      else if cp_nstr s \<le> 2 then
        (case cp_pos_stack s of
           [] \<Rightarrow> Inl Cfg_undefined
         | p # _ \<Rightarrow>
             (case update_len p s of
                Inl e \<Rightarrow> Inl e
              | Inr s' \<Rightarrow> Inr (s'\<lparr>cp_nstr := 0\<rparr>)))
      else throw_error Too_many_strings s)"

definition start_str :: "parser \<Rightarrow> cfg_exc + parser" where
  "start_str s =
     (case (if cp_nstr s = 0 then
              (case cp_pos_stack s of
                 [] \<Rightarrow> Inl Cfg_undefined
               | _ # ps \<Rightarrow>
                   (let (r, s') = reserve_len s in Inr (s'\<lparr>cp_pos_stack := Some r # ps\<rparr>)))
            else Inr s) of
        Inl e \<Rightarrow> Inl e
      | Inr s1 \<Rightarrow>
          if cp_nstr s1 = 2 then
            if cp_out s1 = [] then Inl Cfg_undefined
            else Inr (s1\<lparr>cp_nstr := cp_nstr s1 - 1, cp_out := butlast (cp_out s1) @ [32]\<rparr>)
          else Inr s1)"

definition end_str :: "parser \<Rightarrow> parser" where
  "end_str s = (push_char 0 s)\<lparr>cp_mode := Outside, cp_nstr := cp_nstr s + 1\<rparr>"

text \<open>
  One character in each state. The flag tells that \<open>data--\<close> was done: the character is read
  again.
\<close>

definition open_brace :: "parser \<Rightarrow> cfg_exc + parser" where
  "open_brace s =
     (if cp_nstr s \<noteq> 1 then throw_error Invalid_string_count s
      else Inr ((push_char 0 s)\<lparr>cp_nstr := 0, cp_pos_stack := None # cp_pos_stack s\<rparr>))"

definition close_brace :: "parser \<Rightarrow> cfg_exc + parser" where
  "close_brace s =
     (case end_opt s of
        Inl e \<Rightarrow> Inl e
      | Inr s1 \<Rightarrow>
          if length (cp_pos_stack s1) \<le> 1 then throw_error Unmatching_brace s1
          else end_opt (s1\<lparr>cp_pos_stack := tl (cp_pos_stack s1), cp_nstr := 2\<rparr>))"

definition step_outside :: "u8 \<Rightarrow> parser \<Rightarrow> cfg_exc + parser \<times> bool" where
  "step_outside c s =
     (if c = 123 then map_sum id (\<lambda>s'. (s', False)) (open_brace s)
      else if c = 125 then map_sum id (\<lambda>s'. (s', False)) (close_brace s)
      else if c = 59 \<or> c = 10 then map_sum id (\<lambda>s'. (s', False)) (end_opt s)
      else if c = 9 \<or> c = 32 \<or> c = 58 then Inr (s, False)
      else if c = 34 then map_sum id (\<lambda>s'. (s'\<lparr>cp_mode := Quoted_inside\<rparr>, False)) (start_str s)
      else map_sum id (\<lambda>s'. (s'\<lparr>cp_mode := Inside\<rparr>, True)) (start_str s))"

definition step_inside :: "u8 \<Rightarrow> parser \<Rightarrow> parser \<times> bool" where
  "step_inside c s =
     (if c \<in> {123, 125, 59, 10, 34} then (end_str s, True)
      else if c = 9 \<or> c = 32 then (end_str s, False)
      else (push_char c s, False))"

definition step_quoted :: "u8 \<Rightarrow> parser \<Rightarrow> parser \<times> bool" where
  "step_quoted c s = (if c = 34 then (end_str s, False) else (push_char c s, False))"

definition step_char :: "u8 \<Rightarrow> parser \<Rightarrow> cfg_exc + parser \<times> bool" where
  "step_char c s0 =
     (let s = (if c = 10 \<and> cp_mode s0 \<noteq> Inside then s0\<lparr>cp_line_num := cp_line_num s0 + 1\<rparr> else s0)
      in case cp_mode s of
           Outside \<Rightarrow> step_outside c s
         | Inside \<Rightarrow> Inr (step_inside c s)
         | Quoted_inside \<Rightarrow> Inr (step_quoted c s))"

text \<open>
  The loop. A character is read again at most once, because the state it leads to takes it:
  \<open>rereads\<close> counts the readings still due for the first character.
\<close>

definition rereads :: "bytes \<Rightarrow> parse_mode \<Rightarrow> nat" where
  "rereads data m =
     (case data of
        [] \<Rightarrow> 0
      | c # _ \<Rightarrow>
          (case m of
             Outside \<Rightarrow> (if c \<in> {123, 125, 59, 10, 9, 32, 58, 34} then 0 else 1)
           | Inside \<Rightarrow> (if c \<in> {123, 125, 59, 10, 34} then 1 else 0)
           | Quoted_inside \<Rightarrow> 0))"

lemma step_char_reread:
  assumes "step_char c s = Inr (s', True)"
  shows "rereads (c # data) (cp_mode s') < rereads (c # data) (cp_mode s)"
  using assms
  by (auto simp: step_char_def step_outside_def step_inside_def step_quoted_def rereads_def Let_def
      end_str_def push_char_def map_sum_def
      split: parse_mode.splits if_splits sum.splits)

function parse_loop :: "bytes \<Rightarrow> parser \<Rightarrow> cfg_exc + parser" where
  "parse_loop data s =
     (case data of
        [] \<Rightarrow> Inr s
      | c # rest \<Rightarrow>
          if c = 0 then Inr s
          else
            (case step_char c s of
               Inl e \<Rightarrow> Inl e
             | Inr (s', reread) \<Rightarrow> parse_loop (if reread then data else rest) s'))"
  by pat_completeness auto
termination
proof (relation "measures [\<lambda>(data, s). length data, \<lambda>(data, s). rereads data (cp_mode s)]")
  fix data s c rest r s' reread
  assume "data = c # rest" "c \<noteq> (0 :: u8)" "step_char c s = Inr r" "(s', reread) = r"
  then show "((if reread then data else rest, s'), data, s)
    \<in> measures [\<lambda>(data, s). length data, \<lambda>(data, s). rereads data (cp_mode s)]"
    by (cases reread) (auto dest: step_char_reread)
qed simp

declare parse_loop.simps [simp del]

text \<open>The constructor of \<open>ParseConfig\<close>, and \<open>ImmutableConfig::parse\<close>.\<close>

definition parser_init :: parser where
  "parser_init = \<lparr>cp_out = [], cp_pos_stack = [None], cp_nstr = 0, cp_line_num = 0, cp_mode = Outside\<rparr>"

definition parse_finish :: "parser \<Rightarrow> cfg_exc + parser" where
  "parse_finish s0 =
     (let s = (if cp_mode s0 \<noteq> Outside then end_str s0 else s0)
      in case end_opt s of
           Inl e \<Rightarrow> Inl e
         | Inr s1 \<Rightarrow> if length (cp_pos_stack s1) > 1 then throw_error Lacking_brace s1 else Inr s1)"

definition parse_config :: "bytes \<Rightarrow> cfg_exc + bytes" where
  "parse_config data =
     (case parse_loop data parser_init of
        Inl e \<Rightarrow> Inl e
      | Inr s \<Rightarrow> map_sum id cp_out (parse_finish s))"

section \<open>The parser never leaves its output\<close>

text \<open>
  Between characters: at most two strings are open, the back of the stack is a position as soon
  as one is, every outer level has one, and all positions have their length field in the output.
\<close>

definition pos_ok :: "nat \<Rightarrow> nat option \<Rightarrow> bool" where
  "pos_ok n p = (case p of None \<Rightarrow> False | Some k \<Rightarrow> k + 4 \<le> n)"

definition cp_inv :: "parser \<Rightarrow> bool" where
  "cp_inv s \<longleftrightarrow> cp_nstr s \<le> (if cp_mode s = Outside then 2 else 1) \<and>
     (case cp_pos_stack s of
        [] \<Rightarrow> False
      | p # ps \<Rightarrow>
          (0 < cp_nstr s \<or> cp_mode s \<noteq> Outside \<longrightarrow> pos_ok (length (cp_out s)) p) \<and>
          (\<forall>q \<in> set ps. pos_ok (length (cp_out s)) q))"

lemma pos_ok_mono: "pos_ok n p \<Longrightarrow> n \<le> m \<Longrightarrow> pos_ok m p"
  by (auto simp: pos_ok_def split: option.splits)

lemma update_len_ok:
  assumes "pos_ok (length (cp_out s)) p"
  shows "\<exists>out'. update_len p s = Inr (s\<lparr>cp_out := out'\<rparr>) \<and> length out' = length (cp_out s)"
  using assms
  by (auto simp: pos_ok_def update_len_def write_at_def split: option.splits)

lemma end_opt_ok:
  assumes "cp_inv s"
  shows "\<exists>out'. end_opt s = Inr (s\<lparr>cp_out := out', cp_nstr := 0\<rparr>) \<and> length out' = length (cp_out s)"
proof (cases "cp_nstr s = 0")
  case True
  then show ?thesis by (intro exI [of _ "cp_out s"]) (simp add: end_opt_def)
next
  case False
  then obtain p ps where p: "cp_pos_stack s = p # ps" "pos_ok (length (cp_out s)) p" "cp_nstr s \<le> 2"
    using assms by (auto simp: cp_inv_def split: list.splits if_splits)
  then show ?thesis using update_len_ok [OF p(2)] False by (auto simp: end_opt_def)
qed

lemma start_str_ok:
  assumes "cp_inv s" and "cp_mode s = Outside"
  shows "\<exists>s'. start_str s = Inr s' \<and> cp_nstr s' \<le> 1 \<and> cp_line_num s' = cp_line_num s \<and>
    (\<forall>m. m \<noteq> Outside \<longrightarrow> cp_inv (s'\<lparr>cp_mode := m\<rparr>))"
proof -
  obtain p ps where st: "cp_pos_stack s = p # ps" using assms(1) by (auto simp: cp_inv_def split: list.splits)
  consider "cp_nstr s = 0" | "cp_nstr s = 1" | "cp_nstr s = 2"
    using assms by (fastforce simp: cp_inv_def)
  then show ?thesis
  proof cases
    case 3
    then have "pos_ok (length (cp_out s)) p" using assms(1) st by (simp add: cp_inv_def)
    then have "cp_out s \<noteq> []" by (auto simp: pos_ok_def split: option.splits)
    then show ?thesis using 3 assms st
      by (auto simp: start_str_def cp_inv_def Suc_le_eq)
  qed (use assms st in \<open>auto simp: start_str_def reserve_len_def cp_inv_def pos_ok_def split: option.splits\<close>)
qed

lemma end_str_ok: "cp_inv s \<Longrightarrow> cp_mode s \<noteq> Outside \<Longrightarrow> cp_inv (end_str s)"
  by (auto simp: cp_inv_def end_str_def push_char_def split: list.splits intro: pos_ok_mono)

lemma push_char_ok: "cp_inv s \<Longrightarrow> cp_mode s \<noteq> Outside \<Longrightarrow> cp_inv (push_char c s)"
  by (auto simp: cp_inv_def push_char_def split: list.splits intro: pos_ok_mono)


lemma cp_inv_line [simp]: "cp_inv (s\<lparr>cp_line_num := n\<rparr>) = cp_inv s"
  by (auto simp: cp_inv_def split: list.splits)

lemma cp_inv_closed:
  assumes "cp_inv s" and "end_opt s = Inr s'" and "cp_mode s = Outside"
  shows "cp_inv s' \<and> cp_nstr s' = 0 \<and> cp_line_num s' = cp_line_num s \<and> cp_mode s' = Outside \<and>
    cp_pos_stack s' = cp_pos_stack s"
  using end_opt_ok [OF assms(1)] assms by (auto simp: cp_inv_def split: list.splits)

lemma open_brace_ok:
  assumes "cp_inv s" and "cp_mode s = Outside"
  shows "case open_brace s of
      Inl e \<Rightarrow> e = Parse_error Invalid_string_count (cp_line_num s)
    | Inr s' \<Rightarrow> cp_inv s' \<and> cp_line_num s' = cp_line_num s"
  using assms
  by (auto simp: open_brace_def throw_error_def push_char_def cp_inv_def split: list.splits intro: pos_ok_mono)

lemma close_brace_ok:
  assumes "cp_inv s" and "cp_mode s = Outside"
  shows "case close_brace s of
      Inl e \<Rightarrow> e = Parse_error Unmatching_brace (cp_line_num s)
    | Inr s' \<Rightarrow> cp_inv s' \<and> cp_line_num s' = cp_line_num s"
proof -
  obtain s1 where 1: "end_opt s = Inr s1" using end_opt_ok [OF assms(1)] by blast
  note c = cp_inv_closed [OF assms(1) 1 assms(2)]
  show ?thesis
  proof (cases "length (cp_pos_stack s1) \<le> 1")
    case True
    then show ?thesis using 1 c by (simp add: close_brace_def throw_error_def)
  next
    case False
    let ?t = "s1\<lparr>cp_pos_stack := tl (cp_pos_stack s1), cp_nstr := 2\<rparr>"
    obtain p q ps where st: "cp_pos_stack s1 = p # q # ps"
      using False by (metis One_nat_def length_0_conv length_Suc_conv_rev length_Cons le_Suc_eq le_zero_eq list.exhaust)
    then have inv: "cp_inv ?t" using c by (auto simp: cp_inv_def)
    obtain s2 where 2: "end_opt ?t = Inr s2" using end_opt_ok [OF inv] by blast
    have "cp_mode ?t = Outside" using c by simp
    from cp_inv_closed [OF inv 2 this] 1 2 c False show ?thesis by (simp add: close_brace_def)
  qed
qed

lemma step_char_ok:
  assumes "cp_inv s"
  shows "case step_char c s of
      Inl e \<Rightarrow> \<exists>m. m \<in> {Invalid_string_count, Unmatching_brace} \<and>
        e = Parse_error m (cp_line_num s + of_bool (c = 10 \<and> cp_mode s \<noteq> Inside))
    | Inr (s', reread) \<Rightarrow> cp_inv s' \<and>
        cp_line_num s' = cp_line_num s + of_bool (c = 10 \<and> cp_mode s \<noteq> Inside)"
proof -
  define t where "t = (if c = 10 \<and> cp_mode s \<noteq> Inside then s\<lparr>cp_line_num := cp_line_num s + 1\<rparr> else s)"
  have t: "cp_inv t" "cp_line_num t = cp_line_num s + of_bool (c = 10 \<and> cp_mode s \<noteq> Inside)"
    "cp_mode t = cp_mode s" using assms by (simp_all add: t_def)
  have step: "step_char c s = (case cp_mode t of Outside \<Rightarrow> step_outside c t
     | Inside \<Rightarrow> Inr (step_inside c t) | Quoted_inside \<Rightarrow> Inr (step_quoted c t))"
    by (simp add: step_char_def t_def [symmetric])
  show ?thesis
  proof (cases "cp_mode t")
    case Inside
    then show ?thesis using t end_str_ok [OF t(1)] push_char_ok [OF t(1), of c]
      by (auto simp: step step_inside_def) (auto simp: end_str_def push_char_def)
  next
    case Quoted_inside
    then show ?thesis using t end_str_ok [OF t(1)] push_char_ok [OF t(1), of c]
      by (auto simp: step step_quoted_def) (auto simp: end_str_def push_char_def)
  next
    case Outside
    obtain s1 where 1: "end_opt t = Inr s1" using end_opt_ok [OF t(1)] by blast
    note eo = cp_inv_closed [OF t(1) 1 Outside]
    obtain s2 where 2: "start_str t = Inr s2" "cp_line_num s2 = cp_line_num t"
      "\<And>m. m \<noteq> Outside \<Longrightarrow> cp_inv (s2\<lparr>cp_mode := m\<rparr>)"
      using start_str_ok [OF t(1) Outside] by blast
    show ?thesis
      using Outside t 1 2 eo open_brace_ok [OF t(1) Outside] close_brace_ok [OF t(1) Outside]
      by (auto simp: step step_outside_def map_sum_def split: sum.splits)
  qed
qed

text \<open>The newlines before the terminating zero.\<close>

definition newlines :: "bytes \<Rightarrow> nat" where
  "newlines data = length (filter ((=) 10) (takeWhile ((\<noteq>) 0) data))"

lemma newlines_Cons: "c \<noteq> 0 \<Longrightarrow> newlines (c # data) = of_bool (c = 10) + newlines data"
  by (auto simp: newlines_def)

lemma parse_loop_ok:
  assumes "cp_inv s"
  shows "case parse_loop data s of
      Inl e \<Rightarrow> \<exists>m n. m \<in> {Invalid_string_count, Unmatching_brace} \<and> e = Parse_error m n \<and>
        n \<le> cp_line_num s + newlines data
    | Inr s' \<Rightarrow> cp_inv s' \<and> cp_line_num s' = cp_line_num s + newlines data"
  using assms
proof (induction data s rule: parse_loop.induct)
  case (1 data s)
  show ?case
  proof (cases "data = [] \<or> hd data = 0")
    case True
    then show ?thesis using "1.prems"
      by (cases data) (auto simp: parse_loop.simps [of "[]"] parse_loop.simps [of "0 # _"] newlines_def)
  next
    case False
    then obtain c rest where data: "data = c # rest" "c \<noteq> 0" by (cases data) auto
    note so = step_char_ok [OF "1.prems", of c]
    show ?thesis
    proof (cases "step_char c s")
      case (Inl e)
      with so data show ?thesis by (auto simp: parse_loop.simps [of "c # rest"] newlines_Cons)
    next
      case (Inr r)
      obtain s' reread where r: "r = (s', reread)" by (cases r)
      have inv: "cp_inv s'" and ln: "cp_line_num s' = cp_line_num s + of_bool (c = 10 \<and> cp_mode s \<noteq> Inside)"
        using so Inr r by simp_all
      let ?d = "if reread then data else rest"
      have eq: "parse_loop data s = parse_loop ?d s'"
        using data Inr r by (subst parse_loop.simps) simp
      have "cp_line_num s' + newlines ?d = cp_line_num s + newlines data"
        using Inr ln data r
        by (auto simp: newlines_Cons step_char_def step_outside_def step_inside_def step_quoted_def
            Let_def map_sum_def split: parse_mode.splits if_splits sum.splits)
      with "1.IH" [OF data(1,2) Inr r [symmetric] inv] show ?thesis
        unfolding eq by (auto split: sum.splits)
    qed
  qed
qed


lemma cp_inv_init: "cp_inv parser_init"
  by (simp add: cp_inv_def parser_init_def)

lemma parse_finish_ok:
  assumes "cp_inv s"
  shows "case parse_finish s of
      Inl e \<Rightarrow> e = Parse_error Lacking_brace (cp_line_num s)
    | Inr s' \<Rightarrow> True"
proof -
  define t where "t = (if cp_mode s \<noteq> Outside then end_str s else s)"
  have t: "cp_inv t" "cp_mode t = Outside" "cp_line_num t = cp_line_num s"
    using assms end_str_ok [OF assms] by (auto simp: t_def end_str_def push_char_def)
  obtain s1 where 1: "end_opt t = Inr s1" using end_opt_ok [OF t(1)] by blast
  from cp_inv_closed [OF t(1) 1 t(2)] 1 t show ?thesis
    by (simp add: parse_finish_def t_def [symmetric] throw_error_def)
qed

lemma parse_config_errors:
  "case parse_config data of
      Inl e \<Rightarrow> \<exists>m n. m \<in> {Invalid_string_count, Unmatching_brace, Lacking_brace} \<and>
        e = Parse_error m n \<and> n \<le> newlines data
    | Inr out \<Rightarrow> True"
proof (cases "parse_loop data parser_init")
  case (Inl e)
  then show ?thesis using parse_loop_ok [OF cp_inv_init, of data]
    by (auto simp: parse_config_def parser_init_def)
next
  case (Inr s)
  then have "cp_inv s" "cp_line_num s = newlines data"
    using parse_loop_ok [OF cp_inv_init, of data] by (simp_all add: parser_init_def)
  with Inr parse_finish_ok [of s] show ?thesis
    by (auto simp: parse_config_def map_sum_def split: sum.splits)
qed

section \<open>Properties\<close>


end
