(* ===== verification/Config_Lookup.thy ===== *)
theory Config_Lookup
  imports Config_Parser
begin

text \<open>
  \<open>config.h\<close>, second part: looking options up in the packed form and converting their values,
  and the round trip from text to values. A lookup that never returns (an entry of length 0) is
  \<open>None\<close>; an access outside the packed bytes is \<open>Cfg_get_undefined\<close>.
\<close>

section \<open>Lookup\<close>

datatype get_exc = Value_not_found | Cfg_get_undefined

definition read_len :: "bytes \<Rightarrow> nat \<Rightarrow> u32 option" where
  "read_len v pos =
     (if pos + 4 \<le> length v
      then Some (rd32 (v ! pos) (v ! (pos + 1)) (v ! (pos + 2)) (v ! (pos + 3))) else None)"

text \<open>\<open>!strcmp(mem, str)\<close> for a zero-terminated \<open>str\<close>, given without its zero.\<close>

fun strcmp_eq :: "bytes \<Rightarrow> bytes \<Rightarrow> bool option" where
  "strcmp_eq [] str = None"
| "strcmp_eq (c # mem) [] = Some (c = 0)"
| "strcmp_eq (c # mem) (d # str) = (if c = d then strcmp_eq mem str else Some False)"

partial_function (option) cfg_find ::
  "bytes \<Rightarrow> bytes \<Rightarrow> nat \<Rightarrow> nat \<Rightarrow> (get_exc + nat \<times> nat) option" where
  "cfg_find v str pos pos_e =
     (if pos < pos_e then
        (case read_len v pos of
           None \<Rightarrow> Some (Inl Cfg_get_undefined)
         | Some len \<Rightarrow>
             (case strcmp_eq (drop (pos + 4) v) str of
                None \<Rightarrow> Some (Inl Cfg_get_undefined)
              | Some same \<Rightarrow>
                  if same then Some (Inr (pos + 4 + length str + 1, pos + unat len))
                  else cfg_find v str (pos + unat len) pos_e))
      else Some (Inr (pos_e, pos_e)))"

text \<open>\<open>_get\<close> with the conversion \<open>cvt_val<Tout>\<close> of the zero-terminated value.\<close>

definition cfg_get_range ::
  "(bytes \<Rightarrow> 'a) \<Rightarrow> bytes \<Rightarrow> bytes \<Rightarrow> nat \<Rightarrow> nat \<Rightarrow> (get_exc + 'a) option" where
  "cfg_get_range cvt v name fb fe =
     (case cfg_find v name fb fe of
        None \<Rightarrow> None
      | Some (Inl e) \<Rightarrow> Some (Inl e)
      | Some (Inr (b, e)) \<Rightarrow>
          if b = e then Some (Inl Value_not_found)
          else if length v \<le> b then Some (Inl Cfg_get_undefined)
          else if v ! b = 0 then Some (Inl Value_not_found)
          else if 0 \<in> set (drop b v) then Some (Inr (cvt (takeWhile ((\<noteq>) 0) (drop b v))))
          else Some (Inl Cfg_get_undefined))"

definition cfg_get_default ::
  "(bytes \<Rightarrow> 'a) \<Rightarrow> bytes \<Rightarrow> bytes \<Rightarrow> 'a \<Rightarrow> nat \<Rightarrow> nat \<Rightarrow> (get_exc + 'a) option" where
  "cfg_get_default cvt v name dflt fb fe =
     (case cfg_get_range cvt v name fb fe of
        Some (Inl Value_not_found) \<Rightarrow> Some (Inr dflt)
      | r \<Rightarrow> r)"

definition cfg_get :: "(bytes \<Rightarrow> 'a) \<Rightarrow> bytes \<Rightarrow> bytes \<Rightarrow> (get_exc + 'a) option" where
  "cfg_get cvt v name = cfg_get_range cvt v name 0 (length v)"

section \<open>Conversions\<close>

text \<open>\<open>strtoul\<close>: white space, a sign, digits; the largest \<open>unsigned long\<close> on overflow.\<close>

definition is_space :: "u8 \<Rightarrow> bool" where
  "is_space c \<longleftrightarrow> c = 32 \<or> (9 \<le> c \<and> c \<le> 13)"

definition digit_val :: "u8 \<Rightarrow> nat option" where
  "digit_val c =
     (if 48 \<le> c \<and> c \<le> 57 then Some (unat c - 48)
      else if 97 \<le> c \<and> c \<le> 122 then Some (unat c - 87)
      else if 65 \<le> c \<and> c \<le> 90 then Some (unat c - 55)
      else None)"

fun read_digits :: "nat \<Rightarrow> nat \<Rightarrow> bytes \<Rightarrow> nat" where
  "read_digits base acc [] = acc"
| "read_digits base acc (c # cs) =
     (case digit_val c of
        None \<Rightarrow> acc
      | Some d \<Rightarrow> if d < base then read_digits base (acc * base + d) cs else acc)"

definition strtoul :: "nat \<Rightarrow> bytes \<Rightarrow> u64" where
  "strtoul base str =
     (let s = dropWhile is_space str;
          neg = (s \<noteq> [] \<and> hd s = 45);
          s1 = (if s \<noteq> [] \<and> (hd s = 45 \<or> hd s = 43) then tl s else s);
          s2 = (if base = 16 \<and> 3 \<le> length s1 \<and> s1 ! 0 = 48 \<and> s1 ! 1 \<in> {120, 88}
                   \<and> (case digit_val (s1 ! 2) of Some d \<Rightarrow> d < 16 | None \<Rightarrow> False)
                then drop 2 s1 else s1);
          n = read_digits base 0 s2
      in if n < 2 ^ 64 then (if neg then - of_nat n else of_nat n) else - 1)"

text \<open>
  \<open>cvt_val<uint32_t>\<close>; \<open>inet_pton\<close>, called by \<open>str2ipv4\<close>, is a parameter, and \<open>None\<close> is the
  exception of \<open>str2ipv4\<close>.
\<close>

definition cvt_val_u32 :: "(bytes \<Rightarrow> u32 option) \<Rightarrow> bytes \<Rightarrow> u32 option" where
  "cvt_val_u32 inet_pton str =
     (if take 2 str = [48, 120] then Some (ucast (strtoul 16 (drop 2 str)))
      else if take 5 str = [105, 112, 118, 52, 58] then inet_pton (drop 5 str)
      else Some (ucast (strtoul 10 str)))"

lemma cvt_val_u32_examples:
  "cvt_val_u32 ip [48, 120, 102, 70] = Some 255"
  "cvt_val_u32 ip [105, 112, 118, 52, 58, 49] = ip [49]"
  "cvt_val_u32 ip [32, 52, 50, 120] = Some 42"
  by (simp_all add: cvt_val_u32_def strtoul_def is_space_def digit_val_def word_le_nat_alt)

section \<open>Configurations as trees\<close>

text \<open>
  Options with a value and sections with entries; how they are written as text, one per line,
  and the packed form: a length, the key, and the value or the entries.
\<close>

datatype cfg_item =
    Opt bytes bytes
  | Sect bytes "cfg_item list"

primrec item_key :: "cfg_item \<Rightarrow> bytes" where
  "item_key (Opt k v) = k"
| "item_key (Sect k xs) = k"

fun render_item :: "cfg_item \<Rightarrow> bytes" where
  "render_item (Opt k v) = k @ [32] @ v @ [10]"
| "render_item (Sect k xs) = k @ [32, 123, 10] @ concat (map render_item xs) @ [125, 10]"

fun encode_item :: "cfg_item \<Rightarrow> bytes" where
  "encode_item (Opt k v) = le32 (of_nat (6 + length k + length v)) @ k @ [0] @ v @ [0]"
| "encode_item (Sect k xs) =
     le32 (of_nat (6 + length k + length (concat (map encode_item xs)))) @ k @ [0, 0]
       @ concat (map encode_item xs)"

definition plain :: "bytes \<Rightarrow> bool" where
  "plain w \<longleftrightarrow> w \<noteq> [] \<and> hd w \<noteq> 58 \<and> (\<forall>c \<in> set w. c \<notin> {0, 9, 10, 32, 34, 59, 123, 125})"

fun item_ok :: "cfg_item \<Rightarrow> bool" where
  "item_ok (Opt k v) \<longleftrightarrow> plain k \<and> plain v"
| "item_ok (Sect k xs) \<longleftrightarrow> plain k \<and> list_all item_ok xs"

section \<open>Parsing text that was rendered\<close>

abbreviation at :: "bytes \<Rightarrow> nat option list \<Rightarrow> nat \<Rightarrow> nat \<Rightarrow> parse_mode \<Rightarrow> parser" where
  "at out stack n ln m \<equiv> \<lparr>cp_out = out, cp_pos_stack = stack, cp_nstr = n, cp_line_num = ln, cp_mode = m\<rparr>"

lemma parse_step:
  assumes "c \<noteq> 0" and "step_char c s = Inr (s', reread)"
  shows "parse_loop (c # rest) s = parse_loop (if reread then c # rest else rest) s'"
  using assms by (subst parse_loop.simps) simp

lemmas step_defs = step_char_def step_outside_def step_inside_def start_str_def reserve_len_def
  end_str_def push_char_def end_opt_def open_brace_def close_brace_def update_len_def Let_def

lemma parse_word_chars:
  assumes "\<forall>c \<in> set w. c \<notin> {0, 9, 10, 32, 34, 59, 123, 125}"
  shows "parse_loop (w @ rest) (at out st n ln Inside) = parse_loop rest (at (out @ w) st n ln Inside)"
  using assms
proof (induction w arbitrary: out)
  case (Cons c w)
  then have "step_char c (at out st n ln Inside) = Inr (at (out @ [c]) st n ln Inside, False)" "c \<noteq> 0"
    by (auto simp: step_defs)
  then show ?case using Cons by (simp add: parse_step)
qed simp

lemma parse_first_word:
  assumes "plain w"
  shows "parse_loop (w @ rest) (at out (p # ps) 0 ln Outside)
    = parse_loop rest (at (out @ [0, 0, 0, 0] @ w) (Some (length out) # ps) 0 ln Inside)"
proof -
  obtain c w' where w: "w = c # w'" using assms by (auto simp: plain_def neq_Nil_conv)
  have "c \<noteq> 0" "step_char c (at out (p # ps) 0 ln Outside)
      = Inr (at (out @ [0, 0, 0, 0]) (Some (length out) # ps) 0 ln Inside, True)"
    using assms w by (auto simp: plain_def step_defs)
  from parse_step [OF this, of "w' @ rest"] parse_word_chars [of w rest "out @ [0, 0, 0, 0]"] assms w
  show ?thesis by (simp add: plain_def)
qed

lemma parse_second_word:
  assumes "plain w"
  shows "parse_loop (w @ rest) (at out st 1 ln Outside) = parse_loop rest (at (out @ w) st 1 ln Inside)"
proof -
  obtain c w' where w: "w = c # w'" using assms by (auto simp: plain_def neq_Nil_conv)
  have "c \<noteq> 0" "step_char c (at out st 1 ln Outside) = Inr (at out st 1 ln Inside, True)"
    using assms w by (auto simp: plain_def step_defs)
  from parse_step [OF this, of "w' @ rest"] parse_word_chars [of w rest out] assms w
  show ?thesis by (simp add: plain_def)
qed

lemma parse_space: "parse_loop (32 # rest) (at out st n ln Inside) = parse_loop rest (at (out @ [0]) st (n + 1) ln Outside)"
  by (subst parse_step [where s' = "at (out @ [0]) st (n + 1) ln Outside" and reread = False])
    (simp_all add: step_defs)

lemma write_len:
  "length xs = 4 \<Longrightarrow> write_at (length out) (le32 n) (out @ xs @ tail) = Some (out @ le32 n @ tail)"
  by (simp add: write_at_def)

lemma parse_value_end:
  "parse_loop (10 # rest) (at (out @ [0, 0, 0, 0] @ k @ 0 # v) (Some (length out) # ps) 1 ln Inside)
    = parse_loop rest (at (out @ le32 (of_nat (6 + length k + length v)) @ k @ 0 # v @ [0]) (Some (length out) # ps) 0 (ln + 1) Outside)"
proof -
  let ?s = "at (out @ [0, 0, 0, 0] @ k @ 0 # v) (Some (length out) # ps) 1 ln Inside"
  let ?t = "at (out @ [0, 0, 0, 0] @ k @ 0 # v @ [0]) (Some (length out) # ps) 2 ln Outside"
  have 1: "step_char 10 ?s = Inr (?t, True)" by (simp add: step_defs)
  have w: "write_at (length out) (le32 (of_nat (6 + length k + length v)))
      (out @ [0, 0, 0, 0] @ k @ 0 # v @ [0]) = Some (out @ le32 (of_nat (6 + length k + length v)) @ k @ 0 # v @ [0])"
    by (rule write_len) simp
  have 2: "step_char 10 ?t = Inr (at (out @ le32 (of_nat (6 + length k + length v)) @ k @ 0 # v @ [0])
      (Some (length out) # ps) 0 (ln + 1) Outside, False)"
    using w by (simp add: step_defs add.assoc)
  have "parse_loop (10 # rest) ?s = parse_loop (10 # rest) ?t" by (subst parse_step [OF _ 1]) simp_all
  also have "\<dots> = parse_loop rest (at (out @ le32 (of_nat (6 + length k + length v)) @ k @ 0 # v @ [0])
      (Some (length out) # ps) 0 (ln + 1) Outside)" by (subst parse_step [OF _ 2]) simp_all
  finally show ?thesis .
qed

lemma parse_open:
  "parse_loop (123 # 10 # rest) (at out (p # ps) 1 ln Outside)
    = parse_loop rest (at (out @ [0]) (None # p # ps) 0 (ln + 1) Outside)"
proof -
  have 1: "step_char 123 (at out (p # ps) 1 ln Outside) = Inr (at (out @ [0]) (None # p # ps) 0 ln Outside, False)"
    by (simp add: step_defs)
  have 2: "step_char 10 (at (out @ [0]) (None # p # ps) 0 ln Outside)
      = Inr (at (out @ [0]) (None # p # ps) 0 (ln + 1) Outside, False)" by (simp add: step_defs)
  show ?thesis by (subst parse_step [OF _ 1], simp, simp only: if_False, subst parse_step [OF _ 2], simp_all)
qed


lemma parse_close:
  "parse_loop (125 # 10 # rest) (at (out @ [0, 0, 0, 0] @ k @ 0 # 0 # body) (p # Some (length out) # ps) 0 ln Outside)
    = parse_loop rest (at (out @ le32 (of_nat (6 + length k + length body)) @ k @ 0 # 0 # body)
        (Some (length out) # ps) 0 (ln + 1) Outside)"
proof -
  let ?s = "at (out @ [0, 0, 0, 0] @ k @ 0 # 0 # body) (p # Some (length out) # ps) 0 ln Outside"
  let ?out = "out @ le32 (of_nat (6 + length k + length body)) @ k @ 0 # 0 # body"
  have w: "write_at (length out) (le32 (of_nat (6 + length k + length body)))
      (out @ [0, 0, 0, 0] @ k @ 0 # 0 # body) = Some ?out"
    by (rule write_len) simp
  have 1: "step_char 125 ?s = Inr (at ?out (Some (length out) # ps) 0 ln Outside, False)"
    using w by (simp add: step_defs add.assoc)
  have 2: "step_char 10 (at ?out (Some (length out) # ps) 0 ln Outside)
      = Inr (at ?out (Some (length out) # ps) 0 (ln + 1) Outside, False)" by (simp add: step_defs)
  show ?thesis by (subst parse_step [OF _ 1], simp, simp only: if_False, subst parse_step [OF _ 2], simp_all)
qed

lemma parse_item:
  "item_ok i \<Longrightarrow> \<exists>p' ln'. parse_loop (render_item i @ rest) (at out (p # ps) 0 ln Outside)
    = parse_loop rest (at (out @ encode_item i) (p' # ps) 0 ln' Outside)"
proof (induction i arbitrary: rest out p ps ln)
  case (Opt k v)
  have "parse_loop (render_item (Opt k v) @ rest) (at out (p # ps) 0 ln Outside)
      = parse_loop (32 # v @ 10 # rest) (at (out @ [0, 0, 0, 0] @ k) (Some (length out) # ps) 0 ln Inside)"
    using parse_first_word [of k "32 # v @ 10 # rest"] Opt by simp
  also have "\<dots> = parse_loop (v @ 10 # rest) (at (out @ [0, 0, 0, 0] @ k @ [0]) (Some (length out) # ps) 1 ln Outside)"
    by (simp add: parse_space)
  also have "\<dots> = parse_loop (10 # rest) (at (out @ [0, 0, 0, 0] @ k @ 0 # v) (Some (length out) # ps) 1 ln Inside)"
    using parse_second_word [of v "10 # rest"] Opt by simp
  also have "\<dots> = parse_loop rest (at (out @ encode_item (Opt k v)) (Some (length out) # ps) 0 (ln + 1) Outside)"
    unfolding parse_value_end by simp
  finally show ?case by blast
next
  case (Sect k xs)
  have items: "\<exists>p' ln'. parse_loop (concat (map render_item js) @ rest) (at out (p # ps) 0 ln Outside)
      = parse_loop rest (at (out @ concat (map encode_item js)) (p' # ps) 0 ln' Outside)"
    if "set js \<subseteq> set xs" for js rest out p ps ln
    using that
  proof (induction js arbitrary: out p ln)
    case (Cons j js)
    from Cons.prems Sect.prems have j: "j \<in> set xs" "item_ok j" by (auto simp: list_all_iff)
    obtain p' ln' where "parse_loop (render_item j @ concat (map render_item js) @ rest) (at out (p # ps) 0 ln Outside)
        = parse_loop (concat (map render_item js) @ rest) (at (out @ encode_item j) (p' # ps) 0 ln' Outside)"
      using Sect.IH [OF j] by blast
    moreover obtain p'' ln'' where "parse_loop (concat (map render_item js) @ rest) (at (out @ encode_item j) (p' # ps) 0 ln' Outside)
        = parse_loop rest (at ((out @ encode_item j) @ concat (map encode_item js)) (p'' # ps) 0 ln'' Outside)"
      using Cons.IH Cons.prems by (meson set_subset_Cons subset_trans)
    ultimately show ?case by auto
  qed auto
  let ?body = "concat (map render_item xs)" and ?enc = "concat (map encode_item xs)"
  have "parse_loop (render_item (Sect k xs) @ rest) (at out (p # ps) 0 ln Outside)
      = parse_loop (32 # 123 # 10 # ?body @ 125 # 10 # rest) (at (out @ [0, 0, 0, 0] @ k) (Some (length out) # ps) 0 ln Inside)"
    using parse_first_word [of k "32 # 123 # 10 # ?body @ 125 # 10 # rest"] Sect.prems by simp
  also have "\<dots> = parse_loop (123 # 10 # ?body @ 125 # 10 # rest) (at (out @ [0, 0, 0, 0] @ k @ [0]) (Some (length out) # ps) 1 ln Outside)"
    by (simp add: parse_space)
  also have "\<dots> = parse_loop (?body @ 125 # 10 # rest) (at (out @ [0, 0, 0, 0] @ k @ [0, 0]) (None # Some (length out) # ps) 0 (ln + 1) Outside)"
    unfolding parse_open by simp
  also obtain p' ln' where "\<dots> = parse_loop (125 # 10 # rest)
      (at ((out @ [0, 0, 0, 0] @ k @ [0, 0]) @ ?enc) (p' # Some (length out) # ps) 0 ln' Outside)"
    using items by blast
  also have "\<dots> = parse_loop rest (at (out @ encode_item (Sect k xs)) (Some (length out) # ps) 0 (ln' + 1) Outside)"
    using parse_close [of rest out k ?enc p' ps ln'] by simp
  finally show ?case by blast
qed

lemma parse_items:
  "list_all item_ok xs \<Longrightarrow> \<exists>p' ln'. parse_loop (concat (map render_item xs)) (at out (p # ps) 0 ln Outside)
    = Inr (at (out @ concat (map encode_item xs)) (p' # ps) 0 ln' Outside)"
proof (induction xs arbitrary: out p ln)
  case Nil
  then show ?case by (simp add: parse_loop.simps)
next
  case (Cons i xs)
  obtain p' ln' where "parse_loop (render_item i @ concat (map render_item xs)) (at out (p # ps) 0 ln Outside)
      = parse_loop (concat (map render_item xs)) (at (out @ encode_item i) (p' # ps) 0 ln' Outside)"
    using parse_item Cons.prems by fastforce
  with Cons.IH [of "out @ encode_item i" p' ln'] Cons.prems show ?case by simp
qed

lemma parse_config_rendered:
  assumes "list_all item_ok xs"
  shows "parse_config (concat (map render_item xs)) = Inr (concat (map encode_item xs))"
  using parse_items [OF assms, of "[]" None "[]" 0]
  by (auto simp: parse_config_def parser_init_def parse_finish_def end_opt_def throw_error_def)

section \<open>Looking up what was encoded\<close>

lemma read_len_le32: "read_len (pre @ le32 n @ post) (length pre) = Some n"
  by (simp add: read_len_def le32_def nth_append rd32_le32)

lemma strcmp_eq_word:
  "0 \<notin> set k \<Longrightarrow> 0 \<notin> set name \<Longrightarrow> strcmp_eq (k @ 0 # rest) name = Some (k = name)"
proof (induction k arbitrary: name)
  case Nil
  then show ?case by (cases name) auto
next
  case (Cons c k)
  then show ?case by (cases name) auto
qed

lemma encode_item_shape:
  "\<exists>tail. encode_item i = le32 (of_nat (length (encode_item i))) @ item_key i @ 0 # tail \<and>
    (case i of Opt k v \<Rightarrow> tail = v @ [0] | Sect k xs \<Rightarrow> tail = 0 # concat (map encode_item xs))"
  by (cases i) (simp_all add: add.assoc)


definition item_value :: "cfg_item \<Rightarrow> bytes option" where
  "item_value i = (case i of Opt k v \<Rightarrow> Some v | Sect k xs \<Rightarrow> None)"

definition lookup_items :: "bytes \<Rightarrow> cfg_item list \<Rightarrow> get_exc + bytes" where
  "lookup_items name xs =
     (case find (\<lambda>i. item_key i = name) xs of
        None \<Rightarrow> Inl Value_not_found
      | Some i \<Rightarrow> (case item_value i of None \<Rightarrow> Inl Value_not_found | Some v \<Rightarrow> Inr v))"

lemma plain_no_zero: "plain w \<Longrightarrow> 0 \<notin> set w"
  by (auto simp: plain_def)

lemma item_key_plain: "item_ok i \<Longrightarrow> plain (item_key i)"
  by (cases i) simp_all

lemma takeWhile_value: "0 \<notin> set v \<Longrightarrow> takeWhile ((\<noteq>) 0) (v @ 0 # rest) = (v :: bytes)"
  by (induction v) auto

lemma get_range_found:
  assumes "cfg_find v name fb fe = Some (Inr (b, e))" and "b \<noteq> e" and "b < length v" and "drop b v = w"
  shows "cfg_get_range cvt v name fb fe = (if hd w = 0 then Some (Inl Value_not_found)
    else if 0 \<in> set w then Some (Inr (cvt (takeWhile ((\<noteq>) 0) w))) else Some (Inl Cfg_get_undefined))"
  using assms hd_drop_conv_nth [of b v] by (simp add: cfg_get_range_def)

lemma find_first:
  assumes "item_ok i" and "length (encode_item i) < 2 ^ 32" and "plain name" and "length pre < fe"
  shows "cfg_find (pre @ encode_item i @ post) name (length pre) fe =
    (if item_key i = name
     then Some (Inr (length pre + 4 + length (item_key i) + 1, length pre + length (encode_item i)))
     else cfg_find (pre @ encode_item i @ post) name (length pre + length (encode_item i)) fe)"
proof -
  let ?v = "pre @ encode_item i @ post" and ?k = "item_key i"
  obtain tail where enc: "encode_item i = le32 (of_nat (length (encode_item i))) @ ?k @ 0 # tail"
    using encode_item_shape by blast
  have len: "read_len ?v (length pre) = Some (of_nat (length (encode_item i)))"
    by (subst enc) (simp only: append.assoc read_len_le32)
  have ul: "unat (of_nat (length (encode_item i)) :: u32) = length (encode_item i)"
    using assms(2) by (simp add: unat_of_nat)
  have d: "drop (length pre + 4) ?v = ?k @ 0 # tail @ post" by (subst enc) simp
  have cmp: "strcmp_eq (drop (length pre + 4) ?v) name = Some (?k = name)"
    unfolding d using plain_no_zero [OF assms(3)] plain_no_zero [OF item_key_plain [OF assms(1)]]
    by (rule strcmp_eq_word [rotated])
  show ?thesis using assms(4) len cmp ul by (subst cfg_find.simps) simp
qed

lemma get_first:
  assumes "item_ok i" and "length (encode_item i) < 2 ^ 32" and "plain name"
  shows "cfg_get_range cvt (pre @ encode_item i @ post) name (length pre) (length (pre @ encode_item i @ post)) =
    (if item_key i = name
     then Some (case item_value i of None \<Rightarrow> Inl Value_not_found | Some v \<Rightarrow> Inr (cvt v))
     else cfg_get_range cvt (pre @ encode_item i @ post) name (length (pre @ encode_item i))
            (length (pre @ encode_item i @ post)))"
proof -
  let ?v = "pre @ encode_item i @ post" and ?k = "item_key i"
  obtain tail where enc: "encode_item i = le32 (of_nat (length (encode_item i))) @ ?k @ 0 # tail"
    and tail: "case i of Opt k v \<Rightarrow> tail = v @ [0] | Sect k xs \<Rightarrow> tail = 0 # concat (map encode_item xs)"
    using encode_item_shape by blast
  have lt: "length pre < length ?v" using enc by (metis length_append length_le32 less_add_same_cancel1 add_pos_nonneg zero_less_numeral zero_le)
  note find = find_first [OF assms lt]
  show ?thesis
  proof (cases "?k = name")
    case False
    then show ?thesis using find by (simp add: cfg_get_range_def)
  next
    case True
    let ?b = "length pre + 4 + length ?k + 1"
    have db: "drop ?b ?v = tail @ post" by (subst enc) simp
    have le: "length (encode_item i) = 4 + length ?k + 1 + length tail" by (subst enc) simp
    have ne: "tail \<noteq> []" using tail by (cases i) auto
    have b1: "?b \<noteq> length pre + length (encode_item i)" "?b < length ?v" using le ne by (cases tail; simp)+
    have "cfg_find ?v name (length pre) (length ?v) = Some (Inr (?b, length pre + length (encode_item i)))"
      using find True by simp
    note got = get_range_found [OF this b1(1,2) db, of cvt]
    have val: "(if hd (tail @ post) = 0 then Some (Inl Value_not_found)
       else if 0 \<in> set (tail @ post) then Some (Inr (cvt (takeWhile ((\<noteq>) 0) (tail @ post))))
       else Some (Inl Cfg_get_undefined))
      = Some (case item_value i of None \<Rightarrow> Inl Value_not_found | Some v \<Rightarrow> Inr (cvt v))"
    proof (cases i)
      case (Opt k v)
      have v: "plain v" using assms(1) Opt by simp
      have t: "tail @ post = v @ 0 # post" using tail Opt by simp
      have "hd (v @ 0 # post) \<noteq> 0" using v by (cases v) (auto simp: plain_def)
      then show ?thesis unfolding t takeWhile_value [OF plain_no_zero [OF v]]
        using Opt by (simp add: item_value_def)
    next
      case (Sect k xs)
      then show ?thesis using tail by (simp add: item_value_def)
    qed
    show ?thesis unfolding got val using True by (simp only: if_True simp_thms)
  qed
qed

lemma get_items:
  assumes "list_all item_ok xs" and "length (concat (map encode_item xs)) < 2 ^ 32" and "plain name"
  shows "cfg_get_range cvt (pre @ concat (map encode_item xs)) name (length pre)
      (length (pre @ concat (map encode_item xs))) = Some (map_sum id cvt (lookup_items name xs))"
  using assms(1,2)
proof (induction xs arbitrary: pre)
  case Nil
  then show ?case by (simp add: cfg_get_range_def cfg_find.simps lookup_items_def)
next
  case (Cons i xs)
  have "cfg_get_range cvt ((pre @ encode_item i) @ concat (map encode_item xs)) name (length (pre @ encode_item i))
      (length ((pre @ encode_item i) @ concat (map encode_item xs))) = Some (map_sum id cvt (lookup_items name xs))"
    using Cons.prems by (intro Cons.IH) simp_all
  then show ?case
    using get_first [of i name cvt pre "concat (map encode_item xs)"] Cons.prems assms(3)
    by (auto simp: lookup_items_def split: option.splits)
qed

section \<open>Properties\<close>

text \<open>
  (C22) Text written one option or section per line parses to its packed form: nested lengths,
  keys, values and terminators, for any depth of sections.
\<close>

theorem parse_rendered_tree:
  assumes "list_all item_ok xs"
  shows "parse_config (concat (map render_item xs)) = Inr (concat (map encode_item xs))"
  using assms by (rule parse_config_rendered)

theorem parse_rendered_tree_witness:
  "parse_config [97, 32, 123, 10, 98, 32, 99, 10, 125, 10]
    = Inr [15, 0, 0, 0, 97, 0, 0, 8, 0, 0, 0, 98, 0, 99, 0]"
  using parse_rendered_tree [of "[Sect [97] [Opt [98] [99]]]"] by (simp add: plain_def le32_def)



end
