(* ===== verification/Config_Dump.thy ===== *)
theory Config_Dump
  imports Config_Lookup
begin

text \<open>
  \<open>ImmutableConfig::dump\<close> of \<open>config.h\<close>: the lines it prints, each its indentation, the key and the
  value, if it prints one. A string read from memory that does not end is undefined.
\<close>

section \<open>The loop\<close>

definition cstr :: "bytes \<Rightarrow> nat \<Rightarrow> bytes option" where
  "cstr v pos = (if 0 \<in> set (drop pos v) then Some (takeWhile ((\<noteq>) 0) (drop pos v)) else None)"

type_synonym dump_line = "nat \<times> bytes \<times> bytes option"

partial_function (option) dump_loop ::
  "bytes \<Rightarrow> nat \<Rightarrow> nat list \<Rightarrow> dump_line list \<Rightarrow> (get_exc + dump_line list) option" where
  "dump_loop v pos pos_stack printed =
     (case pos_stack of
        [] \<Rightarrow> Some (Inr printed)
      | fin # below \<Rightarrow>
          if pos < fin then
            (case read_len v pos of
               None \<Rightarrow> Some (Inl Cfg_get_undefined)
             | Some len \<Rightarrow>
                 (let fin1 = min (pos + unat len) (length v); stack1 = fin1 # pos_stack; pos1 = pos + 4
                  in case cstr v pos1 of
                       None \<Rightarrow> Some (Inl Cfg_get_undefined)
                     | Some key \<Rightarrow>
                         (let pos2 = pos1 + length key + 1
                          in if pos2 < fin1 then
                               (case cstr v pos2 of
                                  None \<Rightarrow> Some (Inl Cfg_get_undefined)
                                | Some val \<Rightarrow>
                                    dump_loop v (pos2 + length val + 1) stack1 (printed @ [(length stack1, key, Some val)]))
                             else dump_loop v pos2 stack1 (printed @ [(length stack1, key, None)]))))
          else dump_loop v pos below printed)"

definition cfg_dump :: "bytes \<Rightarrow> (get_exc + dump_line list) option" where
  "cfg_dump v = dump_loop v 0 [length v] []"

section \<open>Dumping what was encoded\<close>

text \<open>The lines of an item: a section is printed with an empty value, its entries deeper.\<close>

fun item_lines :: "nat \<Rightarrow> cfg_item \<Rightarrow> dump_line list" where
  "item_lines d (Opt k val) = [(d, k, Some val)]"
| "item_lines d (Sect k xs) = (d, k, Some []) # concat (map (item_lines (Suc d)) xs)"

lemma cstr_word: "0 \<notin> set w \<Longrightarrow> cstr (pre @ w @ 0 # post) (length pre) = Some w"
  using takeWhile_value [of w post] by (simp add: cstr_def)

lemma dump_pop: "fin \<le> pos \<Longrightarrow> dump_loop v pos (fin # below) printed = dump_loop v pos below printed"
  by (simp add: dump_loop.simps [of v pos "fin # below"])

text \<open>One entry: its length, key and value are read, and its end is pushed.\<close>

lemma dump_entry:
  assumes "v = pre @ le32 (of_nat len) @ key @ 0 # val @ 0 # post" and "0 \<notin> set key" and "0 \<notin> set val"
    and "length pre < fin" and "len < 2 ^ 32" and "length key + length val + 6 \<le> len"
    and "length pre + len \<le> length v"
  shows "dump_loop v (length pre) (fin # below) printed
    = dump_loop v (length pre + length key + length val + 6) ((length pre + len) # fin # below)
        (printed @ [(length below + 2, key, Some val)])"
proof -
  have r: "read_len v (length pre) = Some (of_nat len)"
    unfolding assms(1) by (rule read_len_le32)
  have k: "cstr v (length pre + 4) = Some key"
    using cstr_word [OF assms(2), of "pre @ le32 (of_nat len)" "val @ 0 # post"] by (simp add: assms(1))
  have vl: "cstr v (length key + (length pre + 5)) = Some val"
    using cstr_word [OF assms(3), of "pre @ le32 (of_nat len) @ key @ [0]" post] by (simp add: assms(1) ac_simps)
  have u: "unat (of_nat len :: u32) = len" using assms(5) by (simp add: unat_of_nat)
  show ?thesis
    using assms(4,6,7) by (subst dump_loop.simps) (simp add: r k u Let_def ac_simps vl)
qed

lemma item_ok_plain: "plain w \<Longrightarrow> 0 \<notin> set w"
  by (auto simp: plain_def)

lemma dump_item:
  assumes "item_ok x" and "v = pre @ encode_item x @ post" and "length v < 2 ^ 32"
    and "length pre + length (encode_item x) \<le> fin"
  shows "dump_loop v (length pre) (fin # below) printed
    = dump_loop v (length pre + length (encode_item x)) (fin # below) (printed @ item_lines (length below + 2) x)"
  using assms
proof (induction x arbitrary: pre post fin below printed)
  case (Opt k val)
  let ?len = "6 + length k + length val"
  have v: "v = pre @ le32 (of_nat ?len) @ k @ 0 # val @ 0 # post" using Opt.prems(2) by simp
  have "dump_loop v (length pre) (fin # below) printed
      = dump_loop v (length pre + length k + length val + 6) ((length pre + ?len) # fin # below)
          (printed @ [(length below + 2, k, Some val)])"
    using Opt.prems by (intro dump_entry [OF v]) (auto simp: item_ok_plain)
  then show ?case by (simp add: dump_pop ac_simps)
next
  case (Sect k xs)
  let ?enc = "concat (map encode_item xs)"
  let ?len = "6 + length k + length ?enc"
  have v: "v = pre @ le32 (of_nat ?len) @ k @ 0 # [] @ 0 # ?enc @ post" using Sect.prems(2) by simp
  have entry: "dump_loop v (length pre) (fin # below) printed
      = dump_loop v (length pre + length k + length ([] :: u8 list) + 6) ((length pre + ?len) # fin # below)
          (printed @ [(length below + 2, k, Some [])])"
    using Sect.prems by (intro dump_entry [OF v]) (auto simp: item_ok_plain)
  have items: "dump_loop v (length p) (b # bl) pr
      = dump_loop v (length p + length (concat (map encode_item ys))) (b # bl)
          (pr @ concat (map (item_lines (length bl + 2)) ys))"
    if "set ys \<subseteq> set xs" "v = p @ concat (map encode_item ys) @ q" "length p + length (concat (map encode_item ys)) \<le> b"
    for p ys q b bl pr using that
  proof (induction ys arbitrary: p pr)
    case (Cons y ys)
    have y: "y \<in> set xs" "item_ok y" using Cons.prems(1) Sect.prems(1) by (auto simp: list_all_iff)
    have "dump_loop v (length p) (b # bl) pr
        = dump_loop v (length p + length (encode_item y)) (b # bl) (pr @ item_lines (length bl + 2) y)"
      using Cons.prems Sect.prems(3) y(2) by (intro Sect.IH [OF y(1), where post = "concat (map encode_item ys) @ q"]) auto
    also have "\<dots> = dump_loop v (length (p @ encode_item y)) (b # bl) (pr @ item_lines (length bl + 2) y)" by simp
    also have "\<dots> = dump_loop v (length (p @ encode_item y) + length (concat (map encode_item ys))) (b # bl)
        ((pr @ item_lines (length bl + 2) y) @ concat (map (item_lines (length bl + 2)) ys))"
      using Cons.prems by (intro Cons.IH) auto
    finally show ?case by (simp add: ac_simps)
  qed simp
  let ?pre = "pre @ le32 (of_nat ?len) @ k @ [0, 0]"
  have "dump_loop v (length ?pre) ((length pre + ?len) # fin # below) (printed @ [(length below + 2, k, Some [])])
      = dump_loop v (length ?pre + length ?enc) ((length pre + ?len) # fin # below)
          ((printed @ [(length below + 2, k, Some [])]) @ concat (map (item_lines (length (fin # below) + 2)) xs))"
    using v by (intro items [where q = post]) auto
  then show ?case using entry by (simp add: dump_pop ac_simps)
qed

lemma dump_items:
  assumes "list_all item_ok xs" and "v = pre @ concat (map encode_item xs)" and "length v < 2 ^ 32"
  shows "dump_loop v (length pre) [length v] printed
    = Some (Inr (printed @ concat (map (item_lines 2) xs)))"
  using assms
proof (induction xs arbitrary: pre printed)
  case Nil
  then show ?case by (simp add: dump_pop dump_loop.simps [of _ _ "[]"])
next
  case (Cons x xs)
  have "dump_loop v (length pre) [length v] printed
      = dump_loop v (length pre + length (encode_item x)) [length v] (printed @ item_lines (length ([] :: nat list) + 2) x)"
    using Cons.prems by (intro dump_item [where post = "concat (map encode_item xs)"]) auto
  then show ?case using Cons.IH [of "pre @ encode_item x" "printed @ item_lines 2 x"] Cons.prems
    by (simp add: numeral_2_eq_2 del: item_lines.simps)
qed

section \<open>Properties\<close>



end
