(* ===== verification/Config_Addr.thy ===== *)
theory Config_Addr
  imports Config_Lookup Udp4
begin

text \<open>
  Loading the addresses of the UDP driver (\<open>udp4.h\<close>) from a configuration (\<open>config.h\<close>): the
  remaining conversions of values, \<open>CONFIGURE\<close> and \<open>Addr::load\<close>, and their composition with the
  parser.
\<close>

section \<open>Conversions\<close>

text \<open>
  \<open>cvt_val<uint16_t>\<close>, reading from a string stream as libstdc++ does: white space, a sign, decimal
  digits; the largest value on overflow and 0 without a digit. With nothing but white space the
  stream fails before it converts and the variable stays uninitialised: \<open>None\<close>.
\<close>

definition cvt_val_u16 :: "bytes \<Rightarrow> u16 option" where
  "cvt_val_u16 str =
     (let s = dropWhile is_space str
      in if s = [] then None
         else
           (let neg = (hd s = 45); s1 = (if hd s = 45 \<or> hd s = 43 then tl s else s); n = read_digits 10 0 s1
            in Some (if n < 2 ^ 16 then (if neg then - of_nat n else of_nat n) else - 1)))"

text \<open>\<open>cvt_val<int>\<close> is \<open>atoi\<close>, undefined when the number is no \<open>int\<close>; a string is itself.\<close>

definition cvt_val_int :: "bytes \<Rightarrow> int option" where
  "cvt_val_int str =
     (let s = dropWhile is_space str;
          neg = (s \<noteq> [] \<and> hd s = 45);
          s1 = (if s \<noteq> [] \<and> (hd s = 45 \<or> hd s = 43) then tl s else s);
          n = (if neg then - int (read_digits 10 0 s1) else int (read_digits 10 0 s1))
      in if - (2 ^ 31) \<le> n \<and> n < 2 ^ 31 then Some n else None)"

definition cvt_val_str :: "bytes \<Rightarrow> bytes" where
  "cvt_val_str str = str"

section \<open>Addresses\<close>

text \<open>The exceptions of a lookup and of \<open>str2ipv4\<close>, and the use of an uninitialised port.\<close>

datatype load_exc = Option_exc get_exc | Bad_ipv4 | Uninitialised

definition ascii :: "string \<Rightarrow> bytes" where
  "ascii s = map of_char s"

definition configure ::
  "(bytes \<Rightarrow> 'a option) \<Rightarrow> load_exc \<Rightarrow> bytes \<Rightarrow> string \<Rightarrow> (load_exc + 'a) option" where
  "configure cvt failed v vname =
     (case cfg_get cvt v (ascii vname) of
        None \<Rightarrow> None
      | Some (Inl e) \<Rightarrow> Some (Inl (Option_exc e))
      | Some (Inr None) \<Rightarrow> Some (Inl failed)
      | Some (Inr (Some x)) \<Rightarrow> Some (Inr x))"

text \<open>The fields are configured one after the other; the first exception ends \<open>load\<close>.\<close>

definition bind_load :: "(load_exc + 'a) option \<Rightarrow> ('a \<Rightarrow> (load_exc + 'b) option) \<Rightarrow> (load_exc + 'b) option" where
  "bind_load r f = (case r of None \<Rightarrow> None | Some (Inl e) \<Rightarrow> Some (Inl e) | Some (Inr x) \<Rightarrow> f x)"

definition addr_from_config :: "(bytes \<Rightarrow> u32 option) \<Rightarrow> bytes \<Rightarrow> (load_exc + udp_addr) option" where
  "addr_from_config inet_pton v =
     bind_load (configure (cvt_val_u32 inet_pton) Bad_ipv4 v ''src_ip'') (\<lambda>src_ip.
     bind_load (configure (cvt_val_u32 inet_pton) Bad_ipv4 v ''dst_ip'') (\<lambda>dst_ip.
     bind_load (configure cvt_val_u16 Uninitialised v ''src_port'') (\<lambda>src_port.
     bind_load (configure cvt_val_u16 Uninitialised v ''dst_port'') (\<lambda>dst_port.
       Some (Inr (addr_load (\<lambda>n. if n = ''src_ip'' then src_ip else dst_ip)
         (\<lambda>n. if n = ''src_port'' then src_port else dst_port)))))))"

section \<open>Numbers in decimal\<close>

fun decimal_bytes :: "nat \<Rightarrow> bytes" where
  "decimal_bytes n = (if n < 10 then [48 + of_nat n] else decimal_bytes (n div 10) @ [48 + of_nat (n mod 10)])"

declare decimal_bytes.simps [simp del]

lemma digit_byte:
  "d < 10 \<Longrightarrow> digit_val (48 + of_nat d) = Some d \<and> (48 + of_nat d :: u8) \<notin> {45, 43} \<and> \<not> is_space (48 + of_nat d)"
proof -
  assume "d < 10"
  then have "d = 0 \<or> d = 1 \<or> d = 2 \<or> d = 3 \<or> d = 4 \<or> d = 5 \<or> d = 6 \<or> d = 7 \<or> d = 8 \<or> d = 9" by auto
  then show ?thesis by (auto simp: digit_val_def is_space_def word_le_nat_alt)
qed

lemmas digit_val_digit = digit_byte [THEN conjunct1]

lemma read_decimal_append:
  "read_digits 10 acc (decimal_bytes n @ ds) = read_digits 10 (acc * 10 ^ length (decimal_bytes n) + n) ds"
proof (induction n arbitrary: acc ds rule: decimal_bytes.induct)
  case (1 n)
  show ?case
  proof (cases "n < 10")
    case True
    then show ?thesis by (simp add: decimal_bytes.simps [of n] digit_val_digit)
  next
    case False
    have "(acc * 10 ^ length (decimal_bytes (n div 10)) + n div 10) * 10 + n mod 10
        = acc * (10 * 10 ^ length (decimal_bytes (n div 10))) + n" by (simp add: algebra_simps)
    then show ?thesis using False "1.IH" [of acc "(48 + of_nat (n mod 10)) # ds"]
      by (simp add: decimal_bytes.simps [of n] digit_val_digit mult.commute mult.left_commute add.commute)
  qed
qed

lemma read_decimal: "read_digits 10 0 (decimal_bytes n) = n"
  using read_decimal_append [of 0 n "[]"] by simp

lemma decimal_bytes_hd: "\<exists>d ds. d < 10 \<and> decimal_bytes n = (48 + of_nat d) # ds"
proof (induction n rule: decimal_bytes.induct)
  case (1 n)
  then show ?case by (cases "n < 10") (fastforce simp: decimal_bytes.simps [of n])+
qed

lemma cvt_decimal: "cvt_val_u16 (decimal_bytes n) = Some (of_nat (min n 65535))"
proof -
  obtain d ds where d: "d < 10" "decimal_bytes n = (48 + of_nat d) # ds" using decimal_bytes_hd by blast
  note digit_byte [OF d(1)]
  then show ?thesis using read_decimal [of n] d(2)
    by (cases "n < 65536") (simp_all add: cvt_val_u16_def min_def)
qed

section \<open>Loading from text\<close>

lemma configure_items:
  assumes "list_all item_ok xs" and "length (concat (map encode_item xs)) < 2 ^ 32" and "plain (ascii vname)"
    and "lookup_items (ascii vname) xs = Inr val" and "cvt val = Some x"
  shows "configure cvt failed (concat (map encode_item xs)) vname = Some (Inr x)"
  using get_items [OF assms(1-3), of cvt "[]"] assms(4,5) by (simp add: configure_def cfg_get_def)

lemma configure_missing:
  assumes "list_all item_ok xs" and "length (concat (map encode_item xs)) < 2 ^ 32" and "plain (ascii vname)"
    and "lookup_items (ascii vname) xs = Inl e"
  shows "configure cvt failed (concat (map encode_item xs)) vname = Some (Inl (Option_exc e))"
  using get_items [OF assms(1-3), of cvt "[]"] assms(4) by (simp add: configure_def cfg_get_def)

lemma plain_names:
  "plain (ascii ''src_ip'')" "plain (ascii ''dst_ip'')" "plain (ascii ''src_port'')" "plain (ascii ''dst_port'')"
  by (simp_all add: plain_def ascii_def of_char_def)

text \<open>
  (C32) An address loaded from the text of a configuration has the values the text gives: the
  addresses converted from the first options of their names, the ports, written in decimal, in
  network order, where a port above 65535 becomes 65535. Without a source address, loading throws.
\<close>

theorem address_from_text:
  assumes "list_all item_ok xs" and "length (concat (map encode_item xs)) < 2 ^ 32"
  shows "\<exists>v. parse_config (concat (map render_item xs)) = Inr v \<and>
    (\<forall>e. lookup_items (ascii ''src_ip'') xs = Inl e \<longrightarrow> addr_from_config inet_pton v = Some (Inl (Option_exc e))) \<and>
    (\<forall>a b m n x y. lookup_items (ascii ''src_ip'') xs = Inr a \<and> cvt_val_u32 inet_pton a = Some x \<and>
       lookup_items (ascii ''dst_ip'') xs = Inr b \<and> cvt_val_u32 inet_pton b = Some y \<and>
       lookup_items (ascii ''src_port'') xs = Inr (decimal_bytes m) \<and>
       lookup_items (ascii ''dst_port'') xs = Inr (decimal_bytes n) \<longrightarrow>
       addr_from_config inet_pton v = Some (Inr \<lparr>ad_src_ip = x, ad_dst_ip = y,
         ad_src_port = htons (of_nat (min m 65535)), ad_dst_port = htons (of_nat (min n 65535))\<rparr>))"
proof -
  let ?v = "concat (map encode_item xs)"
  have "addr_from_config inet_pton ?v = Some (Inl (Option_exc e))"
    if "lookup_items (ascii ''src_ip'') xs = Inl e" for e
    using configure_missing [OF assms plain_names(1) that, of "cvt_val_u32 inet_pton" Bad_ipv4] by (simp add: addr_from_config_def bind_load_def)
  moreover have "addr_from_config inet_pton ?v = Some (Inr \<lparr>ad_src_ip = x, ad_dst_ip = y,
         ad_src_port = htons (of_nat (min m 65535)), ad_dst_port = htons (of_nat (min n 65535))\<rparr>)"
    if "lookup_items (ascii ''src_ip'') xs = Inr a" "cvt_val_u32 inet_pton a = Some x"
      "lookup_items (ascii ''dst_ip'') xs = Inr b" "cvt_val_u32 inet_pton b = Some y"
      "lookup_items (ascii ''src_port'') xs = Inr (decimal_bytes m)"
      "lookup_items (ascii ''dst_port'') xs = Inr (decimal_bytes n)" for a b x y m n
    using configure_items [where cvt = "cvt_val_u32 inet_pton" and failed = Bad_ipv4, OF assms plain_names(1) that(1,2)]
      configure_items [where cvt = "cvt_val_u32 inet_pton" and failed = Bad_ipv4, OF assms plain_names(2) that(3,4)]
      configure_items [where cvt = cvt_val_u16 and failed = Uninitialised, OF assms plain_names(3) that(5) cvt_decimal]
      configure_items [where cvt = cvt_val_u16 and failed = Uninitialised, OF assms plain_names(4) that(6) cvt_decimal]
    by (simp add: addr_from_config_def bind_load_def addr_load_def)
  ultimately show ?thesis using parse_config_rendered [OF assms(1)] by blast
qed

theorem address_from_text_witness:
  "\<exists>v. parse_config (ascii ''src_ip 7'' @ [10] @ ascii ''dst_ip 8'' @ [10] @ ascii ''src_port 5'' @ [10] @ ascii ''dst_port 6'' @ [10])
      = Inr v \<and>
    addr_from_config (\<lambda>s. None) v = Some (Inr \<lparr>ad_src_ip = 7, ad_dst_ip = 8, ad_src_port = htons 5, ad_dst_port = htons 6\<rparr>)"
proof -
  let ?xs = "[Opt (ascii ''src_ip'') [55], Opt (ascii ''dst_ip'') [56], Opt (ascii ''src_port'') (decimal_bytes 5),
    Opt (ascii ''dst_port'') (decimal_bytes 6)]"
  have d: "decimal_bytes 5 = [53]" "decimal_bytes 6 = [54]" by (simp_all add: decimal_bytes.simps)
  have ok: "list_all item_ok ?xs" using plain_names by (simp add: d plain_def)
  have len: "length (concat (map encode_item ?xs)) < 2 ^ 32" by (simp add: d ascii_def le32_def)
  have t: "concat (map render_item ?xs)
    = ascii ''src_ip 7'' @ [10] @ ascii ''dst_ip 8'' @ [10] @ ascii ''src_port 5'' @ [10] @ ascii ''dst_port 6'' @ [10]"
    by (simp add: d ascii_def of_char_def)
  have l: "lookup_items (ascii ''src_ip'') ?xs = Inr [55]" "lookup_items (ascii ''dst_ip'') ?xs = Inr [56]"
    "lookup_items (ascii ''src_port'') ?xs = Inr (decimal_bytes 5)"
    "lookup_items (ascii ''dst_port'') ?xs = Inr (decimal_bytes 6)"
    by (simp_all add: lookup_items_def item_value_def ascii_def of_char_def)
  have c: "cvt_val_u32 (\<lambda>s. None) [55] = Some 7" "cvt_val_u32 (\<lambda>s. None) [56] = Some 8"
    by (simp_all add: cvt_val_u32_def strtoul_def is_space_def digit_val_def word_le_nat_alt)
  from address_from_text [OF ok len, of "\<lambda>s. None"] l c show ?thesis unfolding t by auto
qed

end
