(* ===== verification/Peer_Id.thy ===== *)
theory Peer_Id
  imports Prelude
begin

text \<open>
  \<open>crypto/auth.h\<close> and \<open>crypto/auth.cc\<close>: 512-bit peer identifiers and the certificate check that
  ties a TLS connection to one. \<open>size_t\<close> has 64 bits, so an identifier is eight words. OpenSSL is
  a parameter: the hash function, and what each accessor called by the check returns.
\<close>

section \<open>Identifiers\<close>

record peer_id =
  pid_words :: "u64 list"

definition peer_id_zero :: peer_id where
  "peer_id_zero = \<lparr>pid_words = replicate 8 0\<rparr>"

definition pid_wf :: "peer_id \<Rightarrow> bool" where
  "pid_wf p \<longleftrightarrow> length (pid_words p) = 8"

text \<open>The loop of \<open>operator==\<close> and of \<open>std::hash<PeerId512_t>\<close>.\<close>

function pid_eq_loop :: "nat \<Rightarrow> peer_id \<Rightarrow> peer_id \<Rightarrow> bool" where
  "pid_eq_loop i a b =
     (if i < 8 then (if pid_words a ! i \<noteq> pid_words b ! i then False else pid_eq_loop (i + 1) a b)
      else True)"
  by pat_completeness auto
termination
  by (relation "measure (\<lambda>(i, a, b). 8 - i)") auto

declare pid_eq_loop.simps [simp del]

definition pid_eq :: "peer_id \<Rightarrow> peer_id \<Rightarrow> bool" where
  "pid_eq a b = pid_eq_loop 0 a b"

definition pid_hash :: "peer_id \<Rightarrow> u64" where
  "pid_hash p = foldl (+) 0 (pid_words p)"

lemma pid_eq_loop_iff: "pid_eq_loop i a b \<longleftrightarrow> (\<forall>j. i \<le> j \<and> j < 8 \<longrightarrow> pid_words a ! j = pid_words b ! j)"
proof (induction i a b rule: pid_eq_loop.induct)
  case (1 i a b)
  show ?case
  proof (cases "i < 8")
    case True
    have "(\<forall>j. i \<le> j \<and> j < 8 \<longrightarrow> pid_words a ! j = pid_words b ! j) \<longleftrightarrow>
        pid_words a ! i = pid_words b ! i \<and> (\<forall>j. i + 1 \<le> j \<and> j < 8 \<longrightarrow> pid_words a ! j = pid_words b ! j)"
      using True by (metis Suc_eq_plus1 Suc_leI le_eq_less_or_eq Suc_leD)
    with True 1 show ?thesis by (simp add: pid_eq_loop.simps [of i])
  qed (auto simp: pid_eq_loop.simps)
qed

lemma pid_eq_iff: "pid_wf a \<Longrightarrow> pid_wf b \<Longrightarrow> pid_eq a b \<longleftrightarrow> a = b"
  by (auto simp: pid_eq_def pid_eq_loop_iff pid_wf_def intro!: peer_id.equality nth_equalityI)

section \<open>Deriving an identifier\<close>

definition PEER_ID_SEED_1 :: bytes where
  "PEER_ID_SEED_1 = map of_char ''834h804n82y387ynx2307ny8x70236n4786yn38923'' @ [0]"

definition PEER_ID_SEED_2 :: bytes where
  "PEER_ID_SEED_2 = map of_char ''83n1-9348yc5n780345mn83485mt483mtg7tm58c48'' @ [0]"

text \<open>The eight words as they lie in memory, and back.\<close>

definition pid_bytes :: "peer_id \<Rightarrow> bytes" where
  "pid_bytes p = concat (map le64 (pid_words p))"

definition pid_of_bytes :: "bytes \<Rightarrow> peer_id" where
  "pid_of_bytes bs = \<lparr>pid_words = map (\<lambda>i. rd64 (take 8 (drop (8 * i) bs))) [0..<8]\<rparr>"

text \<open>
  \<open>sha512\<close> stands for \<open>SSLHasher("sha512")\<close>: the digest of what was put between \<open>start\<close> and
  \<open>finish\<close>. The digest is taken again \<open>1 << 14\<close> times.
\<close>

definition peer_id_from_sha512 :: "(bytes \<Rightarrow> bytes) \<Rightarrow> bytes \<Rightarrow> peer_id" where
  "peer_id_from_sha512 sha512 data =
     ((\<lambda>p. pid_of_bytes (sha512 (pid_bytes p))) ^^ 2 ^ 14)
       (pid_of_bytes (sha512 (PEER_ID_SEED_1 @ data @ PEER_ID_SEED_2)))"

section \<open>The certificate check\<close>

text \<open>
  What the OpenSSL calls of the handler return: the length of the chain, its first certificate,
  the public key of that certificate and its encoding, the index of the SSL object in the
  store context, that object, and the identifier attached to it. \<open>None\<close> is a null pointer.
\<close>

record verify_env =
  ve_chain_length :: int
  ve_peer_cert :: "nat option"
  ve_pubkey :: "nat \<Rightarrow> nat option"
  ve_i2d_pubkey :: "nat \<Rightarrow> int \<times> bytes option"
  ve_store_idx :: int
  ve_ssl :: "int \<Rightarrow> nat option"
  ve_expected :: "nat \<Rightarrow> peer_id option"

definition CERT_MAX_DEPTH :: int where
  "CERT_MAX_DEPTH = 4"

text \<open>Exceptions are caught by the handler, so the model only needs that there was one: \<open>None\<close>.\<close>

definition peer_id_from_cert :: "(bytes \<Rightarrow> bytes) \<Rightarrow> verify_env \<Rightarrow> nat \<Rightarrow> peer_id option" where
  "peer_id_from_cert sha512 env cert =
     (case ve_pubkey env cert of
        None \<Rightarrow> None
      | Some pubkey \<Rightarrow>
          (case ve_i2d_pubkey env pubkey of
             (subject_len, None) \<Rightarrow> None
           | (subject_len, Some subject) \<Rightarrow>
               if subject_len \<le> 0 then None
               else Some (peer_id_from_sha512 sha512 (take (nat subject_len) subject))))"

definition verify_body :: "(bytes \<Rightarrow> bytes) \<Rightarrow> verify_env \<Rightarrow> unit option" where
  "verify_body sha512 env =
     (if ve_chain_length env < 1 \<or> ve_chain_length env > CERT_MAX_DEPTH then None
      else
        (case ve_peer_cert env of
           None \<Rightarrow> None
         | Some peer_cert \<Rightarrow>
             (case peer_id_from_cert sha512 env peer_cert of
                None \<Rightarrow> None
              | Some current_peer_id \<Rightarrow>
                  if ve_store_idx env < 0 then None
                  else
                    (case ve_ssl env (ve_store_idx env) of
                       None \<Rightarrow> None
                     | Some ssl \<Rightarrow>
                         (case ve_expected env ssl of
                            None \<Rightarrow> None
                          | Some expected \<Rightarrow>
                              if \<not> pid_eq current_peer_id expected then None else Some ())))))"

definition ssl_peer_id_verify_handler :: "(bytes \<Rightarrow> bytes) \<Rightarrow> int \<Rightarrow> verify_env \<Rightarrow> int" where
  "ssl_peer_id_verify_handler sha512 preverify_ok env =
     (if preverify_ok = 0 then 0
      else (case verify_body sha512 env of None \<Rightarrow> 0 | Some _ \<Rightarrow> 1))"

lemma pid_wf_of_bytes [simp]: "pid_wf (pid_of_bytes bs)"
  by (simp add: pid_wf_def pid_of_bytes_def)

lemma pid_wf_from_sha512: "pid_wf (peer_id_from_sha512 sha512 data)"
proof -
  have "pid_wf (((\<lambda>p. pid_of_bytes (sha512 (pid_bytes p))) ^^ n) (pid_of_bytes bs))" for n bs
    by (induction n) simp_all
  then show ?thesis by (simp add: peer_id_from_sha512_def)
qed

section \<open>Properties\<close>



end
