(* ===== verification/Tracker.thy ===== *)
theory Tracker
  imports Peer_Id Assoc_Map "HOL-Library.Sublist"
begin

text \<open>
  \<open>tracker/tracker.cc\<close>: the tracker's tables of peers. The hash containers are association lists
  in the order they iterate; \<open>unordered_multimap\<close> keeps equal keys together, so \<open>equal_range\<close> is
  the sublist of entries of a key. Iterators into the ordered IPv4 index are positions; using
  the end iterator, undefined in C++, is \<open>None\<close>.
\<close>

section \<open>The tables\<close>

datatype peer_connection_type = TCPv4SSL | UDPv4 | TCPv6SSL | UDPv6

record peer_address =
  pa_ip :: u32
  pa_port :: u16

record tracker_peer_info =
  tp_peer_id :: peer_id
  tp_type :: peer_connection_type
  tp_address :: peer_address
  tp_description :: string

record conn_forward_info =
  cf_peer_id :: peer_id
  cf_address_type :: peer_connection_type
  cf_start_address :: peer_address
  cf_end_address :: peer_address
  cf_description :: string

record tracker =
  tr_removed_peers :: "peer_id list"
  tr_peer_info :: "(peer_id, tracker_peer_info) umap"
  tr_ipv4_idx :: "(u32, peer_id) omap"
  tr_forward_info :: "(peer_id \<times> conn_forward_info) list"

definition tracker_init :: tracker where
  "tracker_init = \<lparr>tr_removed_peers = [], tr_peer_info = [], tr_ipv4_idx = [], tr_forward_info = []\<rparr>"

text \<open>\<open>unordered_multimap::erase(key)\<close> removes all entries of the key.\<close>

definition mm_erase :: "'k \<Rightarrow> ('k \<times> 'v) list \<Rightarrow> ('k \<times> 'v) list" where
  "mm_erase k m = filter (\<lambda>p. fst p \<noteq> k) m"

definition mm_equal_range :: "('k \<times> 'v) list \<Rightarrow> 'k \<Rightarrow> ('k \<times> 'v) list" where
  "mm_equal_range m k = filter (\<lambda>p. fst p = k) m"

section \<open>Removing peers\<close>

definition rebuild_idx :: "(peer_id, tracker_peer_info) umap \<Rightarrow> (u32, peer_id) omap \<Rightarrow> (u32, peer_id) omap" where
  "rebuild_idx infos idx =
     fold (\<lambda>(ip, pid) new. if um_find infos pid \<noteq> None then om_assign ip pid new else new) idx []"

definition flush_removed_peers :: "tracker \<Rightarrow> tracker" where
  "flush_removed_peers t =
     (let infos = fold um_erase (tr_removed_peers t) (tr_peer_info t);
          forwards = fold mm_erase (tr_removed_peers t) (tr_forward_info t)
      in t\<lparr>tr_peer_info := infos, tr_forward_info := forwards,
           tr_ipv4_idx := rebuild_idx infos (tr_ipv4_idx t), tr_removed_peers := []\<rparr>)"

section \<open>Searching\<close>

text \<open>
  \<open>result.size() >= limit\<close> compares in \<open>size_t\<close>: a negative limit becomes a huge one.
\<close>

definition size_limit :: "u32 \<Rightarrow> nat" where
  "size_limit limit = unat (scast limit :: u64)"

definition str_contains :: "string \<Rightarrow> string \<Rightarrow> bool" where
  "str_contains pat s = sublist pat s"

fun find_peers_loop ::
  "string \<Rightarrow> u32 \<Rightarrow> (peer_id \<times> tracker_peer_info) list \<Rightarrow> tracker_peer_info list \<Rightarrow> tracker_peer_info list" where
  "find_peers_loop search_str limit [] result = result"
| "find_peers_loop search_str limit (entry # es) result =
     (if str_contains search_str (tp_description (snd entry)) then
        (let result' = result @ [snd entry]
         in if length result' \<ge> size_limit limit then result'
            else find_peers_loop search_str limit es result')
      else find_peers_loop search_str limit es result)"

definition find_peers :: "tracker \<Rightarrow> string \<Rightarrow> u32 \<Rightarrow> tracker_peer_info list" where
  "find_peers t search_str limit = find_peers_loop search_str limit (tr_peer_info t) []"

text \<open>The inner loop of \<open>find_forwards\<close>; its \<open>break\<close> does not leave the outer one.\<close>

fun range_loop ::
  "string \<Rightarrow> u32 \<Rightarrow> (peer_id \<times> conn_forward_info) list \<Rightarrow> conn_forward_info list \<Rightarrow> conn_forward_info list" where
  "range_loop search_str limit [] result = result"
| "range_loop search_str limit (it # its) result =
     (if str_contains search_str (cf_description (snd it)) then
        (let result' = result @ [snd it]
         in if length result' \<ge> size_limit limit then result'
            else range_loop search_str limit its result')
      else range_loop search_str limit its result)"

definition find_forwards :: "tracker \<Rightarrow> peer_id list \<Rightarrow> string \<Rightarrow> u32 \<Rightarrow> conn_forward_info list" where
  "find_forwards t peer_ids search_str limit =
     fold (\<lambda>pid result. range_loop search_str limit (mm_equal_range (tr_forward_info t) pid) result) peer_ids []"

section \<open>Peers by closest address\<close>

definition push_peer :: "tracker \<Rightarrow> peer_id \<Rightarrow> tracker_peer_info list \<Rightarrow> tracker_peer_info list" where
  "push_peer t pid result =
     (case um_find (tr_peer_info t) pid of None \<Rightarrow> result | Some info \<Rightarrow> result @ [info])"

text \<open>The three loops of \<open>find_ipv4_closest_peers\<close>; \<open>p\<close> is \<open>it_prev\<close>, \<open>q\<close> is \<open>it_next\<close>.\<close>

function merge_loop ::
  "tracker \<Rightarrow> u32 \<Rightarrow> u32 \<Rightarrow> nat \<Rightarrow> nat \<Rightarrow> tracker_peer_info list \<Rightarrow> (nat \<times> nat \<times> tracker_peer_info list) option" where
  "merge_loop t ip limit p q result =
     (let idx = tr_ipv4_idx t
      in if length result < size_limit limit \<and> p \<noteq> 0 \<and> q < length idx then
           if p < length idx then
             if ip - fst (idx ! p) < fst (idx ! q) - ip
             then merge_loop t ip limit (p - 1) q (push_peer t (snd (idx ! p)) result)
             else merge_loop t ip limit p (q + 1) (push_peer t (snd (idx ! q)) result)
           else None
         else Some (p, q, result))"
  by pat_completeness auto
termination
  by (relation "measure (\<lambda>(t, ip, limit, p, q, result). p + (length (tr_ipv4_idx t) - q))") auto

function prev_loop :: "tracker \<Rightarrow> u32 \<Rightarrow> nat \<Rightarrow> tracker_peer_info list \<Rightarrow> tracker_peer_info list option" where
  "prev_loop t limit p result =
     (let idx = tr_ipv4_idx t
      in if length result < size_limit limit \<and> p \<noteq> 0 then
           if p < length idx then prev_loop t limit (p - 1) (push_peer t (snd (idx ! p)) result)
           else None
         else Some result)"
  by pat_completeness auto
termination
  by (relation "measure (\<lambda>(t, limit, p, result). p)") auto

function next_loop :: "tracker \<Rightarrow> u32 \<Rightarrow> nat \<Rightarrow> tracker_peer_info list \<Rightarrow> tracker_peer_info list" where
  "next_loop t limit q result =
     (let idx = tr_ipv4_idx t
      in if length result < size_limit limit \<and> q < length idx
         then next_loop t limit (q + 1) (push_peer t (snd (idx ! q)) result)
         else result)"
  by pat_completeness auto
termination
  by (relation "measure (\<lambda>(t, limit, q, result). length (tr_ipv4_idx t) - q)") auto

declare merge_loop.simps [simp del] prev_loop.simps [simp del] next_loop.simps [simp del]

definition find_ipv4_closest_peers :: "tracker \<Rightarrow> u32 \<Rightarrow> u32 \<Rightarrow> tracker_peer_info list option" where
  "find_ipv4_closest_peers t ip limit =
     (case merge_loop t ip limit (om_lower_bound (tr_ipv4_idx t) ip) (om_upper_bound (tr_ipv4_idx t) ip) [] of
        None \<Rightarrow> None
      | Some (p, q, result) \<Rightarrow>
          (case prev_loop t limit p result of
             None \<Rightarrow> None
           | Some result' \<Rightarrow> Some (next_loop t limit q result')))"

end
