(* ===== verification/Tracker_Queries.thy ===== *)
theory Tracker_Queries
  imports Tracker
begin

text \<open>
  What the tracker's operations compute: removal leaves consistent tables, the searches return a
  prefix of the matches, and the address search walks the index.
\<close>

section \<open>Removal\<close>

lemma find_rebuild_idx:
  assumes "om_wf idx" and "om_wf new" and "\<forall>ip \<in> fst ` set idx. om_find new ip = None"
  shows "om_wf (fold (\<lambda>(ip, pid) new. if um_find infos pid \<noteq> None then om_assign ip pid new else new) idx new) \<and>
    om_find (fold (\<lambda>(ip, pid) new. if um_find infos pid \<noteq> None then om_assign ip pid new else new) idx new) ip =
      (case om_find idx ip of
         Some pid \<Rightarrow> if um_find infos pid \<noteq> None then Some pid else None
       | None \<Rightarrow> om_find new ip)"
  using assms
proof (induction idx arbitrary: new)
  case Nil
  then show ?case by simp
next
  case (Cons e idx)
  obtain a pid where e: "e = (a, pid)" by (cases e)
  have wf: "om_wf idx" and fresh: "a \<notin> fst ` set idx" using Cons.prems(1) e by (auto simp: om_wf_Cons)
  let ?new = "if um_find infos pid \<noteq> None then om_assign a pid new else new"
  have wf': "om_wf ?new" using Cons.prems(2) by (simp add: om_wf_assign)
  have find: "om_find ?new j = (if j = a \<and> um_find infos pid \<noteq> None then Some pid else om_find new j)" for j
    using Cons.prems(2) by (auto simp: om_find_assign)
  have "\<forall>ip \<in> fst ` set idx. om_find ?new ip = None" using Cons.prems(3) fresh find by auto
  from Cons.IH [OF wf wf' this] show ?case
    using Cons.prems(3) e fresh find [of ip]
    by (auto simp: om_find_None_iff [symmetric] split: option.splits)
qed

lemma rebuild_idx_spec:
  assumes "om_wf idx"
  shows "om_wf (rebuild_idx infos idx)"
    and "om_find (rebuild_idx infos idx) ip = (case om_find idx ip of
        Some pid \<Rightarrow> if um_find infos pid \<noteq> None then Some pid else None | None \<Rightarrow> None)"
proof -
  have "\<forall>ip \<in> fst ` set idx. om_find [] ip = None" by simp
  note h = find_rebuild_idx [OF assms om_wf_Nil this, of infos ip]
  show "om_wf (rebuild_idx infos idx)" unfolding rebuild_idx_def using h by blast
  show "om_find (rebuild_idx infos idx) ip = (case om_find idx ip of
        Some pid \<Rightarrow> if um_find infos pid \<noteq> None then Some pid else None | None \<Rightarrow> None)"
    unfolding rebuild_idx_def using h by (cases "om_find idx ip") simp_all
qed

lemma mm_erase_all: "fold mm_erase ks m = filter (\<lambda>p. fst p \<notin> set ks) m"
  by (induction ks arbitrary: m) (auto simp: mm_erase_def intro: filter_cong)

section \<open>Searching\<close>

lemma find_peers_loop_eq:
  "find_peers_loop pat limit es result = result @ take (max 1 (size_limit limit - length result))
    (filter (\<lambda>i. str_contains pat (tp_description i)) (map snd es))"
  by (induction pat limit es result rule: find_peers_loop.induct)
    (auto simp: Let_def max_def take_Cons' not_le split: if_splits)

lemma range_loop_eq:
  "range_loop pat limit its result = result @ take (max 1 (size_limit limit - length result))
    (filter (\<lambda>i. str_contains pat (cf_description i)) (map snd its))"
  by (induction pat limit its result rule: range_loop.induct)
    (auto simp: Let_def max_def take_Cons' not_le split: if_splits)


lemma find_forwards_length:
  "result \<noteq> [] \<or> ids \<noteq> [] \<Longrightarrow> length result \<le> max 1 (size_limit limit) + extra \<Longrightarrow>
   length (fold (\<lambda>pid result. range_loop pat limit (mm_equal_range m pid) result) ids result)
     \<le> max 1 (size_limit limit) + (if result = [] then length ids - 1 else extra + length ids)"
proof (induction ids arbitrary: result extra)
  case (Cons pid ids)
  let ?r = "range_loop pat limit (mm_equal_range m pid) result"
  have step: "length ?r \<le> length result + max 1 (size_limit limit - length result)" and "length result \<le> length ?r"
    by (simp_all add: range_loop_eq)
  show ?case
  proof (cases "?r = []")
    case True
    then have "result = []" using \<open>length result \<le> length ?r\<close> by simp
    show ?thesis
    proof (cases "ids = []")
      case True
      then show ?thesis using \<open>?r = []\<close> by simp
    next
      case False
      have "length (fold (\<lambda>pid result. range_loop pat limit (mm_equal_range m pid) result) ids ?r)
          \<le> max 1 (size_limit limit) + (length ids - 1)"
        using Cons.IH [of ?r 0] False \<open>?r = []\<close> by simp
      then show ?thesis using \<open>result = []\<close> by (simp add: le_diff_conv)
    qed
  next
    case False
    let ?e = "if result = [] then 0 else extra + 1"
    have "length ?r \<le> max 1 (size_limit limit) + ?e"
      using step Cons.prems(2) by (auto simp: max_def split: if_splits)
    from Cons.IH [OF disjI1 [OF False] this] False show ?thesis by auto
  qed
qed auto

section \<open>The address search\<close>

definition known :: "tracker \<Rightarrow> bool" where
  "known t \<longleftrightarrow> (\<forall>(ip, pid) \<in> set (tr_ipv4_idx t). um_find (tr_peer_info t) pid \<noteq> None)"

definition idx_info :: "tracker \<Rightarrow> u32 \<times> peer_id \<Rightarrow> tracker_peer_info" where
  "idx_info t e = the (um_find (tr_peer_info t) (snd e))"

lemma push_peer_known: "known t \<Longrightarrow> e \<in> set (tr_ipv4_idx t) \<Longrightarrow> push_peer t (snd e) result = result @ [idx_info t e]"
  by (cases e) (auto simp: known_def push_peer_def idx_info_def split: option.splits)

lemma merge_loop_defined:
  "p < length (tr_ipv4_idx t) \<Longrightarrow> \<exists>p' q' r'. merge_loop t ip limit p q result = Some (p', q', r') \<and> p' \<le> p"
proof (induction t ip limit p q result rule: merge_loop.induct)
  case (1 t ip limit p q result)
  show ?case
  proof (cases "length result < size_limit limit \<and> p \<noteq> 0 \<and> q < length (tr_ipv4_idx t)")
    case True
    show ?thesis
    proof (cases "ip - fst (tr_ipv4_idx t ! p) < fst (tr_ipv4_idx t ! q) - ip")
      case less: True
      obtain p' q' r' where "merge_loop t ip limit (p - 1) q (push_peer t (snd (tr_ipv4_idx t ! p)) result) = Some (p', q', r')"
          "p' \<le> p - 1"
      proof -
        have "p - 1 < length (tr_ipv4_idx t)" using "1.prems" by simp
        from "1.IH"(1) [OF refl True "1.prems" less this] that show ?thesis by blast
      qed
      then show ?thesis using True less "1.prems" by (subst merge_loop.simps) auto
    next
      case False
      then show ?thesis using "1.IH"(2) [OF refl True "1.prems" False "1.prems"] True "1.prems"
        by (subst merge_loop.simps) auto
    qed
  qed (auto simp: merge_loop.simps [of t ip limit p q])
qed

lemma prev_loop_defined:
  "p < length (tr_ipv4_idx t) \<or> p = 0 \<Longrightarrow> prev_loop t limit p result \<noteq> None"
proof (induction t limit p result rule: prev_loop.induct)
  case (1 t limit p result)
  have "p - 1 < length (tr_ipv4_idx t) \<or> p - 1 = 0" using "1.prems" by auto
  with 1 show ?case by (subst prev_loop.simps) (auto simp: Let_def)
qed

lemma lower_bound_less: "om_lower_bound idx ip < length idx \<longleftrightarrow> (\<exists>e \<in> set idx. \<not> fst e < ip)"
  unfolding om_lower_bound_def
  by (metis (mono_tags, lifting) length_takeWhile_le nat_less_le takeWhile_eq_all_conv takeWhile_eq_take take_all_iff order_refl)

lemma lower_le_upper: "om_lower_bound idx ip \<le> om_upper_bound idx ip"
  unfolding om_lower_bound_def om_upper_bound_def
  by (induction idx) auto

lemma closest_defined_iff:
  "find_ipv4_closest_peers t ip limit = None \<longleftrightarrow>
    tr_ipv4_idx t \<noteq> [] \<and> size_limit limit \<noteq> 0 \<and> (\<forall>e \<in> set (tr_ipv4_idx t). fst e < ip)"
proof -
  let ?idx = "tr_ipv4_idx t" let ?p = "om_lower_bound ?idx ip" and ?q = "om_upper_bound ?idx ip"
  show ?thesis
  proof (cases "?p < length ?idx")
    case True
    then obtain p' q' r' where "merge_loop t ip limit ?p ?q [] = Some (p', q', r')" "p' \<le> ?p"
      using merge_loop_defined by blast
    with prev_loop_defined [of p' t limit r'] True have "find_ipv4_closest_peers t ip limit \<noteq> None"
      by (auto simp: find_ipv4_closest_peers_def split: option.splits)
    then show ?thesis using True by (auto simp: lower_bound_less)
  next
    case False
    have "?p \<le> length ?idx" "?q \<le> length ?idx"
      by (simp_all add: om_lower_bound_def om_upper_bound_def length_takeWhile_le)
    with False lower_le_upper [of ?idx ip] have pq: "?p = length ?idx" "?q = length ?idx" by auto
    have all: "\<forall>e \<in> set ?idx. fst e < ip" using False by (simp add: lower_bound_less)
    have "find_ipv4_closest_peers t ip limit = None \<longleftrightarrow> prev_loop t limit (length ?idx) [] = None"
      unfolding find_ipv4_closest_peers_def pq
      by (subst merge_loop.simps) (auto simp: Let_def split: option.splits)
    also have "\<dots> \<longleftrightarrow> size_limit limit \<noteq> 0 \<and> ?idx \<noteq> []"
      by (subst prev_loop.simps) (auto simp: Let_def)
    finally show ?thesis using all by blast
  qed
qed


text \<open>When the address lies strictly between two keys, both iterators start above it.\<close>

lemma merge_loop_next:
  assumes "known t" and "p \<noteq> 0" and "p < length (tr_ipv4_idx t)"
    and "\<forall>j. q \<le> j \<and> j < length (tr_ipv4_idx t) \<longrightarrow> fst (tr_ipv4_idx t ! j) - ip \<le> ip - fst (tr_ipv4_idx t ! p)"
    and "q \<le> length (tr_ipv4_idx t)"
  shows "merge_loop t ip limit p q result =
    (let m = min (size_limit limit - length result) (length (tr_ipv4_idx t) - q)
     in Some (p, q + m, result @ map (idx_info t) (take m (drop q (tr_ipv4_idx t)))))"
  using assms
proof (induction t ip limit p q result rule: merge_loop.induct)
  case (1 t ip limit p q result)
  let ?idx = "tr_ipv4_idx t"
  show ?case
  proof (cases "length result < size_limit limit \<and> q < length ?idx")
    case True
    then have c: "length result < size_limit limit \<and> p \<noteq> 0 \<and> q < length ?idx" using "1.prems"(2) by simp
    have n: "\<not> ip - fst (?idx ! p) < fst (?idx ! q) - ip" using "1.prems"(4) True by (simp add: not_less)
    have push: "push_peer t (snd (?idx ! q)) result = result @ [idx_info t (?idx ! q)]"
      using "1.prems"(1) True by (simp add: push_peer_known)
    let ?m = "min (size_limit limit - length (result @ [idx_info t (?idx ! q)])) (length ?idx - (q + 1))"
    have "merge_loop t ip limit p q result = merge_loop t ip limit p (q + 1) (result @ [idx_info t (?idx ! q)])"
      using c n push "1.prems"(3) by (subst merge_loop.simps) simp
    also have "\<dots> = Some (p, q + 1 + ?m, (result @ [idx_info t (?idx ! q)]) @ map (idx_info t) (take ?m (drop (q + 1) ?idx)))"
      using "1.IH"(2) [OF refl c "1.prems"(3) n] "1.prems" True push by (simp add: Let_def)
    finally have eq: "merge_loop t ip limit p q result = Some (p, q + 1 + ?m,
      (result @ [idx_info t (?idx ! q)]) @ map (idx_info t) (take ?m (drop (q + 1) ?idx)))" .
    have m: "min (size_limit limit - length result) (length ?idx - q) = Suc ?m" using True by auto
    have d: "drop q ?idx = ?idx ! q # drop (q + 1) ?idx" using True by (simp add: Cons_nth_drop_Suc)
    show ?thesis unfolding eq m Let_def d by simp
  next
    case False
    then show ?thesis using "1.prems" by (subst merge_loop.simps) auto
  qed
qed

lemma prev_loop_known:
  assumes "known t" and "p < length (tr_ipv4_idx t)"
  shows "prev_loop t limit p result = Some (result @
    take (size_limit limit - length result) (map (idx_info t) (rev (drop 1 (take (p + 1) (tr_ipv4_idx t))))))"
  using assms
proof (induction t limit p result rule: prev_loop.induct)
  case (1 t limit p result)
  let ?idx = "tr_ipv4_idx t"
  show ?case
  proof (cases "length result < size_limit limit \<and> p \<noteq> 0")
    case True
    have push: "push_peer t (snd (?idx ! p)) result = result @ [idx_info t (?idx ! p)]"
      using "1.prems" by (simp add: push_peer_known)
    obtain k where k: "p = Suc k" using True by (cases p) auto
    have l: "rev (drop 1 (take (p + 1) ?idx)) = ?idx ! p # rev (drop 1 (take (k + 1) ?idx))"
    proof -
      have "take (p + 1) ?idx = take (k + 1) ?idx @ [?idx ! p]"
        using "1.prems"(2) k by (simp add: take_Suc_conv_app_nth)
      moreover have "1 - length (take (k + 1) ?idx) = 0" using "1.prems"(2) k by simp
      ultimately show ?thesis by (simp only: drop_append rev_append) simp
    qed
    have n: "size_limit limit - length result = Suc (size_limit limit - length (result @ [idx_info t (?idx ! p)]))"
      using conjunct1 [OF True] by (simp add: Suc_diff_Suc)
    have "prev_loop t limit p result = prev_loop t limit k (result @ [idx_info t (?idx ! p)])"
      using True push k "1.prems"(2) by (subst prev_loop.simps) simp
    also have "\<dots> = Some ((result @ [idx_info t (?idx ! p)]) @
      take (size_limit limit - length (result @ [idx_info t (?idx ! p)])) (map (idx_info t) (rev (drop 1 (take (k + 1) ?idx)))))"
      using "1.IH" [OF refl True "1.prems"(2) "1.prems"(1)] push k "1.prems"(2) by simp
    finally show ?thesis unfolding l n by simp
  next
    case False
    then show ?thesis by (subst prev_loop.simps) auto
  qed
qed

lemma closest_between:
  assumes "known t" and "p = om_lower_bound (tr_ipv4_idx t) ip" and "p = om_upper_bound (tr_ipv4_idx t) ip"
    and "p \<noteq> 0" and "p < length (tr_ipv4_idx t)"
    and "\<forall>j. p \<le> j \<and> j < length (tr_ipv4_idx t) \<longrightarrow> fst (tr_ipv4_idx t ! j) - ip \<le> ip - fst (tr_ipv4_idx t ! p)"
  shows "find_ipv4_closest_peers t ip limit = Some (take (size_limit limit)
    (map (idx_info t) (drop p (tr_ipv4_idx t) @ rev (drop 1 (take (p + 1) (tr_ipv4_idx t))))))"
proof -
  let ?idx = "tr_ipv4_idx t" and ?L = "size_limit limit"
  let ?m = "min ?L (length ?idx - p)"
  let ?r = "map (idx_info t) (take ?m (drop p ?idx))"
  let ?s = "?r @ take (?L - length ?r) (map (idx_info t) (rev (drop 1 (take (p + 1) ?idx))))"
  have m: "merge_loop t ip limit p p [] = Some (p, p + ?m, ?r)"
    using merge_loop_next [OF assms(1,4,5,6), of limit "[]"] assms(5) by (simp add: Let_def)
  have b: "prev_loop t limit p ?r = Some ?s" by (rule prev_loop_known [OF assms(1,5)])
  have "\<not> length ?s < ?L \<or> \<not> p + ?m < length ?idx" by auto
  then have n: "next_loop t limit (p + ?m) ?s = ?s" by (subst next_loop.simps) (simp only: Let_def, auto)
  have "find_ipv4_closest_peers t ip limit = Some ?s"
    by (simp only: find_ipv4_closest_peers_def assms(2,3) [symmetric] m b n option.case prod.case)
  also have "?r = take ?L (map (idx_info t) (drop p ?idx))" by (simp add: take_map min_def)
  finally show ?thesis by (simp add: take_append min_def)
qed

text \<open>A peer for the examples.\<close>

definition sample_info :: "u64 \<Rightarrow> tracker_peer_info" where
  "sample_info n = \<lparr>tp_peer_id = \<lparr>pid_words = [n]\<rparr>, tp_type = UDPv4,
     tp_address = \<lparr>pa_ip = 0, pa_port = 0\<rparr>, tp_description = ''peer''\<rparr>"

section \<open>Properties\<close>

text \<open>
  (C18) Flushing removes exactly the removed peers: their information and all their forwards are
  gone, everything else is kept, the address index keeps exactly the entries of peers still
  known, and no peer stays marked as removed.
\<close>

theorem flush_removes_exactly:
  assumes "om_wf (tr_ipv4_idx t)" and "um_wf (tr_peer_info t)"
  defines "t' \<equiv> flush_removed_peers t"
  shows "(\<forall>pid. um_find (tr_peer_info t') pid
        = (if pid \<in> set (tr_removed_peers t) then None else um_find (tr_peer_info t) pid)) \<and>
    (\<forall>pid. mm_equal_range (tr_forward_info t') pid
        = (if pid \<in> set (tr_removed_peers t) then [] else mm_equal_range (tr_forward_info t) pid)) \<and>
    om_wf (tr_ipv4_idx t') \<and>
    (\<forall>ip. om_find (tr_ipv4_idx t') ip = (case om_find (tr_ipv4_idx t) ip of
        Some pid \<Rightarrow> if um_find (tr_peer_info t') pid \<noteq> None then Some pid else None | None \<Rightarrow> None)) \<and>
    tr_removed_peers t' = []"
proof (intro conjI allI)
  show "um_find (tr_peer_info t') pid
      = (if pid \<in> set (tr_removed_peers t) then None else um_find (tr_peer_info t) pid)" for pid
    using um.find_erase_all [OF assms(2)] by (simp add: t'_def flush_removed_peers_def Let_def)
  show "mm_equal_range (tr_forward_info t') pid
      = (if pid \<in> set (tr_removed_peers t) then [] else mm_equal_range (tr_forward_info t) pid)" for pid
    by (auto simp: t'_def flush_removed_peers_def Let_def mm_erase_all mm_equal_range_def filter_empty_conv
        intro: filter_cong)
  show "om_wf (tr_ipv4_idx t')"
    using rebuild_idx_spec(1) [OF assms(1)] by (simp add: t'_def flush_removed_peers_def Let_def)
  show "om_find (tr_ipv4_idx t') ip = (case om_find (tr_ipv4_idx t) ip of
        Some pid \<Rightarrow> if um_find (tr_peer_info t') pid \<noteq> None then Some pid else None | None \<Rightarrow> None)" for ip
    using rebuild_idx_spec(2) [OF assms(1)]
    by (cases "om_find (tr_ipv4_idx t) ip") (simp_all add: t'_def flush_removed_peers_def Let_def)
qed (simp add: t'_def flush_removed_peers_def Let_def)

theorem flush_removes_exactly_witness:
  "om_find (tr_ipv4_idx (flush_removed_peers (tracker_init\<lparr>tr_removed_peers := [peer_id_zero],
      tr_peer_info := [(peer_id_zero, sample_info 1)], tr_ipv4_idx := [(7, peer_id_zero)]\<rparr>))) 7 = None"
proof -
  let ?t = "tracker_init\<lparr>tr_removed_peers := [peer_id_zero],
      tr_peer_info := [(peer_id_zero, sample_info 1)], tr_ipv4_idx := [(7, peer_id_zero)]\<rparr>"
  have "om_wf (tr_ipv4_idx ?t)" "um_wf (tr_peer_info ?t)" by (simp_all add: om_wf_def um_wf_def)
  from flush_removes_exactly [OF this] show ?thesis by (simp add: om_find_def)
qed

text \<open>
  The searches return matches in table order: \<open>find_peers\<close> exactly the first \<open>limit\<close> of them
  (one, when the limit is 0), \<open>find_forwards\<close> up to one more for each further identifier, since
  its \<open>break\<close> only leaves the inner loop.
\<close>

theorem searches_bounded:
  "find_peers t pat limit = take (max 1 (size_limit limit))
      (filter (\<lambda>i. str_contains pat (tp_description i)) (map snd (tr_peer_info t))) \<and>
    length (find_forwards t ids pat limit) \<le> max 1 (size_limit limit) + (length ids - 1)"
proof
  show "find_peers t pat limit = take (max 1 (size_limit limit))
      (filter (\<lambda>i. str_contains pat (tp_description i)) (map snd (tr_peer_info t)))"
    by (simp add: find_peers_def find_peers_loop_eq)
  show "length (find_forwards t ids pat limit) \<le> max 1 (size_limit limit) + (length ids - 1)"
  proof (cases "ids = []")
    case False
    then show ?thesis using find_forwards_length [of "[]" ids limit 0 pat "tr_forward_info t"]
      by (simp add: find_forwards_def)
  qed (simp add: find_forwards_def)
qed

text \<open>
  The address search dereferences the end iterator exactly when the index is not empty, the
  limit is not 0 and every indexed address is below the one searched.
\<close>

theorem closest_peers_undefined_iff:
  "find_ipv4_closest_peers t ip limit = None \<longleftrightarrow>
    tr_ipv4_idx t \<noteq> [] \<and> size_limit limit \<noteq> 0 \<and> (\<forall>e \<in> set (tr_ipv4_idx t). fst e < ip)"
  by (rule closest_defined_iff)

theorem closest_peers_undefined_iff_witness:
  "find_ipv4_closest_peers (tracker_init\<lparr>tr_ipv4_idx := [(10, \<lparr>pid_words = [1]\<rparr>), (19, \<lparr>pid_words = [2]\<rparr>)]\<rparr>) 20 2 = None"
  by (rule closest_peers_undefined_iff [THEN iffD2]) (simp add: size_limit_def)

text \<open>
  The address search does not return the closest peers: for an address between two indexed
  ones (and near enough that no distance wraps around), all the peers above come first, then the
  nearest one above a second time, then those below except the lowest, which is never returned.
\<close>

theorem closest_peers_order:
  assumes "known t" and "p = om_lower_bound (tr_ipv4_idx t) ip" and "p = om_upper_bound (tr_ipv4_idx t) ip"
    and "p \<noteq> 0" and "p < length (tr_ipv4_idx t)"
    and "\<forall>j. p \<le> j \<and> j < length (tr_ipv4_idx t) \<longrightarrow> fst (tr_ipv4_idx t ! j) - ip \<le> ip - fst (tr_ipv4_idx t ! p)"
  shows "find_ipv4_closest_peers t ip limit = Some (take (size_limit limit)
    (map (idx_info t) (drop p (tr_ipv4_idx t) @ rev (drop 1 (take (p + 1) (tr_ipv4_idx t))))))"
  by (rule closest_between [OF assms])


theorem closest_peers_order_witness:
  "find_ipv4_closest_peers (tracker_init\<lparr>
      tr_peer_info := [(\<lparr>pid_words = [1]\<rparr>, sample_info 1), (\<lparr>pid_words = [2]\<rparr>, sample_info 2),
        (\<lparr>pid_words = [3]\<rparr>, sample_info 3)],
      tr_ipv4_idx := [(10, \<lparr>pid_words = [1]\<rparr>), (19, \<lparr>pid_words = [2]\<rparr>), (90, \<lparr>pid_words = [3]\<rparr>)]\<rparr>) 20 2
    = Some [sample_info 3, sample_info 3]"
proof -
  let ?t = "tracker_init\<lparr>
      tr_peer_info := [(\<lparr>pid_words = [1]\<rparr>, sample_info 1), (\<lparr>pid_words = [2]\<rparr>, sample_info 2),
        (\<lparr>pid_words = [3]\<rparr>, sample_info 3)],
      tr_ipv4_idx := [(10, \<lparr>pid_words = [1]\<rparr>), (19, \<lparr>pid_words = [2]\<rparr>), (90, \<lparr>pid_words = [3]\<rparr>)]\<rparr>"
  have h: "known ?t" "2 = om_lower_bound (tr_ipv4_idx ?t) 20" "2 = om_upper_bound (tr_ipv4_idx ?t) 20"
    "(2 :: nat) \<noteq> 0" "2 < length (tr_ipv4_idx ?t)"
    by (simp_all add: known_def om_lower_bound_def om_upper_bound_def word_less_nat_alt word_le_nat_alt)
  have "j = 2" if "2 \<le> j" "j < length (tr_ipv4_idx ?t)" for j using that by simp
  then have "\<forall>j. 2 \<le> j \<and> j < length (tr_ipv4_idx ?t) \<longrightarrow>
      fst (tr_ipv4_idx ?t ! j) - 20 \<le> 20 - fst (tr_ipv4_idx ?t ! 2)"
    by (auto simp: word_le_nat_alt dest!: le_neq_implies_less)
  from closest_peers_order [OF h this, of 2] show ?thesis
    by (simp add: size_limit_def idx_info_def)
qed

end
