(* ===== verification/Channel.thy ===== *)
theory Channel
  imports Tracker Guards
begin

text \<open>
  \<open>conn/\<close> and the transfer loops of \<open>crypto/ssl.cc\<close>: messages between peers over TLS, and the
  tables of handlers that consume them. A TLS connection is the bytes still to be read from it;
  what each \<open>SSL_read\<close> or \<open>SSL_write\<close> does is given by a list of results: a positive number is how
  many bytes are available or accepted at most (the call never moves more than it was asked
  to), 0 and negative numbers are failures. A loop that needs more results is \<open>None\<close>.
\<close>

section \<open>Transfer loops\<close>

datatype conn_exc = Ssl_error | Peer_not_connected | Handler_already_registered
  | Data_size_exceeds_maximum | No_handler_for_data | Data_alloc_failed

function ssl_read_loop ::
  "int list \<Rightarrow> bytes \<Rightarrow> nat \<Rightarrow> bytes \<Rightarrow> (conn_exc + bytes \<times> bytes \<times> int list) option" where
  "ssl_read_loop results stream buf_len buf =
     (if length buf < buf_len then
        (case results of
           [] \<Rightarrow> None
         | r # rs \<Rightarrow>
             if r \<le> 0 then Some (Inl Ssl_error)
             else
               (let n = min (nat r) (buf_len - length buf)
                in if length stream < n then None
                   else ssl_read_loop rs (drop n stream) buf_len (buf @ take n stream)))
      else Some (Inr (buf, stream, results)))"
  by pat_completeness auto
termination
  by (relation "measure (\<lambda>(results, stream, buf_len, buf). length results)") auto

declare ssl_read_loop.simps [simp del]

text \<open>\<open>SSLReadAllData\<close>: the bytes read, the rest of the stream and of the results.\<close>

definition SSLReadAllData ::
  "int list \<Rightarrow> bytes \<Rightarrow> nat \<Rightarrow> (conn_exc + bytes \<times> bytes \<times> int list) option" where
  "SSLReadAllData results stream buf_len = ssl_read_loop results stream buf_len []"

function ssl_write_loop ::
  "int list \<Rightarrow> bytes \<Rightarrow> nat \<Rightarrow> bytes \<Rightarrow> (conn_exc option \<times> bytes \<times> int list) option" where
  "ssl_write_loop results buf total_written wire =
     (if total_written < length buf then
        (case results of
           [] \<Rightarrow> None
         | r # rs \<Rightarrow>
             if r \<le> 0 then Some (Some Ssl_error, wire, rs)
             else
               (let n = min (nat r) (length buf - total_written)
                in ssl_write_loop rs buf (total_written + n) (wire @ take n (drop total_written buf))))
      else Some (None, wire, results))"
  by pat_completeness auto
termination
  by (relation "measure (\<lambda>(results, buf, total_written, wire). length results)") auto

declare ssl_write_loop.simps [simp del]

text \<open>\<open>SSLWriteAllData\<close> appends to the bytes on the wire; those sent before an error stay sent.\<close>

definition SSLWriteAllData ::
  "int list \<Rightarrow> bytes \<Rightarrow> bytes \<Rightarrow> (conn_exc option \<times> bytes \<times> int list) option" where
  "SSLWriteAllData results buf wire = ssl_write_loop results buf 0 wire"

section \<open>Handlers\<close>

text \<open>
  A handler has a size limit, a function, the argument it is registered with and a name; that of a
  channel between two peers also says how to describe it and how to destroy its argument.
\<close>

record 'f global_channel_handler =
  ch_max_data_size :: u32
  ch_on_data :: 'f
  ch_arg :: nat
  ch_name :: string

record 'f peer_channel_handler =
  ph_max_data_size :: u32
  ph_on_data :: 'f
  ph_show_description :: 'f
  ph_destroy :: "'f option"
  ph_arg :: nat

text \<open>
  The defaulted move constructor and move assignment copy every field: the pointers of the handler
  moved from stay. The destructor calls \<open>destroy\<close> with the argument.
\<close>

definition ph_move :: "'f peer_channel_handler \<Rightarrow> 'f peer_channel_handler \<times> 'f peer_channel_handler" where
  "ph_move other = (other, other)"

definition ph_assign ::
  "'f peer_channel_handler \<Rightarrow> 'f peer_channel_handler \<Rightarrow> 'f peer_channel_handler \<times> 'f peer_channel_handler" where
  "ph_assign this other = (other, other)"

definition ph_destructor :: "'f peer_channel_handler \<Rightarrow> ('f \<times> nat) list" where
  "ph_destructor h = (case ph_destroy h of None \<Rightarrow> [] | Some f \<Rightarrow> [(f, ph_arg h)])"

text \<open>The calls made: function, argument, source, data and size.\<close>

type_synonym 'f handler_call = "'f \<times> nat \<times> peer_id option \<times> bytes \<times> u32"

type_synonym 'f handlers = "(u32, 'f global_channel_handler) umap"

definition register_global_handler :: "u32 \<Rightarrow> 'f global_channel_handler \<Rightarrow> 'f handlers \<Rightarrow> conn_exc option \<times> 'f handlers" where
  "register_global_handler type handler hs =
     (if um_find hs type = None then (None, um_emplace type handler hs)
      else (Some Handler_already_registered, hs))"

definition global_handle_data ::
  "'f handlers \<Rightarrow> peer_id \<Rightarrow> u32 \<Rightarrow> bytes \<Rightarrow> u32 \<Rightarrow> conn_exc + bool \<times> 'f handler_call list" where
  "global_handle_data hs src_id type data sz =
     (case um_find hs type of
        None \<Rightarrow> Inr (False, [])
      | Some h \<Rightarrow>
          if sz > ch_max_data_size h then Inl Data_size_exceeds_maximum
          else Inr (True, [(ch_on_data h, ch_arg h, Some src_id, data, sz)]))"

text \<open>
  \<open>PeerConnection\<close> with its own table of channels; in the place of \<open>ssl\<close>, the bytes written to it.
\<close>

record 'f peer_connection =
  pc_socket :: socket_guard
  pc_conn_type :: peer_connection_type
  pc_src_address :: peer_address
  pc_dst_address :: peer_address
  pc_wire_out :: bytes
  pc_peer_id :: peer_id
  pc_channels :: "(u32, 'f peer_channel_handler) umap"

definition peer_handle_data ::
  "'f peer_connection \<Rightarrow> u32 \<Rightarrow> bytes \<Rightarrow> u32 \<Rightarrow> conn_exc + bool \<times> 'f handler_call list" where
  "peer_handle_data con type data sz =
     (case um_find (pc_channels con) type of
        None \<Rightarrow> Inr (False, [])
      | Some h \<Rightarrow>
          if sz > ph_max_data_size h then Inl Data_size_exceeds_maximum
          else Inr (True, [(ph_on_data h, ph_arg h, None, data, sz)]))"

section \<open>Messages\<close>

text \<open>\<open>MessageHeader_t\<close> in memory: the size, then the type.\<close>

record message_header =
  mh_size :: u32
  mh_type :: u32

definition header_bytes :: "message_header \<Rightarrow> bytes" where
  "header_bytes h = le32 (mh_size h) @ le32 (mh_type h)"

definition header_of :: "bytes \<Rightarrow> message_header" where
  "header_of bs = \<lparr>mh_size = rd32 (bs ! 0) (bs ! 1) (bs ! 2) (bs ! 3),
     mh_type = rd32 (bs ! 4) (bs ! 5) (bs ! 6) (bs ! 7)\<rparr>"

type_synonym 'f connections = "(peer_id, 'f peer_connection) umap"

definition send_data_to_peer ::
  "int list \<Rightarrow> 'f connections \<Rightarrow> peer_id \<Rightarrow> u32 \<Rightarrow> bytes \<Rightarrow> u32
    \<Rightarrow> (conn_exc option \<times> 'f connections) option" where
  "send_data_to_peer results conns pid type data sz =
     (case um_find conns pid of
        None \<Rightarrow> Some (Some Peer_not_connected, conns)
      | Some con \<Rightarrow>
          (let header = \<lparr>mh_size = sz, mh_type = type\<rparr>;
               put = (\<lambda>wire. map (\<lambda>(k, c). (k, if k = pid then c\<lparr>pc_wire_out := wire\<rparr> else c)) conns)
           in case SSLWriteAllData results (header_bytes header) (pc_wire_out con) of
                None \<Rightarrow> None
              | Some (Some e, wire, rs) \<Rightarrow> Some (Some e, put wire)
              | Some (None, wire, rs) \<Rightarrow>
                  (case SSLWriteAllData rs (take (unat sz) data) wire of
                     None \<Rightarrow> None
                   | Some (e, wire', rs') \<Rightarrow> Some (e, put wire'))))"

text \<open>
  One round of the loop of \<open>peer_handle_thread\<close>. \<open>malloc\<close> gives the contents of the memory
  allocated, which the code never initialises, or fails. The result is the exception or the
  calls made, the rest of the stream and of the results.
\<close>

definition peer_handle_round ::
  "(u32 \<Rightarrow> bytes option) \<Rightarrow> 'f handlers \<Rightarrow> peer_id \<Rightarrow> int list \<Rightarrow> bytes
    \<Rightarrow> (conn_exc + 'f handler_call list \<times> bytes \<times> int list) option" where
  "peer_handle_round malloc hs pid results stream =
     (case SSLReadAllData results stream 8 of
        None \<Rightarrow> None
      | Some (Inl e) \<Rightarrow> Some (Inl e)
      | Some (Inr (hdr, stream', rs)) \<Rightarrow>
          (let header = header_of hdr
           in case malloc (mh_size header) of
                None \<Rightarrow> Some (Inl Data_alloc_failed)
              | Some data \<Rightarrow>
                  (case global_handle_data hs pid (mh_type header) data (mh_size header) of
                     Inl e \<Rightarrow> Some (Inl e)
                   | Inr (False, _) \<Rightarrow> Some (Inl No_handler_for_data)
                   | Inr (True, calls) \<Rightarrow> Some (Inr (calls, stream', rs)))))"

end
