(* ===== verification/Channel_Properties.thy ===== *)
theory Channel_Properties
  imports Channel
begin

text \<open>
  The transfer loops move exactly the bytes asked for, handlers are called once with what they
  accept, and the receiving thread takes the payload of a message for the next header.
\<close>

section \<open>Transfers\<close>

lemma ssl_read_loop_spec:
  assumes "\<forall>r \<in> set results. 0 < r" and "buf_len \<le> length buf + length results"
    and "length buf \<le> buf_len" and "buf_len - length buf \<le> length stream"
  shows "\<exists>rs'. ssl_read_loop results stream buf_len buf
    = Some (Inr (buf @ take (buf_len - length buf) stream, drop (buf_len - length buf) stream, rs')) \<and>
    (\<exists>used. results = used @ rs' \<and> length used \<le> buf_len - length buf)"
  using assms
proof (induction results stream buf_len buf rule: ssl_read_loop.induct)
  case (1 results stream buf_len buf)
  show ?case
  proof (cases "length buf < buf_len")
    case False
    then show ?thesis using "1.prems" by (simp add: ssl_read_loop.simps)
  next
    case True
    then obtain r rs where results: "results = r # rs" using "1.prems"(2) by (cases results) auto
    then have r: "\<not> r \<le> 0" using "1.prems"(1) by auto
    let ?n = "min (nat r) (buf_len - length buf)"
    have n: "0 < ?n" "?n \<le> buf_len - length buf" "\<not> length stream < ?n"
      using r True "1.prems"(4) by auto
    let ?buf = "buf @ take ?n stream"
    have lb: "length ?buf = length buf + ?n"
      by (simp only: length_append length_take min_absorb2 [OF leI [OF n(3)]])
    have "\<forall>r \<in> set rs. 0 < r" "buf_len \<le> length ?buf + length rs" "length ?buf \<le> buf_len"
      "buf_len - length ?buf \<le> length (drop ?n stream)"
      using "1.prems" results n lb by auto
    from "1.IH" [OF True results r refl n(3) this] obtain rs' used where
      ih: "ssl_read_loop rs (drop ?n stream) buf_len ?buf = Some (Inr
        (?buf @ take (buf_len - length ?buf) (drop ?n stream), drop (buf_len - length ?buf) (drop ?n stream), rs'))"
      "rs = used @ rs'" "length used \<le> buf_len - length ?buf" by blast
    have len: "buf_len - length ?buf = buf_len - length buf - ?n" using lb by simp
    have step: "ssl_read_loop results stream buf_len buf = ssl_read_loop rs (drop ?n stream) buf_len ?buf"
      using True r n(3) by (subst ssl_read_loop.simps) (simp only: results list.case Let_def if_True if_False simp_thms)
    have t: "take ?n stream @ take (buf_len - length buf - ?n) (drop ?n stream) = take (buf_len - length buf) stream"
      using n(2) by (metis le_add_diff_inverse take_add)
    have d: "drop (buf_len - length buf - ?n) (drop ?n stream) = drop (buf_len - length buf) stream"
      by (simp only: drop_drop le_add_diff_inverse2 [OF n(2)])
    have "ssl_read_loop rs (drop ?n stream) buf_len ?buf = Some (Inr
        ((buf @ take ?n stream) @ take (buf_len - length buf - ?n) (drop ?n stream),
         drop (buf_len - length buf - ?n) (drop ?n stream), rs'))"
      using ih(1) by (simp only: len)
    then have "ssl_read_loop results stream buf_len buf
      = Some (Inr (buf @ take (buf_len - length buf) stream, drop (buf_len - length buf) stream, rs'))"
      by (simp only: step append_assoc t d)
    moreover have "results = (r # used) @ rs'" "length (r # used) \<le> buf_len - length buf"
      using results ih(2,3) len n by auto
    ultimately show ?thesis by blast
  qed
qed

lemma SSLReadAllData_spec:
  assumes "\<forall>r \<in> set results. 0 < r" and "n \<le> length results" and "n \<le> length stream"
  shows "\<exists>rs' used. SSLReadAllData results stream n = Some (Inr (take n stream, drop n stream, rs')) \<and>
    results = used @ rs' \<and> length used \<le> n"
  using ssl_read_loop_spec [of results n "[]" stream] assms by (auto simp: SSLReadAllData_def)

lemma ssl_write_loop_spec:
  assumes "\<forall>r \<in> set results. 0 < r" and "length buf \<le> sent + length results" and "sent \<le> length buf"
  shows "\<exists>rs' used. ssl_write_loop results buf sent wire = Some (None, wire @ drop sent buf, rs') \<and>
    results = used @ rs' \<and> length used \<le> length buf - sent"
  using assms
proof (induction results buf sent wire rule: ssl_write_loop.induct)
  case (1 results buf sent wire)
  show ?case
  proof (cases "sent < length buf")
    case False
    then show ?thesis using "1.prems" by (simp add: ssl_write_loop.simps)
  next
    case True
    then obtain r rs where results: "results = r # rs" using "1.prems"(2) by (cases results) auto
    then have r: "\<not> r \<le> 0" using "1.prems"(1) by auto
    let ?n = "min (nat r) (length buf - sent)"
    have n: "0 < ?n" "sent + ?n \<le> length buf" using r True by auto
    have "\<forall>r \<in> set rs. 0 < r" "length buf \<le> sent + ?n + length rs" using "1.prems" results n by auto
    from "1.IH" [OF True results r refl this n(2)] obtain rs' used where
      ih: "ssl_write_loop rs buf (sent + ?n) (wire @ take ?n (drop sent buf))
        = Some (None, (wire @ take ?n (drop sent buf)) @ drop (sent + ?n) buf, rs')"
      "rs = used @ rs'" "length used \<le> length buf - (sent + ?n)" by blast
    have step: "ssl_write_loop results buf sent wire
        = ssl_write_loop rs buf (sent + ?n) (wire @ take ?n (drop sent buf))"
      using True r by (subst ssl_write_loop.simps) (simp add: results Let_def)
    have t: "take ?n (drop sent buf) @ drop (sent + ?n) buf = drop sent buf"
      by (metis append_take_drop_id drop_drop add.commute)
    have "ssl_write_loop results buf sent wire = Some (None, wire @ drop sent buf, rs')"
      unfolding step ih(1) append_assoc t by simp
    moreover have "results = (r # used) @ rs'" "length (r # used) \<le> length buf - sent"
      using results ih(2,3) n by auto
    ultimately show ?thesis by blast
  qed
qed

lemma SSLWriteAllData_spec:
  assumes "\<forall>r \<in> set results. 0 < r" and "length buf \<le> length results"
  shows "\<exists>rs' used. SSLWriteAllData results buf wire = Some (None, wire @ buf, rs') \<and>
    results = used @ rs' \<and> length used \<le> length buf"
  using ssl_write_loop_spec [of results buf 0 wire] assms by (auto simp: SSLWriteAllData_def)

section \<open>Dispatching to handlers\<close>

text \<open>
  Both handler tables follow one contract: no handler, no call; a message above the limit of its
  handler is refused; otherwise the handler gets the data as it is.
\<close>

locale data_dispatch =
  fixes lookup :: "'t \<Rightarrow> u32 \<Rightarrow> 'h option"
    and limit :: "'h \<Rightarrow> u32"
    and on_data :: "'h \<Rightarrow> 'f"
    and arg :: "'h \<Rightarrow> nat"
    and handle :: "'t \<Rightarrow> u32 \<Rightarrow> bytes \<Rightarrow> u32 \<Rightarrow> conn_exc + bool \<times> 'f handler_call list"
    and source :: "'t \<Rightarrow> peer_id option"
  assumes absent: "lookup t type = None \<Longrightarrow> handle t type data sz = Inr (False, [])"
    and too_large: "lookup t type = Some h \<Longrightarrow> sz > limit h \<Longrightarrow>
      handle t type data sz = Inl Data_size_exceeds_maximum"
    and accepted: "lookup t type = Some h \<Longrightarrow> sz \<le> limit h \<Longrightarrow>
      handle t type data sz = Inr (True, [(on_data h, arg h, source t, data, sz)])"
begin

lemma handled_iff:
  "(\<exists>calls. handle t type data sz = Inr (True, calls)) \<longleftrightarrow>
    (\<exists>h. lookup t type = Some h \<and> sz \<le> limit h)"
proof (cases "lookup t type")
  case None
  then show ?thesis by (simp add: absent)
next
  case (Some h)
  then show ?thesis using too_large accepted by (cases "sz > limit h") auto
qed

lemma calls_limited:
  assumes "handle t type data sz = Inr (b, calls)"
  shows "length calls = (if b then 1 else 0) \<and>
    (\<forall>(f, x, src, d, n) \<in> set calls. d = data \<and> n = sz \<and> src = source t \<and>
      (\<exists>h. lookup t type = Some h \<and> f = on_data h \<and> x = arg h \<and> n \<le> limit h))"
proof (cases "lookup t type")
  case None
  then show ?thesis using absent [of t type data sz] assms by simp
next
  case (Some h)
  then show ?thesis using too_large [OF Some, of sz data] accepted [OF Some, of sz data] assms
    by (cases "sz > limit h") auto
qed

end

interpretation gh: data_dispatch "\<lambda>(hs, src). um_find hs" ch_max_data_size ch_on_data ch_arg
  "\<lambda>(hs, src) type data sz. global_handle_data hs src type data sz" "\<lambda>(hs, src). Some src"
  by unfold_locales (auto simp: global_handle_data_def)

interpretation ph: data_dispatch "\<lambda>con. um_find (pc_channels con)" ph_max_data_size ph_on_data ph_arg
  peer_handle_data "\<lambda>con. None"
  by unfold_locales (auto simp: peer_handle_data_def)

lemma header_roundtrip: "header_of (header_bytes h @ rest) = h"
  by (simp add: header_of_def header_bytes_def le32_def rd32_le32 nth_append)

lemma length_header_bytes [simp]: "length (header_bytes h) = 8"
  by (simp add: header_bytes_def)

lemma send_data_wire:
  assumes "um_find conns pid = Some con" and "\<forall>r \<in> set results. 0 < r"
    and "8 + length data \<le> length results" and "unat sz = length data"
  shows "\<exists>conns' con'. send_data_to_peer results conns pid type data sz = Some (None, conns') \<and>
    um_find conns' pid = Some con' \<and>
    pc_wire_out con' = pc_wire_out con @ header_bytes \<lparr>mh_size = sz, mh_type = type\<rparr> @ data"
proof -
  let ?h = "header_bytes \<lparr>mh_size = sz, mh_type = type\<rparr>"
  have "length ?h \<le> length results" using assms(3) by simp
  from SSLWriteAllData_spec [OF assms(2) this, of "pc_wire_out con"] obtain rs' used where
    1: "SSLWriteAllData results ?h (pc_wire_out con) = Some (None, pc_wire_out con @ ?h, rs')"
    "results = used @ rs'" "length used \<le> 8" by auto
  have "\<forall>r \<in> set rs'. 0 < r" "length data \<le> length rs'" using 1 assms(2,3) by auto
  from SSLWriteAllData_spec [OF this, of "pc_wire_out con @ ?h"] obtain rs'' where
    2: "SSLWriteAllData rs' data (pc_wire_out con @ ?h) = Some (None, (pc_wire_out con @ ?h) @ data, rs'')" by blast
  have find: "um_find (map (\<lambda>(k, c). (k, if k = pid then c\<lparr>pc_wire_out := w\<rparr> else c)) conns) pid
      = Some (con\<lparr>pc_wire_out := w\<rparr>)" for w
    using assms(1) by (induction conns) (auto split: if_splits)
  show ?thesis using assms(1,4) 1(1) 2 find by (simp add: send_data_to_peer_def Let_def)
qed

section \<open>Properties\<close>

text \<open>
  (C11) A message reaches the wire as its header and its data, however \<open>SSL_write\<close> splits it, and
  the reading loop gets back any prefix of the wire it asks for, however \<open>SSL_read\<close> splits it.
\<close>

theorem message_transfer:
  assumes "um_find conns pid = Some con" and "pc_wire_out con = []" and "unat sz = length data"
    and "\<forall>r \<in> set ws. 0 < r" and "8 + length data \<le> length ws"
    and "\<forall>r \<in> set rs. 0 < r" and "8 + length data \<le> length rs"
  shows "\<exists>conns' con' rs1 rs2. send_data_to_peer ws conns pid type data sz = Some (None, conns') \<and>
    um_find conns' pid = Some con' \<and>
    SSLReadAllData rs (pc_wire_out con') 8 = Some (Inr (header_bytes \<lparr>mh_size = sz, mh_type = type\<rparr>, data, rs1)) \<and>
    SSLReadAllData rs1 data (unat sz) = Some (Inr (data, [], rs2))"
proof -
  let ?h = "header_bytes \<lparr>mh_size = sz, mh_type = type\<rparr>"
  obtain conns' con' where sent: "send_data_to_peer ws conns pid type data sz = Some (None, conns')"
    "um_find conns' pid = Some con'" "pc_wire_out con' = ?h @ data"
    using send_data_wire [OF assms(1,4,5,3), of type] assms(2) by auto
  have "8 \<le> length rs" "8 \<le> length (?h @ data)" using assms(7) by simp_all
  from SSLReadAllData_spec [OF assms(6) this] obtain rs1 used where
    1: "SSLReadAllData rs (?h @ data) 8 = Some (Inr (?h, data, rs1))" "rs = used @ rs1" "length used \<le> 8" by auto
  have "\<forall>r \<in> set rs1. 0 < r" "unat sz \<le> length rs1" "unat sz \<le> length data" using 1 assms(3,6,7) by auto
  from SSLReadAllData_spec [OF this] obtain rs2 where "SSLReadAllData rs1 data (unat sz) = Some (Inr (data, [], rs2))"
    using assms(3) by auto
  with sent 1(1) show ?thesis by auto
qed

theorem message_transfer_witness:
  "\<exists>conns' con' rs1. send_data_to_peer (replicate 9 3) [(peer_id_zero,
      \<lparr>pc_socket = sg_new 3, pc_conn_type = TCPv4SSL, pc_src_address = \<lparr>pa_ip = 1, pa_port = 2\<rparr>,
        pc_dst_address = \<lparr>pa_ip = 3, pa_port = 4\<rparr>, pc_wire_out = [], pc_peer_id = peer_id_zero,
        pc_channels = [] :: (u32, nat peer_channel_handler) umap\<rparr>)] peer_id_zero 5 [42] 1 = Some (None, conns') \<and>
    um_find conns' peer_id_zero = Some con' \<and>
    SSLReadAllData (replicate 9 1) (pc_wire_out con') 8 = Some (Inr ([1, 0, 0, 0, 5, 0, 0, 0], [42], rs1))"
proof -
  let ?con = "\<lparr>pc_socket = sg_new 3, pc_conn_type = TCPv4SSL, pc_src_address = \<lparr>pa_ip = 1, pa_port = 2\<rparr>,
        pc_dst_address = \<lparr>pa_ip = 3, pa_port = 4\<rparr>, pc_wire_out = [], pc_peer_id = peer_id_zero,
        pc_channels = [] :: (u32, nat peer_channel_handler) umap\<rparr>"
  have h: "um_find [(peer_id_zero, ?con)] peer_id_zero = Some ?con" "pc_wire_out ?con = []"
    "unat (1 :: u32) = length [42 :: u8]"
    "\<forall>r \<in> set (replicate 9 3). 0 < (r :: int)" "8 + length [42 :: u8] \<le> length (replicate 9 (3 :: int))"
    "\<forall>r \<in> set (replicate 9 1). 0 < (r :: int)" "8 + length [42 :: u8] \<le> length (replicate 9 (1 :: int))"
    by simp_all
  have hb: "header_bytes \<lparr>mh_size = 1, mh_type = 5\<rparr> = [1, 0, 0, 0, 5, 0, 0, 0]"
    by (simp add: header_bytes_def le32_def)
  from message_transfer [OF h, of 5] show ?thesis unfolding hb by blast
qed

text \<open>
  (C39) The receiving thread never reads a payload: for a message whose type has a handler with
  room for it, the handler is called with the uninitialised memory allocated for the data, and
  the payload stays in the stream, where the next round takes its first eight bytes for a header.
\<close>

theorem payload_taken_for_header:
  assumes "um_find hs type = Some h" and "sz \<le> ch_max_data_size h" and "malloc sz = Some garbage"
    and "\<forall>r \<in> set rs. 0 < r" and "16 \<le> length rs" and "8 \<le> length payload"
  shows "\<exists>rs1. peer_handle_round malloc hs pid rs (header_bytes \<lparr>mh_size = sz, mh_type = type\<rparr> @ payload)
      = Some (Inr ([(ch_on_data h, ch_arg h, Some pid, garbage, sz)], payload, rs1)) \<and>
    (\<exists>rs2. SSLReadAllData rs1 payload 8 = Some (Inr (take 8 payload, drop 8 payload, rs2)) \<and>
      (malloc (mh_size (header_of (take 8 payload))) = None \<longrightarrow>
        peer_handle_round malloc hs pid rs1 payload = Some (Inl Data_alloc_failed)))"
proof -
  let ?h = "header_bytes \<lparr>mh_size = sz, mh_type = type\<rparr>"
  have "8 \<le> length rs" "8 \<le> length (?h @ payload)" using assms(5) by simp_all
  from SSLReadAllData_spec [OF assms(4) this] obtain rs1 used where
    1: "SSLReadAllData rs (?h @ payload) 8 = Some (Inr (?h, payload, rs1))" "rs = used @ rs1" "length used \<le> 8" by auto
  have "\<forall>r \<in> set rs1. 0 < r" "8 \<le> length rs1" using 1 assms(4,5) by auto
  from SSLReadAllData_spec [OF this assms(6)] obtain rs2 where
    2: "SSLReadAllData rs1 payload 8 = Some (Inr (take 8 payload, drop 8 payload, rs2))" by blast
  have hd: "header_of ?h = \<lparr>mh_size = sz, mh_type = type\<rparr>"
    using header_roundtrip [of "\<lparr>mh_size = sz, mh_type = type\<rparr>" "[]"] by simp
  have "global_handle_data hs pid type garbage sz = Inr (True, [(ch_on_data h, ch_arg h, Some pid, garbage, sz)])"
    using gh.accepted [of "(hs, pid)" type h sz garbage] assms(1,2) by simp
  then have "peer_handle_round malloc hs pid rs (?h @ payload)
      = Some (Inr ([(ch_on_data h, ch_arg h, Some pid, garbage, sz)], payload, rs1))"
    using 1(1) hd assms(3) by (simp add: peer_handle_round_def)
  with 2 show ?thesis by (intro exI [of _ rs1] conjI exI [of _ rs2]) (simp_all add: peer_handle_round_def)
qed

theorem payload_taken_for_header_witness:
  "\<exists>rs1. peer_handle_round (\<lambda>n. if n < 100 then Some [] else None)
      [(7, \<lparr>ch_max_data_size = 64, ch_on_data = ''ping'', ch_arg = 0, ch_name = ''p''\<rparr>)] peer_id_zero (replicate 16 1)
      (header_bytes \<lparr>mh_size = 8, mh_type = 7\<rparr> @ [255, 255, 0, 0, 0, 0, 0, 0])
    = Some (Inr ([(''ping'', 0, Some peer_id_zero, [], 8)], [255, 255, 0, 0, 0, 0, 0, 0], rs1)) \<and>
    peer_handle_round (\<lambda>n. if n < 100 then Some [] else None)
      [(7, \<lparr>ch_max_data_size = 64, ch_on_data = ''ping'', ch_arg = 0, ch_name = ''p''\<rparr>)] peer_id_zero rs1
      [255, 255, 0, 0, 0, 0, 0, 0] = Some (Inl Data_alloc_failed)"
proof -
  let ?m = "\<lambda>n :: u32. if n < 100 then Some ([] :: bytes) else None"
  let ?h = "\<lparr>ch_max_data_size = 64, ch_on_data = ''ping'', ch_arg = 0, ch_name = ''p''\<rparr>"
  let ?p = "[255, 255, 0, 0, 0, 0, 0, 0] :: bytes"
  have h: "um_find [(7, ?h)] 7 = Some ?h" "8 \<le> ch_max_data_size ?h" "?m 8 = Some []"
    "\<forall>r \<in> set (replicate 16 1). 0 < (r :: int)" "16 \<le> length (replicate 16 (1 :: int))" "8 \<le> length ?p"
    by (simp_all add: word_le_nat_alt)
  have "?m (mh_size (header_of (take 8 ?p))) = None"
    by (simp add: header_of_def rd32_def word_less_nat_alt)
  with payload_taken_for_header [where malloc = ?m, OF h, of peer_id_zero, unfolded global_channel_handler.select_convs] show ?thesis by blast
qed

text \<open>
  Registration and dispatch: the first handler registered for a type stays, a second one is
  refused with the table unchanged, and a message is handed to the handler of its type exactly
  when it has one with room for the message, once and unchanged.
\<close>

theorem registered_handler_called:
  "(case register_global_handler type handler hs of
      (None, hs') \<Rightarrow> um_find hs type = None \<and> (\<forall>t. um_find hs' t = (if t = type then Some handler else um_find hs t))
    | (Some e, hs') \<Rightarrow> um_find hs type \<noteq> None \<and> e = Handler_already_registered \<and> hs' = hs) \<and>
   ((\<exists>calls. global_handle_data hs src t data sz = Inr (True, calls)) \<longleftrightarrow>
      (\<exists>h. um_find hs t = Some h \<and> sz \<le> ch_max_data_size h \<and>
        global_handle_data hs src t data sz = Inr (True, [(ch_on_data h, ch_arg h, Some src, data, sz)])))"
proof
  show "case register_global_handler type handler hs of
      (None, hs') \<Rightarrow> um_find hs type = None \<and> (\<forall>t. um_find hs' t = (if t = type then Some handler else um_find hs t))
    | (Some e, hs') \<Rightarrow> um_find hs type \<noteq> None \<and> e = Handler_already_registered \<and> hs' = hs"
    by (auto simp: register_global_handler_def um_find_emplace)
  show "(\<exists>calls. global_handle_data hs src t data sz = Inr (True, calls)) \<longleftrightarrow>
      (\<exists>h. um_find hs t = Some h \<and> sz \<le> ch_max_data_size h \<and>
        global_handle_data hs src t data sz = Inr (True, [(ch_on_data h, ch_arg h, Some src, data, sz)]))"
    using gh.handled_iff [of "(hs, src)" t data sz] gh.accepted [of "(hs, src)" t _ sz data] by auto
qed

text \<open>Handlers of peer channels as resources: what is to be destroyed is the argument.\<close>

definition ph_empty :: "'f \<Rightarrow> 'f peer_channel_handler" where
  "ph_empty f = \<lparr>ph_max_data_size = 0, ph_on_data = f, ph_show_description = f, ph_destroy = None, ph_arg = 0\<rparr>"

definition handler_class :: "'f \<Rightarrow> ('f peer_channel_handler, 'f \<times> nat) guard_class" where
  "handler_class f = \<lparr>gc_held = (\<lambda>h. map_option (\<lambda>d. (d, ph_arg h)) (ph_destroy h)),
     gc_new = (\<lambda>(d, a). (ph_empty f)\<lparr>ph_destroy := Some d, ph_arg := a\<rparr>),
     gc_move = ph_move,
     gc_assign = (\<lambda>this other. (fst (ph_assign this other), snd (ph_assign this other), [])),
     gc_self_assign = (\<lambda>this. (fst (ph_assign this this), [])),
     gc_handle = (\<lambda>h. (None, h)),
     gc_destroy = (\<lambda>h. (h\<lparr>ph_destroy := None\<rparr>, ph_destructor h))\<rparr>"

text \<open>
  Unlike the guards, \<open>PeerChannelHandler\<close> neither keeps nor hands over what it owns: a handler
  moved, as into a table, is destroyed twice with the same argument, and one that is assigned to
  is never destroyed.
\<close>

theorem moved_handler_destroyed_twice:
  "(\<exists>gs. guard_run (handler_class f) [Acquire 0 (d, a), Move 1 0, Destroy 0, Destroy 1] (replicate 2 (ph_empty f))
      = Some (gs, [(d, a)], [(d, a), (d, a)], [])) \<and>
   (\<exists>gs. guard_run (handler_class f) [Acquire 0 (d, a), Acquire 1 (e, b), Assign 0 1, Destroy 0, Destroy 1]
      (replicate 2 (ph_empty f)) = Some (gs, [(d, a), (e, b)], [(e, b), (e, b)], []))"
  by (simp add: handler_class_def ph_empty_def ph_move_def ph_assign_def ph_destructor_def opt_list_def numeral_2_eq_2)

end
