(* ===== verification/Digest.thy ===== *)
theory Digest
  imports Peer_Id
begin

text \<open>
  \<open>crypto/sgn.cc\<close>: hashing, signing, verifying and key generation through OpenSSL. The calls enter
  as what they return; \<open>scall\<close> takes every result but 0 for success. A use of uninitialised
  memory is \<open>None\<close>.
\<close>

section \<open>Checked calls\<close>

datatype crypto_exc = Ssl_call_failed | Buffer_too_small | Verify_failed

definition scall :: "int \<Rightarrow> crypto_exc option" where
  "scall ret_val = (if ret_val = 0 then Some Ssl_call_failed else None)"

section \<open>SSLHasher\<close>

text \<open>
  What OpenSSL does: the digests by name, whether a context can be made, whether initialising,
  updating and finishing succeed, and the digest of the data put in.
\<close>

record 'md digest_api =
  da_by_name :: "string \<Rightarrow> 'md option"
  da_new_ctx :: bool
  da_init :: "'md \<Rightarrow> int"
  da_update :: "'md \<Rightarrow> bytes \<Rightarrow> int"
  da_final :: "'md \<Rightarrow> bytes \<Rightarrow> int"
  da_digest :: "'md \<Rightarrow> bytes \<Rightarrow> bytes"

text \<open>\<open>sh_md\<close> is \<open>None\<close> while the member is uninitialised; \<open>sh_ctx\<close> is what was put since \<open>start\<close>.\<close>

record 'md ssl_hasher =
  sh_ctx :: "('md \<times> bytes) option"
  sh_md :: "'md option"

text \<open>The constructor assigns the digest to a local variable \<open>md\<close> that hides the member.\<close>

definition hasher_new :: "'md digest_api \<Rightarrow> string \<Rightarrow> crypto_exc + 'md ssl_hasher" where
  "hasher_new api hash_name =
     (case da_by_name api hash_name of
        None \<Rightarrow> Inl Ssl_call_failed
      | Some local_md \<Rightarrow>
          if \<not> da_new_ctx api then Inl Ssl_call_failed else Inr \<lparr>sh_ctx = None, sh_md = None\<rparr>)"

definition hasher_start :: "'md digest_api \<Rightarrow> 'md ssl_hasher \<Rightarrow> (crypto_exc option \<times> 'md ssl_hasher) option" where
  "hasher_start api h =
     (case sh_md h of
        None \<Rightarrow> None
      | Some md \<Rightarrow>
          (case scall (da_init api md) of
             Some e \<Rightarrow> Some (Some e, h)
           | None \<Rightarrow> Some (None, h\<lparr>sh_ctx := Some (md, [])\<rparr>)))"

definition hasher_put :: "'md digest_api \<Rightarrow> bytes \<Rightarrow> 'md ssl_hasher \<Rightarrow> (crypto_exc option \<times> 'md ssl_hasher) option" where
  "hasher_put api data h =
     (case sh_ctx h of
        None \<Rightarrow> None
      | Some (md, bs) \<Rightarrow>
          (case scall (da_update api md data) of
             Some e \<Rightarrow> Some (Some e, h)
           | None \<Rightarrow> Some (None, h\<lparr>sh_ctx := Some (md, bs @ data)\<rparr>)))"

definition hasher_finish :: "'md digest_api \<Rightarrow> 'md ssl_hasher \<Rightarrow> ((crypto_exc + bytes) \<times> 'md ssl_hasher) option" where
  "hasher_finish api h =
     (case sh_ctx h of
        None \<Rightarrow> None
      | Some (md, bs) \<Rightarrow>
          (case scall (da_final api md bs) of
             Some e \<Rightarrow> Some (Inl e, h)
           | None \<Rightarrow> Some (Inr (da_digest api md bs), h\<lparr>sh_ctx := None\<rparr>)))"

definition hasher_reset :: "'md ssl_hasher \<Rightarrow> 'md ssl_hasher" where
  "hasher_reset h = h\<lparr>sh_ctx := None\<rparr>"

text \<open>\<open>compute_hash\<close>: on an exception the context is reset and the exception passed on.\<close>

definition compute_hash :: "'md digest_api \<Rightarrow> bytes \<Rightarrow> 'md ssl_hasher \<Rightarrow> ((crypto_exc + bytes) \<times> 'md ssl_hasher) option" where
  "compute_hash api data h =
     (case hasher_start api h of
        None \<Rightarrow> None
      | Some (Some e, h1) \<Rightarrow> Some (Inl e, hasher_reset h1)
      | Some (None, h1) \<Rightarrow>
          (case hasher_put api data h1 of
             None \<Rightarrow> None
           | Some (Some e, h2) \<Rightarrow> Some (Inl e, hasher_reset h2)
           | Some (None, h2) \<Rightarrow>
               (case hasher_finish api h2 of
                  None \<Rightarrow> None
                | Some (Inl e, h3) \<Rightarrow> Some (Inl e, hasher_reset h3)
                | Some (Inr d, h3) \<Rightarrow> Some (Inr d, h3))))"

section \<open>Signing and verifying\<close>

text \<open>Constructors: the key, the context and the initialisation; then the object is usable.\<close>

definition signer_new :: "nat option \<Rightarrow> nat option \<Rightarrow> int \<Rightarrow> crypto_exc + nat" where
  "signer_new pkey ctx init_result =
     (case pkey of
        None \<Rightarrow> Inl Ssl_call_failed
      | Some _ \<Rightarrow>
          (case ctx of
             None \<Rightarrow> Inl Ssl_call_failed
           | Some c \<Rightarrow> (case scall init_result of Some e \<Rightarrow> Inl e | None \<Rightarrow> Inr c)))"

definition verifier_new :: "nat option \<Rightarrow> nat option \<Rightarrow> int \<Rightarrow> crypto_exc + nat" where
  "verifier_new pkey ctx init_result =
     (case pkey of
        None \<Rightarrow> Inl Ssl_call_failed
      | Some _ \<Rightarrow>
          (case ctx of
             None \<Rightarrow> Inl Ssl_call_failed
           | Some c \<Rightarrow> (case scall init_result of Some e \<Rightarrow> Inl e | None \<Rightarrow> Inr c)))"

text \<open>\<open>EVP_DigestSign\<close> returns a result and the length it stored.\<close>

definition signer_sign :: "(u64 \<Rightarrow> int \<times> u64) \<Rightarrow> u64 \<Rightarrow> crypto_exc + u64" where
  "signer_sign digest_sign out_len =
     (case digest_sign out_len of
        (ret_val, sgn_len) \<Rightarrow>
          (case scall ret_val of
             Some e \<Rightarrow> Inl e
           | None \<Rightarrow> if sgn_len > out_len then Inl Buffer_too_small else Inr sgn_len))"

definition verifier_verify :: "int \<Rightarrow> crypto_exc + bool" where
  "verifier_verify result =
     (if result = 1 then Inr True else if result = 0 then Inr False else Inl Verify_failed)"

section \<open>Key generation\<close>

text \<open>
  The results of the calls; a raw key is asked for twice, for its length and for its bytes, with
  the length it then has. The vectors of the caller are changed as far as the calls get.
\<close>

record keygen_results =
  kg_ctx :: "nat option"
  kg_init :: int
  kg_param :: int
  kg_keygen :: int
  kg_pub_len :: "int \<times> nat"
  kg_pub :: "int \<times> bytes"
  kg_priv_len :: "int \<times> nat"
  kg_priv :: "int \<times> bytes"

definition raw_key :: "int \<times> nat \<Rightarrow> int \<times> bytes \<Rightarrow> bytes \<Rightarrow> crypto_exc option \<times> bytes" where
  "raw_key len_call key_call v =
     (case scall (fst len_call) of
        Some e \<Rightarrow> (Some e, v)
      | None \<Rightarrow>
          (let v1 = take (snd len_call) v @ replicate (snd len_call - length v) 0
           in case scall (fst key_call) of
                Some e \<Rightarrow> (Some e, v1)
              | None \<Rightarrow> (None, take (length v1) (snd key_call) @ drop (length (snd key_call)) v1)))"

text \<open>\<open>generate_rsa_key\<close> and \<open>generate_ecdsa_key\<close> differ in the parameter call only.\<close>

definition generate_key :: "keygen_results \<Rightarrow> bytes \<Rightarrow> bytes \<Rightarrow> crypto_exc option \<times> bytes \<times> bytes" where
  "generate_key r pubkey privkey =
     (case kg_ctx r of
        None \<Rightarrow> (Some Ssl_call_failed, pubkey, privkey)
      | Some _ \<Rightarrow>
          if scall (kg_init r) \<noteq> None then (scall (kg_init r), pubkey, privkey)
          else if scall (kg_param r) \<noteq> None then (scall (kg_param r), pubkey, privkey)
          else if scall (kg_keygen r) \<noteq> None then (scall (kg_keygen r), pubkey, privkey)
          else
            (case raw_key (kg_pub_len r) (kg_pub r) pubkey of
               (Some e, pub) \<Rightarrow> (Some e, pub, privkey)
             | (None, pub) \<Rightarrow>
                 (case raw_key (kg_priv_len r) (kg_priv r) privkey of
                    (e, priv) \<Rightarrow> (e, pub, priv))))"

definition generate_rsa_key :: "keygen_results \<Rightarrow> bytes \<Rightarrow> bytes \<Rightarrow> crypto_exc option \<times> bytes \<times> bytes" where
  "generate_rsa_key r pubkey privkey = generate_key r pubkey privkey"

definition generate_ecdsa_key :: "keygen_results \<Rightarrow> bytes \<Rightarrow> bytes \<Rightarrow> crypto_exc option \<times> bytes \<times> bytes" where
  "generate_ecdsa_key r pubkey privkey = generate_key r pubkey privkey"

section \<open>Deriving an identifier with the hasher\<close>

text \<open>\<open>peer_id_from_sha512\<close>, call by call; a failing call throws.\<close>

definition hash_again :: "'md digest_api \<Rightarrow> ((crypto_exc + peer_id) \<times> 'md ssl_hasher) option
    \<Rightarrow> ((crypto_exc + peer_id) \<times> 'md ssl_hasher) option" where
  "hash_again api r =
     (case r of
        Some (Inr p, h) \<Rightarrow>
          (case compute_hash api (pid_bytes p) h of
             None \<Rightarrow> None
           | Some (Inl e, h') \<Rightarrow> Some (Inl e, h')
           | Some (Inr d, h') \<Rightarrow> Some (Inr (pid_of_bytes d), h'))
      | _ \<Rightarrow> r)"

definition put_all :: "'md digest_api \<Rightarrow> bytes list \<Rightarrow> (crypto_exc option \<times> 'md ssl_hasher) option
    \<Rightarrow> (crypto_exc option \<times> 'md ssl_hasher) option" where
  "put_all api datas r =
     fold (\<lambda>data r. case r of Some (None, h) \<Rightarrow> hasher_put api data h | _ \<Rightarrow> r) datas r"

definition peer_id_hashed :: "'md digest_api \<Rightarrow> bytes \<Rightarrow> 'md ssl_hasher \<Rightarrow> ((crypto_exc + peer_id) \<times> 'md ssl_hasher) option" where
  "peer_id_hashed api data h =
     (case put_all api [PEER_ID_SEED_1, data, PEER_ID_SEED_2] (hasher_start api h) of
        None \<Rightarrow> None
      | Some (Some e, h1) \<Rightarrow> Some (Inl e, h1)
      | Some (None, h1) \<Rightarrow>
          (case hasher_finish api h1 of
             None \<Rightarrow> None
           | Some (Inl e, h2) \<Rightarrow> Some (Inl e, h2)
           | Some (Inr d, h2) \<Rightarrow> (hash_again api ^^ 2 ^ 14) (Some (Inr (pid_of_bytes d), h2))))"

lemma compute_hash_ok:
  assumes "sh_md h = Some md" and "da_init api md \<noteq> 0" and "\<And>bs. da_update api md bs \<noteq> 0" and "\<And>bs. da_final api md bs \<noteq> 0"
  shows "compute_hash api data h = Some (Inr (da_digest api md data), h\<lparr>sh_ctx := None\<rparr>)"
  using assms by (simp add: compute_hash_def hasher_start_def hasher_put_def hasher_finish_def scall_def)

lemma hash_again_iter:
  assumes "sh_md h = Some md" and "sh_ctx h = None" and "da_init api md \<noteq> 0" and "\<And>bs. da_update api md bs \<noteq> 0"
    and "\<And>bs. da_final api md bs \<noteq> 0"
  shows "(hash_again api ^^ n) (Some (Inr p, h))
    = Some (Inr (((\<lambda>p. pid_of_bytes (da_digest api md (pid_bytes p))) ^^ n) p), h)"
proof -
  have "h\<lparr>sh_ctx := None\<rparr> = h" using assms(2) by simp
  then show ?thesis
    by (induction n) (simp_all add: hash_again_def compute_hash_ok [OF assms(1,3-5)])
qed

section \<open>Properties\<close>

text \<open>
  (C29) A hasher that knows its digest computes it: \<open>compute_hash\<close> gives the digest of its data, or
  the exception of a call that failed and a context that is reset; and deriving an identifier
  with it, call by call, is \<open>peer_id_from_sha512\<close> for that digest. But no constructed hasher
  knows its digest: its first use reads the uninitialised member.
\<close>

theorem hasher_refines_digest:
  "(case hasher_new api hash_name of
      Inl e \<Rightarrow> e = Ssl_call_failed \<and> (da_by_name api hash_name = None \<or> \<not> da_new_ctx api)
    | Inr h \<Rightarrow> hasher_start api h = None \<and> compute_hash api data h = None \<and> peer_id_hashed api data h = None) \<and>
   (sh_md g = Some md \<longrightarrow>
      (case compute_hash api data g of
         None \<Rightarrow> False
       | Some (Inl e, g') \<Rightarrow> g' = hasher_reset g \<and>
           (da_init api md = 0 \<or> da_update api md data = 0 \<or> da_final api md data = 0)
       | Some (Inr d, g') \<Rightarrow> g' = hasher_reset g \<and> d = da_digest api md data) \<and>
      (da_init api md \<noteq> 0 \<and> (\<forall>bs. da_update api md bs \<noteq> 0 \<and> da_final api md bs \<noteq> 0) \<longrightarrow>
         peer_id_hashed api data g = Some (Inr (peer_id_from_sha512 (da_digest api md) data), hasher_reset g)))"
proof (intro conjI impI)
  show "case hasher_new api hash_name of
      Inl e \<Rightarrow> e = Ssl_call_failed \<and> (da_by_name api hash_name = None \<or> \<not> da_new_ctx api)
    | Inr h \<Rightarrow> hasher_start api h = None \<and> compute_hash api data h = None \<and> peer_id_hashed api data h = None"
    by (auto simp: hasher_new_def hasher_start_def compute_hash_def peer_id_hashed_def put_all_def split: option.splits)
  assume g: "sh_md g = Some md"
  then show "case compute_hash api data g of
         None \<Rightarrow> False
       | Some (Inl e, g') \<Rightarrow> g' = hasher_reset g \<and>
           (da_init api md = 0 \<or> da_update api md data = 0 \<or> da_final api md data = 0)
       | Some (Inr d, g') \<Rightarrow> g' = hasher_reset g \<and> d = da_digest api md data"
    by (simp add: compute_hash_def hasher_start_def hasher_put_def hasher_finish_def hasher_reset_def scall_def)
  assume "da_init api md \<noteq> 0 \<and> (\<forall>bs. da_update api md bs \<noteq> 0 \<and> da_final api md bs \<noteq> 0)"
  then show "peer_id_hashed api data g = Some (Inr (peer_id_from_sha512 (da_digest api md) data), hasher_reset g)"
    using g hash_again_iter [of "g\<lparr>sh_ctx := None\<rparr>" md api]
    by (simp add: peer_id_hashed_def put_all_def hasher_start_def hasher_put_def hasher_finish_def hasher_reset_def
        scall_def peer_id_from_sha512_def)
qed

theorem hasher_refines_digest_witness:
  "peer_id_hashed \<lparr>da_by_name = (\<lambda>n. Some ()), da_new_ctx = True, da_init = (\<lambda>m. 1), da_update = (\<lambda>m bs. 1),
    da_final = (\<lambda>m bs. 1), da_digest = (\<lambda>m bs. bs)\<rparr> [1] \<lparr>sh_ctx = None, sh_md = Some ()\<rparr>
    = Some (Inr (peer_id_from_sha512 (\<lambda>bs. bs) [1]), \<lparr>sh_ctx = None, sh_md = Some ()\<rparr>)"
  using hasher_refines_digest [THEN conjunct2, THEN mp, of "\<lparr>sh_ctx = None, sh_md = Some ()\<rparr>" "()"
    "\<lparr>da_by_name = (\<lambda>n. Some ()), da_new_ctx = True, da_init = (\<lambda>m. 1), da_update = (\<lambda>m bs. 1),
    da_final = (\<lambda>m bs. 1), da_digest = (\<lambda>m bs. bs)\<rparr>" "[1]"]
  by (simp add: hasher_reset_def)

text \<open>
  Key generation stops at the first call that returns 0 and otherwise gives the keys; a
  negative result, with which OpenSSL reports an unsupported operation, counts as success. A
  verification distinguishes them: it throws on everything but 0 and 1.
\<close>

theorem keygen_checks_zero_only:
  assumes "snd (kg_pub_len r) = length (snd (kg_pub r))" and "snd (kg_priv_len r) = length (snd (kg_priv r))"
  shows "(fst (generate_rsa_key r pub priv) = None \<longleftrightarrow>
      kg_ctx r \<noteq> None \<and> kg_init r \<noteq> 0 \<and> kg_param r \<noteq> 0 \<and> kg_keygen r \<noteq> 0 \<and> fst (kg_pub_len r) \<noteq> 0 \<and>
      fst (kg_pub r) \<noteq> 0 \<and> fst (kg_priv_len r) \<noteq> 0 \<and> fst (kg_priv r) \<noteq> 0) \<and>
    (fst (generate_rsa_key r pub priv) = None \<longrightarrow>
      generate_rsa_key r pub priv = (None, snd (kg_pub r), snd (kg_priv r)) \<and>
      generate_ecdsa_key r pub priv = (None, snd (kg_pub r), snd (kg_priv r))) \<and>
    (verifier_verify result = Inl Verify_failed \<longleftrightarrow> result \<noteq> 0 \<and> result \<noteq> 1)"
proof -
  have raw: "raw_key lc kc v = (if fst lc = 0 then (Some Ssl_call_failed, v)
      else if fst kc = 0 then (Some Ssl_call_failed, take (snd lc) v @ replicate (snd lc - length v) 0)
      else (None, snd kc))" if "snd lc = length (snd kc)" for lc kc v
    using that by (auto simp: raw_key_def scall_def Let_def)
  show ?thesis
    by (cases "kg_ctx r")
      (auto simp: generate_rsa_key_def generate_ecdsa_key_def generate_key_def scall_def raw [OF assms(1)] raw [OF assms(2)]
        verifier_verify_def)
qed

theorem keygen_checks_zero_only_witness:
  "generate_rsa_key \<lparr>kg_ctx = Some 1, kg_init = - 2, kg_param = 1, kg_keygen = 1, kg_pub_len = (1, 2), kg_pub = (1, [5, 6]),
     kg_priv_len = (1, 1), kg_priv = (1, [7])\<rparr> [] [1, 2, 3] = (None, [5, 6], [7])"
proof -
  let ?r = "\<lparr>kg_ctx = Some 1, kg_init = - 2, kg_param = 1, kg_keygen = 1, kg_pub_len = (1, 2), kg_pub = (1, [5, 6]),
     kg_priv_len = (1, 1), kg_priv = (1, [7])\<rparr>"
  have "snd (kg_pub_len ?r) = length (snd (kg_pub ?r))" "snd (kg_priv_len ?r) = length (snd (kg_priv ?r))" by simp_all
  from keygen_checks_zero_only [OF this, of "[]" "[1, 2, 3]"] show ?thesis by simp
qed

end
