(* ===== verification/Tls_Context.thy ===== *)
theory Tls_Context
  imports Digest
begin

text \<open>
  \<open>crypto/ssl.cc\<close>: the library's initialisation, TLS contexts and connections, and attaching the
  expected peer identifier (\<open>crypto/auth.cc\<close>) to a connection. The OpenSSL calls enter as what
  they return, the settings they make are the fields of the two records.
\<close>

section \<open>Contexts\<close>

definition SSLInit :: "int \<Rightarrow> int \<Rightarrow> int \<Rightarrow> crypto_exc option" where
  "SSLInit library_init load_error_strings add_all_algorithms =
     (case scall library_init of
        Some e \<Rightarrow> Some e
      | None \<Rightarrow>
          (case scall load_error_strings of
             Some e \<Rightarrow> Some e
           | None \<Rightarrow> scall add_all_algorithms))"

record ssl_ctx =
  cx_security_level :: int
  cx_min_proto_version :: u32
  cx_cipher_list :: string
  cx_options :: u64
  cx_status_type :: int
  cx_session_cache_mode :: int
  cx_session_id_context :: string

definition TLS1_3_VERSION :: u32 where
  "TLS1_3_VERSION = 0x304"

definition SSL_OP_NO_COMPRESSION :: u64 where
  "SSL_OP_NO_COMPRESSION = 0x20000"

definition TLSEXT_STATUSTYPE_ocsp :: int where
  "TLSEXT_STATUSTYPE_ocsp = 1"

definition SSL_SESS_CACHE_CLIENT :: int where
  "SSL_SESS_CACHE_CLIENT = 1"

definition cipher_list :: string where
  "cipher_list = ''ECDHE-ECDSA-AES256-GCM-SHA384:'' @ ''ECDHE-RSA-AES256-GCM-SHA384:'' @
     ''ECDHE-ECDSA-CHACHA20-POLY1305:'' @ ''ECDHE-RSA-CHACHA20-POLY1305:'' @
     ''ECDHE-ECDSA-AES128-GCM-SHA256:'' @ ''ECDHE-RSA-AES128-GCM-SHA256:'' @
     ''ECDHE-ECDSA-AES256-SHA384:'' @ ''ECDHE-RSA-AES256-SHA384''"

text \<open>
  What the calls return: the context with its defaults, or a null pointer, and the results of the
  checked calls. \<open>SSL_CTX_set_session_cache_mode\<close> returns the mode set before.
\<close>

record ctx_calls =
  cc_new :: "ssl_ctx option"
  cc_min_proto :: "u32 \<Rightarrow> int"
  cc_ciphers :: "string \<Rightarrow> int"
  cc_status_type :: "int \<Rightarrow> int"
  cc_session_id :: "string \<Rightarrow> int"

definition SSLCreateContext :: "ctx_calls \<Rightarrow> crypto_exc + ssl_ctx" where
  "SSLCreateContext api =
     (case cc_new api of
        None \<Rightarrow> Inl Ssl_call_failed
      | Some ctx \<Rightarrow>
          (let ctx1 = ctx\<lparr>cx_security_level := 4\<rparr>
           in case scall (cc_min_proto api TLS1_3_VERSION) of
                Some e \<Rightarrow> Inl e
              | None \<Rightarrow>
                  (let ctx2 = ctx1\<lparr>cx_min_proto_version := TLS1_3_VERSION\<rparr>
                   in case scall (cc_ciphers api cipher_list) of
                        Some e \<Rightarrow> Inl e
                      | None \<Rightarrow>
                          (let ctx3 = ctx2\<lparr>cx_cipher_list := cipher_list,
                             cx_options := cx_options ctx2 OR SSL_OP_NO_COMPRESSION\<rparr>
                           in case scall (cc_status_type api TLSEXT_STATUSTYPE_ocsp) of
                                Some e \<Rightarrow> Inl e
                              | None \<Rightarrow>
                                  (let previous = cx_session_cache_mode ctx3;
                                       ctx4 = ctx3\<lparr>cx_status_type := TLSEXT_STATUSTYPE_ocsp,
                                         cx_session_cache_mode := SSL_SESS_CACHE_CLIENT\<rparr>
                                   in case scall previous of
                                        Some e \<Rightarrow> Inl e
                                      | None \<Rightarrow>
                                          (let sid = take 5 ''net_test''
                                           in case scall (cc_session_id api sid) of
                                                Some e \<Rightarrow> Inl e
                                              | None \<Rightarrow> Inr (ctx4\<lparr>cx_session_id_context := sid\<rparr>)))))))"

section \<open>Connections\<close>

text \<open>\<open>ss_ex_data\<close> is slot 0 of the extra data: a pointer to a peer identifier, which is not copied.\<close>

record ssl_state =
  ss_fd :: int
  ss_ex_data :: "nat option"
  ss_verify_mode :: u32
  ss_verify_handler :: bool

definition ssl_fresh :: ssl_state where
  "ssl_fresh = \<lparr>ss_fd = - 1, ss_ex_data = None, ss_verify_mode = 0, ss_verify_handler = False\<rparr>"

definition SSLCreate :: "bool \<Rightarrow> (int \<Rightarrow> int) \<Rightarrow> int \<Rightarrow> crypto_exc + ssl_state" where
  "SSLCreate new_ok set_fd fd =
     (if \<not> new_ok then Inl Ssl_call_failed
      else (case scall (set_fd fd) of Some e \<Rightarrow> Inl e | None \<Rightarrow> Inr (ssl_fresh\<lparr>ss_fd := fd\<rparr>)))"

definition SSL_VERIFY_PEER :: u32 where "SSL_VERIFY_PEER = 1"
definition SSL_VERIFY_FAIL_IF_NO_PEER_CERT :: u32 where "SSL_VERIFY_FAIL_IF_NO_PEER_CERT = 2"
definition SSL_VERIFY_CLIENT_ONCE :: u32 where "SSL_VERIFY_CLIENT_ONCE = 4"

text \<open>\<open>SSL_set_verify\<close> without a handler leaves the handler set before, as OpenSSL documents.\<close>

definition ssl_add_verify_peer_id :: "int \<Rightarrow> nat option \<Rightarrow> ssl_state \<Rightarrow> crypto_exc option \<times> ssl_state" where
  "ssl_add_verify_peer_id set_ex_data peer_id_ptr ssl =
     (case scall set_ex_data of
        Some e \<Rightarrow> (Some e, ssl)
      | None \<Rightarrow> (None, ssl\<lparr>ss_ex_data := peer_id_ptr,
          ss_verify_mode := SSL_VERIFY_PEER OR SSL_VERIFY_FAIL_IF_NO_PEER_CERT OR SSL_VERIFY_CLIENT_ONCE,
          ss_verify_handler := True\<rparr>))"

definition ssl_clear_verify_peer_id :: "int \<Rightarrow> ssl_state \<Rightarrow> crypto_exc option \<times> ssl_state" where
  "ssl_clear_verify_peer_id set_ex_data ssl =
     (case scall set_ex_data of
        Some e \<Rightarrow> (Some e, ssl)
      | None \<Rightarrow> (None, ssl\<lparr>ss_ex_data := None, ss_verify_mode := 0\<rparr>))"

text \<open>The environment of the handler for a connection: its identifier is read when it is called.\<close>

definition verify_env_of :: "(nat \<Rightarrow> peer_id) \<Rightarrow> ssl_state \<Rightarrow> verify_env \<Rightarrow> verify_env" where
  "verify_env_of memory ssl env =
     env\<lparr>ve_ssl := (\<lambda>idx. Some 0), ve_expected := (\<lambda>s. map_option memory (ss_ex_data ssl))\<rparr>"

section \<open>Properties\<close>

text \<open>
  A context is created exactly when every call succeeds and the session cache was not off,
  and then allows TLS 1.3 with security level 4 and no compression only; but sessions are
  identified by \<open>net_t\<close>, the length given being 5.
\<close>

theorem context_settings:
  "(case SSLCreateContext api of
      Inl e \<Rightarrow> cc_new api = None \<or> cc_min_proto api TLS1_3_VERSION = 0 \<or> cc_ciphers api cipher_list = 0 \<or>
        cc_status_type api TLSEXT_STATUSTYPE_ocsp = 0 \<or> cc_session_id api ''net_t'' = 0 \<or>
        map_option cx_session_cache_mode (cc_new api) = Some 0
    | Inr ctx \<Rightarrow> cc_new api \<noteq> None \<and> cc_min_proto api TLS1_3_VERSION \<noteq> 0 \<and> cc_ciphers api cipher_list \<noteq> 0 \<and>
        cc_status_type api TLSEXT_STATUSTYPE_ocsp \<noteq> 0 \<and> cc_session_id api ''net_t'' \<noteq> 0 \<and>
        map_option cx_session_cache_mode (cc_new api) \<noteq> Some 0 \<and>
        cx_security_level ctx = 4 \<and> cx_min_proto_version ctx = TLS1_3_VERSION \<and>
        cx_cipher_list ctx = cipher_list \<and> bit (cx_options ctx) 17 \<and>
        cx_status_type ctx = TLSEXT_STATUSTYPE_ocsp \<and> cx_session_cache_mode ctx = SSL_SESS_CACHE_CLIENT \<and>
        cx_session_id_context ctx = ''net_t'')"
proof (cases "cc_new api")
  case None
  then show ?thesis by (simp add: SSLCreateContext_def)
next
  case (Some ctx)
  have "bit SSL_OP_NO_COMPRESSION 17" by (simp add: SSL_OP_NO_COMPRESSION_def bit_numeral_rec)
  then show ?thesis using Some by (simp add: SSLCreateContext_def scall_def Let_def bit_simps)
qed



end
