(* ===== verification/Block_Cipher.thy ===== *)
theory Block_Cipher
  imports Prelude
begin

text \<open>
  \<open>crypto/block.h\<close>: the AES-256 key schedule, the block cipher and \<open>AES256SUM128Crypt\<close>, which adds
  up the plaintext blocks and encrypts the sums. \<open>__m128i\<close> is two 64-bit lanes, a group under the
  lane-wise addition. The AES instructions of the processor are a parameter, \<open>aes_unit\<close>.
\<close>

section \<open>128-bit values\<close>

datatype m128 = M128 (m_lo: u64) (m_hi: u64)

text \<open>\<open>_mm_add_epi64\<close>, \<open>_mm_sub_epi64\<close> and \<open>_mm_setzero_si128\<close> are the group operations.\<close>

instantiation m128 :: ab_group_add
begin

definition "0 = M128 0 0"
definition "x + y = M128 (m_lo x + m_lo y) (m_hi x + m_hi y)"
definition "x - y = M128 (m_lo x - m_lo y) (m_hi x - m_hi y)"
definition "- x = M128 (- m_lo x) (- m_hi x)"

instance
  by standard (auto simp: zero_m128_def plus_m128_def minus_m128_def uminus_m128_def)

end

definition mm_xor_si128 :: "m128 \<Rightarrow> m128 \<Rightarrow> m128" where
  "mm_xor_si128 x y = M128 (m_lo x XOR m_lo y) (m_hi x XOR m_hi y)"

text \<open>The four 32-bit parts, lowest first.\<close>

definition dword :: "m128 \<Rightarrow> nat \<Rightarrow> u32" where
  "dword x i = ucast (drop_bit (32 * (i mod 2)) (if i < 2 then m_lo x else m_hi x))"

definition of_dwords :: "u32 \<Rightarrow> u32 \<Rightarrow> u32 \<Rightarrow> u32 \<Rightarrow> m128" where
  "of_dwords a b c d = M128 (ucast a OR push_bit 32 (ucast b)) (ucast c OR push_bit 32 (ucast d))"

definition mm_shuffle_epi32 :: "m128 \<Rightarrow> nat \<Rightarrow> m128" where
  "mm_shuffle_epi32 x imm = of_dwords (dword x (imm mod 4)) (dword x (imm div 4 mod 4))
     (dword x (imm div 16 mod 4)) (dword x (imm div 64 mod 4))"

text \<open>\<open>_mm_slli_si128(x, 4)\<close> shifts by four bytes.\<close>

definition mm_slli_si128_4 :: "m128 \<Rightarrow> m128" where
  "mm_slli_si128_4 x = of_dwords 0 (dword x 0) (dword x 1) (dword x 2)"

section \<open>The AES instructions\<close>

text \<open>
  The substitution of the bytes of a word, and the rounds without the addition of the round key:
  \<open>AESENC\<close> is \<open>au_enc\<close> followed by it, and so on.
\<close>

record aes_unit =
  au_sub_word :: "u32 \<Rightarrow> u32"
  au_enc :: "m128 \<Rightarrow> m128"
  au_enclast :: "m128 \<Rightarrow> m128"
  au_dec :: "m128 \<Rightarrow> m128"
  au_declast :: "m128 \<Rightarrow> m128"

definition mm_aesenc_si128 :: "aes_unit \<Rightarrow> m128 \<Rightarrow> m128 \<Rightarrow> m128" where
  "mm_aesenc_si128 u x k = mm_xor_si128 (au_enc u x) k"

definition mm_aesenclast_si128 :: "aes_unit \<Rightarrow> m128 \<Rightarrow> m128 \<Rightarrow> m128" where
  "mm_aesenclast_si128 u x k = mm_xor_si128 (au_enclast u x) k"

definition mm_aesdec_si128 :: "aes_unit \<Rightarrow> m128 \<Rightarrow> m128 \<Rightarrow> m128" where
  "mm_aesdec_si128 u x k = mm_xor_si128 (au_dec u x) k"

definition mm_aesdeclast_si128 :: "aes_unit \<Rightarrow> m128 \<Rightarrow> m128 \<Rightarrow> m128" where
  "mm_aesdeclast_si128 u x k = mm_xor_si128 (au_declast u x) k"

text \<open>\<open>RotWord\<close> moves the lowest byte of the little-endian word to the top.\<close>

definition rot_word :: "u32 \<Rightarrow> u32" where
  "rot_word w = drop_bit 8 w OR push_bit 24 w"

definition mm_aeskeygenassist_si128 :: "aes_unit \<Rightarrow> m128 \<Rightarrow> u32 \<Rightarrow> m128" where
  "mm_aeskeygenassist_si128 u x rcon =
     (let s1 = au_sub_word u (dword x 1); s3 = au_sub_word u (dword x 3)
      in of_dwords s1 (rot_word s1 XOR rcon) s3 (rot_word s3 XOR rcon))"

section \<open>The key schedule\<close>

definition AES_KEY_256_ASSIST_1 :: "m128 \<Rightarrow> m128 \<Rightarrow> m128 \<times> m128" where
  "AES_KEY_256_ASSIST_1 temp1 temp2 =
     (let temp2 = mm_shuffle_epi32 temp2 0xff;
          temp4 = mm_slli_si128_4 temp1; temp1 = mm_xor_si128 temp1 temp4;
          temp4 = mm_slli_si128_4 temp4; temp1 = mm_xor_si128 temp1 temp4;
          temp4 = mm_slli_si128_4 temp4; temp1 = mm_xor_si128 temp1 temp4;
          temp1 = mm_xor_si128 temp1 temp2
      in (temp1, temp2))"

definition AES_KEY_256_ASSIST_2 :: "aes_unit \<Rightarrow> m128 \<Rightarrow> m128 \<Rightarrow> m128" where
  "AES_KEY_256_ASSIST_2 u temp1 temp3 =
     (let temp4 = mm_aeskeygenassist_si128 u temp1 0; temp2 = mm_shuffle_epi32 temp4 0xaa;
          temp4 = mm_slli_si128_4 temp3; temp3 = mm_xor_si128 temp3 temp4;
          temp4 = mm_slli_si128_4 temp4; temp3 = mm_xor_si128 temp3 temp4;
          temp4 = mm_slli_si128_4 temp4; temp3 = mm_xor_si128 temp3 temp4
      in mm_xor_si128 temp3 temp2)"

definition AES_KEY_256_LOAD :: "aes_unit \<Rightarrow> m128 \<times> m128 \<Rightarrow> m128 list" where
  "AES_KEY_256_LOAD u user_key =
     (let temp1 = fst user_key; temp3 = snd user_key; k0 = temp1; k1 = temp3;
          (temp1, temp2) = AES_KEY_256_ASSIST_1 temp1 (mm_aeskeygenassist_si128 u temp3 0x01); k2 = temp1;
          temp3 = AES_KEY_256_ASSIST_2 u temp1 temp3; k3 = temp3;
          (temp1, temp2) = AES_KEY_256_ASSIST_1 temp1 (mm_aeskeygenassist_si128 u temp3 0x02); k4 = temp1;
          temp3 = AES_KEY_256_ASSIST_2 u temp1 temp3; k5 = temp3;
          (temp1, temp2) = AES_KEY_256_ASSIST_1 temp1 (mm_aeskeygenassist_si128 u temp3 0x04); k6 = temp1;
          temp3 = AES_KEY_256_ASSIST_2 u temp1 temp3; k7 = temp3;
          (temp1, temp2) = AES_KEY_256_ASSIST_1 temp1 (mm_aeskeygenassist_si128 u temp3 0x08); k8 = temp1;
          temp3 = AES_KEY_256_ASSIST_2 u temp1 temp3; k9 = temp3;
          (temp1, temp2) = AES_KEY_256_ASSIST_1 temp1 (mm_aeskeygenassist_si128 u temp3 0x10); k10 = temp1;
          temp3 = AES_KEY_256_ASSIST_2 u temp1 temp3; k11 = temp3;
          (temp1, temp2) = AES_KEY_256_ASSIST_1 temp1 (mm_aeskeygenassist_si128 u temp3 0x20); k12 = temp1;
          temp3 = AES_KEY_256_ASSIST_2 u temp1 temp3; k13 = temp3;
          (temp1, temp2) = AES_KEY_256_ASSIST_1 temp1 (mm_aeskeygenassist_si128 u temp3 0x40); k14 = temp1
      in [k0, k1, k2, k3, k4, k5, k6, k7, k8, k9, k10, k11, k12, k13, k14])"

section \<open>One block\<close>

text \<open>After the loop \<open>j\<close> is \<open>max 1 nrounds\<close>.\<close>

definition AES_ECB_encrypt :: "aes_unit \<Rightarrow> m128 \<Rightarrow> m128 list \<Rightarrow> nat \<Rightarrow> m128" where
  "AES_ECB_encrypt u block key nrounds =
     (let tmp = mm_xor_si128 block (key ! 0);
          tmp = fold (\<lambda>j tmp. mm_aesenc_si128 u tmp (key ! j)) [1..<nrounds] tmp
      in mm_aesenclast_si128 u tmp (key ! max 1 nrounds))"

definition AES_ECB_decrypt :: "aes_unit \<Rightarrow> m128 \<Rightarrow> m128 list \<Rightarrow> nat \<Rightarrow> m128" where
  "AES_ECB_decrypt u block key nrounds =
     (let tmp = mm_xor_si128 block (key ! 0);
          tmp = fold (\<lambda>j tmp. mm_aesdec_si128 u tmp (key ! j)) [1..<nrounds] tmp
      in mm_aesdeclast_si128 u tmp (key ! max 1 nrounds))"

section \<open>Memory\<close>

text \<open>
  The buffers lie in one memory, so that \<open>in\<close> and \<open>out\<close> may be the same or overlap; a pointer is
  an offset.
\<close>

definition m128_bytes :: "m128 \<Rightarrow> bytes" where
  "m128_bytes x = le64 (m_lo x) @ le64 (m_hi x)"

definition m128_of_bytes :: "bytes \<Rightarrow> m128" where
  "m128_of_bytes bs = M128 (rd64 (take 8 bs)) (rd64 (take 8 (drop 8 bs)))"

definition mm_loadu_si128 :: "bytes \<Rightarrow> nat \<Rightarrow> m128" where
  "mm_loadu_si128 mem p = m128_of_bytes (take 16 (drop p mem))"

definition put_bytes :: "nat \<Rightarrow> bytes \<Rightarrow> bytes \<Rightarrow> bytes" where
  "put_bytes p bs mem = take p mem @ bs @ drop (p + length bs) mem"

definition mm_storeu_si128 :: "nat \<Rightarrow> m128 \<Rightarrow> bytes \<Rightarrow> bytes" where
  "mm_storeu_si128 p x mem = put_bytes p (m128_bytes x) mem"

text \<open>\<open>memcpy(&tmp, p, n)\<close> into a zeroed block, and \<open>memcpy(p, &tmp, n)\<close>.\<close>

definition load_part :: "bytes \<Rightarrow> nat \<Rightarrow> nat \<Rightarrow> m128" where
  "load_part mem p n = m128_of_bytes (take n (drop p mem) @ replicate (16 - n) 0)"

definition store_part :: "nat \<Rightarrow> nat \<Rightarrow> m128 \<Rightarrow> bytes \<Rightarrow> bytes" where
  "store_part p n x mem = put_bytes p (take n (m128_bytes x)) mem"

section \<open>AES256SUM128Crypt\<close>

record aes_sum =
  as_expanded_key :: "m128 list"
  as_feedback :: m128

definition load_key :: "aes_unit \<Rightarrow> m128 \<times> m128 \<Rightarrow> aes_sum \<Rightarrow> aes_sum" where
  "load_key u user_key c = c\<lparr>as_expanded_key := AES_KEY_256_LOAD u user_key\<rparr>"

fun encrypt_loop ::
  "aes_unit \<Rightarrow> m128 list \<Rightarrow> nat \<Rightarrow> nat \<Rightarrow> nat \<Rightarrow> m128 \<Rightarrow> bytes \<Rightarrow> m128 \<times> bytes" where
  "encrypt_loop u key outp inp 0 fb mem = (fb, mem)"
| "encrypt_loop u key outp inp (Suc n) fb mem =
     (let fb' = fb + mm_loadu_si128 mem inp;
          mem' = mm_storeu_si128 outp (AES_ECB_encrypt u fb' key 14) mem
      in encrypt_loop u key (outp + 16) (inp + 16) n fb' mem')"

text \<open>
  The tail is done inside the input buffer, whatever the output. \<open>None\<close> stands for an access
  outside the memory, as for the block that starts before a buffer of less than 16 bytes at its
  beginning.
\<close>

definition encrypt_tail :: "aes_unit \<Rightarrow> m128 list \<Rightarrow> nat \<Rightarrow> nat \<Rightarrow> nat \<Rightarrow> m128 \<Rightarrow> bytes \<Rightarrow> (m128 \<times> bytes) option" where
  "encrypt_tail u key inp sz tail_size fb mem =
     (if inp + sz + tail_size < 16 then None
      else
        (let b1 = inp + sz + tail_size - 16; b2 = inp + sz;
             fb' = fb + load_part mem b2 tail_size;
             mem1 = store_part b2 tail_size fb' mem;
             tmp = AES_ECB_encrypt u (mm_loadu_si128 mem1 b1) key 14
         in Some (fb', mm_storeu_si128 b1 tmp mem1)))"

definition encrypt :: "aes_unit \<Rightarrow> aes_sum \<Rightarrow> nat \<Rightarrow> nat \<Rightarrow> nat \<Rightarrow> bytes \<Rightarrow> (aes_sum \<times> bytes) option" where
  "encrypt u c outp inp sz mem =
     (let tail_size = sz mod 16; sz' = sz - tail_size
      in if length mem < inp + sz \<or> length mem < outp + sz' then None
         else
           (case encrypt_loop u (as_expanded_key c) outp inp (sz' div 16) (as_feedback c) mem of
              (fb, mem1) \<Rightarrow>
                if tail_size \<noteq> 0 then
                  (case encrypt_tail u (as_expanded_key c) inp sz' tail_size fb mem1 of
                     None \<Rightarrow> None
                   | Some (fb', mem2) \<Rightarrow> Some (c\<lparr>as_feedback := fb'\<rparr>, mem2))
                else Some (c\<lparr>as_feedback := fb\<rparr>, mem1)))"

fun decrypt_loop ::
  "aes_unit \<Rightarrow> m128 list \<Rightarrow> nat \<Rightarrow> nat \<Rightarrow> nat \<Rightarrow> m128 \<Rightarrow> bytes \<Rightarrow> m128 \<times> bytes" where
  "decrypt_loop u key outp inp 0 fb mem = (fb, mem)"
| "decrypt_loop u key outp inp (Suc n) fb mem =
     (let fb' = AES_ECB_decrypt u (mm_loadu_si128 mem inp) key 14 - fb;
          mem' = mm_storeu_si128 outp fb' mem
      in decrypt_loop u key (outp + 16) (inp + 16) n fb' mem')"

definition decrypt_tail :: "aes_unit \<Rightarrow> m128 list \<Rightarrow> nat \<Rightarrow> nat \<Rightarrow> nat \<Rightarrow> m128 \<Rightarrow> bytes \<Rightarrow> m128 \<times> bytes" where
  "decrypt_tail u key inp sz tail_size fb mem =
     (let b1 = inp + sz; b2 = inp + sz + tail_size - 16; b3 = inp + sz + 16;
          mem1 = mm_storeu_si128 b2 (AES_ECB_decrypt u (mm_loadu_si128 mem b2) key 14) mem;
          fb1 = AES_ECB_decrypt u (mm_loadu_si128 mem1 b1) key 14 - fb;
          mem2 = mm_storeu_si128 b1 fb1 mem1;
          fb2 = load_part mem2 b3 (tail_size - 16) - fb1
      in (fb2, store_part b3 (tail_size - 16) fb2 mem2))"

text \<open>For less than 16 bytes \<open>size -= tail_size\<close> wraps around, and the loop leaves the memory.\<close>

definition decrypt :: "aes_unit \<Rightarrow> aes_sum \<Rightarrow> nat \<Rightarrow> nat \<Rightarrow> nat \<Rightarrow> bytes \<Rightarrow> (aes_sum \<times> bytes) option" where
  "decrypt u c outp inp sz mem =
     (let tail_size = (if sz mod 16 \<noteq> 0 then 16 + sz mod 16 else 0)
      in if sz < tail_size then None
         else
           (let sz' = sz - tail_size
            in if length mem < inp + sz \<or> length mem < outp + sz' then None
               else
                 (case decrypt_loop u (as_expanded_key c) outp inp (sz' div 16) (as_feedback c) mem of
                    (fb, mem1) \<Rightarrow>
                      if tail_size \<noteq> 0 then
                        (case decrypt_tail u (as_expanded_key c) inp sz' tail_size fb mem1 of
                           (fb', mem2) \<Rightarrow> Some (c\<lparr>as_feedback := fb'\<rparr>, mem2))
                      else Some (c\<lparr>as_feedback := fb\<rparr>, mem1))))"

definition get_checksum :: "aes_unit \<Rightarrow> aes_sum \<Rightarrow> nat \<Rightarrow> bytes \<Rightarrow> bytes option" where
  "get_checksum u c outp mem =
     (if length mem < outp + 16 then None
      else Some (mm_storeu_si128 outp (AES_ECB_decrypt u (as_feedback c) (as_expanded_key c) 14) mem))"

end
