(* ===== verification/Key_Schedule.thy ===== *)
theory Key_Schedule
  imports Block_Cipher
begin

text \<open>
  The key schedule of \<open>crypto/block.h\<close> is that of FIPS 197, whatever the byte substitution of the
  processor: both take it as a parameter.
\<close>

section \<open>Words of a 128-bit value\<close>

lemma m128_eqI: "(\<And>i. i < 4 \<Longrightarrow> dword x i = dword y i) \<Longrightarrow> x = y"
proof -
  assume eq: "\<And>i. i < 4 \<Longrightarrow> dword x i = dword y i"
  have half: "a = b" if "(ucast a :: u32) = ucast b" "(ucast (drop_bit 32 a) :: u32) = ucast (drop_bit 32 b)"
    for a b :: u64
  proof (rule bit_word_eqI)
    fix n :: nat assume n: "n < LENGTH(64)"
    show "bit a n = bit b n"
    proof (cases "n < 32")
      case True
      then show ?thesis using arg_cong [OF that(1), of "\<lambda>w. bit w n"] by (simp add: bit_simps)
    next
      case False
      then have "n - 32 < 32" using n by simp
      then show ?thesis using arg_cong [OF that(2), of "\<lambda>w. bit w (n - 32)"] n False by (simp add: bit_simps)
    qed
  qed
  have "m_lo x = m_lo y" using eq [of 0] eq [of 1] by (intro half) (simp_all add: dword_def)
  moreover have "m_hi x = m_hi y" using eq [of 2] eq [of 3] by (intro half) (simp_all add: dword_def)
  ultimately show ?thesis by (simp add: m128.expand)
qed

lemma dword_of_dwords [simp]:
  "dword (of_dwords a b c d) 0 = a" "dword (of_dwords a b c d) (Suc 0) = b"
  "dword (of_dwords a b c d) 2 = c" "dword (of_dwords a b c d) 3 = d"
proof -
  have no: "\<not> bit w (32 + n)" for w :: u32 and n using bit_imp_le_length [of w "32 + n"] by auto
  show "dword (of_dwords a b c d) 0 = a" "dword (of_dwords a b c d) (Suc 0) = b"
    "dword (of_dwords a b c d) 2 = c" "dword (of_dwords a b c d) 3 = d"
    by (auto intro!: bit_word_eqI simp: dword_def of_dwords_def bit_simps no)
qed

lemma dword_of_dwords_3 [simp]: "dword (of_dwords a b c d) (Suc (Suc 0)) = c" "dword (of_dwords a b c d) (Suc (Suc (Suc 0))) = d"
  using dword_of_dwords(3,4) by (simp_all add: numeral_2_eq_2 numeral_3_eq_3)

lemma dword_xor [simp]: "dword (mm_xor_si128 x y) i = dword x i XOR dword y i"
  by (rule bit_word_eqI) (auto simp: dword_def mm_xor_si128_def bit_simps)

lemma mm_xor_cancel [simp]: "mm_xor_si128 (mm_xor_si128 x k) k = x"
  by (cases x; cases k) (simp add: mm_xor_si128_def xor.assoc)

section \<open>The key schedule of FIPS 197\<close>

function fips_word :: "(u32 \<Rightarrow> u32) \<Rightarrow> (nat \<Rightarrow> u32) \<Rightarrow> nat \<Rightarrow> u32" where
  "fips_word sub key i =
     (if i < 8 then key i
      else fips_word sub key (i - 8) XOR
        (if i mod 8 = 0 then rot_word (sub (fips_word sub key (i - 1))) XOR 2 ^ (i div 8 - 1)
         else if i mod 8 = 4 then sub (fips_word sub key (i - 1))
         else fips_word sub key (i - 1)))"
  by pat_completeness auto
termination
  by (relation "measure (\<lambda>(sub, key, i). i)") auto

declare fips_word.simps [simp del]

text \<open>The four words of the schedule from \<open>i\<close> on are those of a value.\<close>

definition holds_words :: "(u32 \<Rightarrow> u32) \<Rightarrow> (nat \<Rightarrow> u32) \<Rightarrow> m128 \<Rightarrow> nat \<Rightarrow> bool" where
  "holds_words sub key x i \<longleftrightarrow> dword x 0 = fips_word sub key i \<and> dword x 1 = fips_word sub key (i + 1) \<and>
     dword x 2 = fips_word sub key (i + 2) \<and> dword x 3 = fips_word sub key (i + 3)"

lemma fips_word_key [simp]: "i < 8 \<Longrightarrow> fips_word sub key i = key i"
  by (subst fips_word.simps) simp

lemma fips_chain:
  assumes "\<not> i mod 8 = 0" "\<not> i mod 8 = 4" "8 \<le> i"
  shows "fips_word sub key i = fips_word sub key (i - 8) XOR fips_word sub key (i - 1)"
  using assms by (subst fips_word.simps) simp

text \<open>Each half of a round continues the schedule by four words.\<close>

lemma assist_1_words:
  assumes "holds_words (au_sub_word u) key x i" and "holds_words (au_sub_word u) key y (i + 4)"
    and "i mod 8 = 0" and "rcon = 2 ^ (i div 8)"
  shows "holds_words (au_sub_word u) key (fst (AES_KEY_256_ASSIST_1 x (mm_aeskeygenassist_si128 u y rcon))) (i + 8)"
proof -
  let ?f = "fips_word (au_sub_word u) key"
  have 0: "?f (i + 8) = ?f i XOR (rot_word (au_sub_word u (?f (i + 7))) XOR 2 ^ (i div 8))"
    using assms(3) by (subst fips_word.simps) (simp add: ac_simps div_add_self2)
  have m: "(i + 9) mod 8 = 1" "(i + 10) mod 8 = 2" "(i + 11) mod 8 = 3" using assms(3) by presburger+
  have 1: "?f (i + 9) = ?f (i + 1) XOR ?f (i + 8)" "?f (i + 10) = ?f (i + 2) XOR ?f (i + 9)"
    "?f (i + 11) = ?f (i + 3) XOR ?f (i + 10)"
    using fips_chain [of "i + 9" "au_sub_word u" key] fips_chain [of "i + 10" "au_sub_word u" key]
      fips_chain [of "i + 11" "au_sub_word u" key] m by (simp_all add: add.commute)
  show ?thesis using assms(1,2,4) 0 1
    by (simp add: holds_words_def AES_KEY_256_ASSIST_1_def Let_def mm_shuffle_epi32_def mm_slli_si128_4_def
        mm_aeskeygenassist_si128_def add.commute xor.assoc xor.commute xor.left_commute)
qed

lemma assist_2_words:
  assumes "holds_words (au_sub_word u) key x (i + 4)" and "holds_words (au_sub_word u) key y i" and "i mod 8 = 4"
  shows "holds_words (au_sub_word u) key (AES_KEY_256_ASSIST_2 u x y) (i + 8)"
proof -
  let ?f = "fips_word (au_sub_word u) key"
  have m: "(i + 8) mod 8 = 4" "(i + 9) mod 8 = 5" "(i + 10) mod 8 = 6" "(i + 11) mod 8 = 7"
    using assms(3) by presburger+
  have 0: "?f (i + 8) = ?f i XOR au_sub_word u (?f (i + 7))"
    using m by (subst fips_word.simps) (simp add: ac_simps)
  have 1: "?f (i + 9) = ?f (i + 1) XOR ?f (i + 8)" "?f (i + 10) = ?f (i + 2) XOR ?f (i + 9)"
    "?f (i + 11) = ?f (i + 3) XOR ?f (i + 10)"
    using fips_chain [of "i + 9" "au_sub_word u" key] fips_chain [of "i + 10" "au_sub_word u" key]
      fips_chain [of "i + 11" "au_sub_word u" key] m by (simp_all add: add.commute)
  show ?thesis using assms(1,2) 0 1
    by (simp add: holds_words_def AES_KEY_256_ASSIST_2_def Let_def mm_shuffle_epi32_def mm_slli_si128_4_def
        mm_aeskeygenassist_si128_def add.commute xor.assoc xor.commute xor.left_commute)
qed

text \<open>A list of values that hold the schedule from word \<open>i\<close> on.\<close>

fun schedule_from :: "(u32 \<Rightarrow> u32) \<Rightarrow> (nat \<Rightarrow> u32) \<Rightarrow> nat \<Rightarrow> m128 list \<Rightarrow> bool" where
  "schedule_from sub key i [] = True"
| "schedule_from sub key i (x # xs) = (holds_words sub key x i \<and> schedule_from sub key (i + 4) xs)"

lemma schedule_from_nth:
  "schedule_from sub key i xs \<Longrightarrow> j < length xs \<Longrightarrow> holds_words sub key (xs ! j) (i + 4 * j)"
proof (induction xs arbitrary: i j)
  case (Cons x xs)
  then show ?case by (cases j) (fastforce simp: ac_simps)+
qed simp

lemma schedule_copy: "schedule_from sub key 0 (f a) \<Longrightarrow> schedule_from sub key 0 (Let a f)"
  by simp

lemma schedule_assist_1:
  assumes "holds_words (au_sub_word u) key x i" and "holds_words (au_sub_word u) key y i4"
    and "i4 = i + 4 \<and> j = i + 8 \<and> i mod 8 = 0 \<and> rcon = 2 ^ (i div 8)"
    and "\<And>a b. holds_words (au_sub_word u) key a j \<Longrightarrow> schedule_from (au_sub_word u) key 0 (f a b)"
  shows "schedule_from (au_sub_word u) key 0
    (case AES_KEY_256_ASSIST_1 x (mm_aeskeygenassist_si128 u y rcon) of (a, b) \<Rightarrow> f a b)"
proof (cases "AES_KEY_256_ASSIST_1 x (mm_aeskeygenassist_si128 u y rcon)")
  case (Pair a b)
  then show ?thesis using assms(4) [of a b] assist_1_words [of u key x i y rcon] assms(1-3) by simp
qed

lemma schedule_assist_2:
  assumes "holds_words (au_sub_word u) key x i4" and "holds_words (au_sub_word u) key y i"
    and "i4 = i + 4 \<and> j = i + 8 \<and> i mod 8 = 4"
    and "\<And>a. holds_words (au_sub_word u) key a j \<Longrightarrow> schedule_from (au_sub_word u) key 0 (f a)"
  shows "schedule_from (au_sub_word u) key 0 (Let (AES_KEY_256_ASSIST_2 u x y) f)"
  using assms(4) assist_2_words [of u key x i y] assms(1-3) by simp

text \<open>The user key as eight words.\<close>

definition key_words :: "m128 \<times> m128 \<Rightarrow> nat \<Rightarrow> u32" where
  "key_words k i = dword (if i < 4 then fst k else snd k) (i mod 4)"

lemma load_schedule: "schedule_from (au_sub_word u) (key_words k) 0 (AES_KEY_256_LOAD u k)"
proof -
  let ?h = "holds_words (au_sub_word u) (key_words k)"
  have "?h (fst k) 0" and "?h (snd k) 4"
    by (simp_all add: holds_words_def key_words_def)
      (simp_all only: numeral_2_eq_2)
  then show ?thesis unfolding AES_KEY_256_LOAD_def
    apply -
    apply (rule schedule_copy)+
    apply (rule schedule_assist_1 [where i = 0 and j = 8], assumption, assumption, simp, rule schedule_copy)
    apply (rule schedule_assist_2 [where i = 4 and j = 12], assumption, assumption, simp, (rule schedule_copy)+)
    apply (rule schedule_assist_1 [where i = 8 and j = 16], assumption, assumption, simp, rule schedule_copy)
    apply (rule schedule_assist_2 [where i = 12 and j = 20], assumption, assumption, simp, (rule schedule_copy)+)
    apply (rule schedule_assist_1 [where i = 16 and j = 24], assumption, assumption, simp, rule schedule_copy)
    apply (rule schedule_assist_2 [where i = 20 and j = 28], assumption, assumption, simp, (rule schedule_copy)+)
    apply (rule schedule_assist_1 [where i = 24 and j = 32], assumption, assumption, simp, rule schedule_copy)
    apply (rule schedule_assist_2 [where i = 28 and j = 36], assumption, assumption, simp, (rule schedule_copy)+)
    apply (rule schedule_assist_1 [where i = 32 and j = 40], assumption, assumption, simp, rule schedule_copy)
    apply (rule schedule_assist_2 [where i = 36 and j = 44], assumption, assumption, simp, (rule schedule_copy)+)
    apply (rule schedule_assist_1 [where i = 40 and j = 48], assumption, assumption, simp, rule schedule_copy)
    apply (rule schedule_assist_2 [where i = 44 and j = 52], assumption, assumption, simp, (rule schedule_copy)+)
    apply (rule schedule_assist_1 [where i = 48 and j = 56], assumption, assumption, simp, rule schedule_copy)
    by simp
qed

text \<open>
  (C15) The AES-256 key schedule is that of FIPS 197: word \<open>i\<close> of the 60 words of
  \<open>AES_KEY_256_LOAD\<close> is the one the standard's recurrence defines.
\<close>

theorem key_schedule_is_fips:
  "length (AES_KEY_256_LOAD u k) = 15 \<and>
   (\<forall>i. i < 60 \<longrightarrow> dword (AES_KEY_256_LOAD u k ! (i div 4)) (i mod 4) = fips_word (au_sub_word u) (key_words k) i)"
proof -
  have len: "length (AES_KEY_256_LOAD u k) = 15"
    by (simp add: AES_KEY_256_LOAD_def Let_def split_beta)
  moreover have "dword (AES_KEY_256_LOAD u k ! (i div 4)) (i mod 4) = fips_word (au_sub_word u) (key_words k) i"
    if "i < 60" for i
  proof -
    have h: "holds_words (au_sub_word u) (key_words k) (AES_KEY_256_LOAD u k ! (i div 4)) (4 * (i div 4))"
      using schedule_from_nth [OF load_schedule, of "i div 4"] len that by simp
    have "i mod 4 = 0 \<or> i mod 4 = 1 \<or> i mod 4 = 2 \<or> i mod 4 = 3" by presburger
    moreover have "4 * (i div 4) + i mod 4 = i" by simp
    ultimately show ?thesis using h unfolding holds_words_def by (metis add.right_neutral)
  qed
  ultimately show ?thesis by blast
qed

theorem key_schedule_is_fips_witness:
  "dword (AES_KEY_256_LOAD \<lparr>au_sub_word = (\<lambda>w. w XOR 99), au_enc = (\<lambda>x. x), au_enclast = (\<lambda>x. x), au_dec = (\<lambda>x. x),
     au_declast = (\<lambda>x. x)\<rparr> (M128 0 0, M128 5 0) ! 14) 3 = fips_word (\<lambda>w. w XOR 99) (key_words (M128 0 0, M128 5 0)) 59"
  using key_schedule_is_fips [THEN conjunct2, THEN spec, THEN mp, of 59 "\<lparr>au_sub_word = (\<lambda>w. w XOR 99),
     au_enc = (\<lambda>x. x), au_enclast = (\<lambda>x. x), au_dec = (\<lambda>x. x), au_declast = (\<lambda>x. x)\<rparr>" "(M128 0 0, M128 5 0)"] by simp

end
