(* ===== verification/Block_Mode.thy ===== *)
theory Block_Mode
  imports Key_Schedule
begin

text \<open>
  \<open>AES_ECB_decrypt\<close> inverts \<open>AES_ECB_encrypt\<close> under the schedule of the equivalent inverse cipher;
  the loops of \<open>AES256SUM128Crypt\<close> are list functions on blocks; and what decrypting a message
  encrypted by the class gives back.
\<close>

section \<open>One block\<close>

text \<open>
  What the manual of the processor states of the AES instructions: the last rounds are inverse to
  each other, the other rounds mix the columns in addition, and mixing is linear.
\<close>

definition aes_laws :: "aes_unit \<Rightarrow> (m128 \<Rightarrow> m128) \<Rightarrow> (m128 \<Rightarrow> m128) \<Rightarrow> bool" where
  "aes_laws u mix unmix \<longleftrightarrow>
     (\<forall>x. au_declast u (au_enclast u x) = x) \<and> (\<forall>x. au_enc u x = mix (au_enclast u x)) \<and>
     (\<forall>x. au_dec u x = unmix (au_declast u x)) \<and> (\<forall>x. unmix (mix x) = x) \<and>
     (\<forall>x y. unmix (mm_xor_si128 x y) = mm_xor_si128 (unmix x) (unmix y))"

text \<open>The schedule for decryption: the order reversed, all but the ends unmixed (\<open>AESIMC\<close>).\<close>

definition inverse_schedule :: "(m128 \<Rightarrow> m128) \<Rightarrow> m128 list \<Rightarrow> nat \<Rightarrow> m128 list" where
  "inverse_schedule unmix key n =
     map (\<lambda>j. if j = 0 \<or> j = n then key ! (n - j) else unmix (key ! (n - j))) [0..<Suc n]"

lemma inverse_schedule_nth: "j \<le> n \<Longrightarrow>
  inverse_schedule unmix key n ! j = (if j = 0 \<or> j = n then key ! (n - j) else unmix (key ! (n - j)))"
  unfolding inverse_schedule_def by (subst nth_map) (simp_all del: upt_Suc)

text \<open>The state of the encryption before round \<open>j\<close> ends.\<close>

definition enc_state :: "aes_unit \<Rightarrow> m128 list \<Rightarrow> m128 \<Rightarrow> nat \<Rightarrow> m128" where
  "enc_state u key x j = fold (\<lambda>j tmp. mm_aesenc_si128 u tmp (key ! j)) [1..<Suc j] (mm_xor_si128 x (key ! 0))"

lemma enc_state_0 [simp]: "enc_state u key x 0 = mm_xor_si128 x (key ! 0)"
  by (simp add: enc_state_def)

lemma enc_state_Suc: "enc_state u key x (Suc j) = mm_xor_si128 (au_enc u (enc_state u key x j)) (key ! Suc j)"
  by (simp add: enc_state_def mm_aesenc_si128_def)

lemma encrypt_state: "AES_ECB_encrypt u x key (Suc n) = mm_xor_si128 (au_enclast u (enc_state u key x n)) (key ! Suc n)"
  by (simp add: AES_ECB_encrypt_def enc_state_def mm_aesenclast_si128_def Let_def)

lemma decrypt_states:
  assumes "aes_laws u mix unmix" and "j \<le> n"
  shows "fold (\<lambda>j tmp. mm_aesdec_si128 u tmp (inverse_schedule unmix key (Suc n) ! j)) [1..<Suc j]
      (mm_xor_si128 (AES_ECB_encrypt u x key (Suc n)) (inverse_schedule unmix key (Suc n) ! 0))
    = au_enclast u (enc_state u key x (n - j))"
  using assms(2)
proof (induction j)
  case 0
  show ?case by (simp add: encrypt_state inverse_schedule_nth)
next
  case (Suc j)
  then obtain m where m: "n - j = Suc m" "n - Suc j = m" by (metis Suc_diff_Suc Suc_le_lessD)
  have k: "inverse_schedule unmix key (Suc n) ! Suc j = unmix (key ! (n - j))"
    using Suc.prems by (simp add: inverse_schedule_nth)
  have "au_dec u (au_enclast u (enc_state u key x (Suc m)))
      = mm_xor_si128 (au_enclast u (enc_state u key x m)) (unmix (key ! Suc m))"
    using assms(1) by (simp add: aes_laws_def enc_state_Suc)
  then show ?case using Suc m k by (simp add: mm_aesdec_si128_def)
qed

lemma ecb_inverse:
  assumes "aes_laws u mix unmix"
  shows "AES_ECB_decrypt u (AES_ECB_encrypt u x key (Suc n)) (inverse_schedule unmix key (Suc n)) (Suc n) = x"
proof -
  show ?thesis
    using decrypt_states [OF assms order_refl, of key n x] assms
    by (simp add: inverse_schedule_nth AES_ECB_decrypt_def Let_def mm_aesdeclast_si128_def aes_laws_def)
qed

section \<open>The loops on lists of blocks\<close>

fun enc_blocks :: "(m128 \<Rightarrow> m128) \<Rightarrow> m128 \<Rightarrow> m128 list \<Rightarrow> m128 list" where
  "enc_blocks E fb [] = []"
| "enc_blocks E fb (p # ps) = E (fb + p) # enc_blocks E (fb + p) ps"

fun dec_blocks :: "(m128 \<Rightarrow> m128) \<Rightarrow> m128 \<Rightarrow> m128 list \<Rightarrow> m128 list" where
  "dec_blocks D fb [] = []"
| "dec_blocks D fb (c # cs) = (D c - fb) # dec_blocks D (D c - fb) cs"

text \<open>
  What decryption makes of the plaintext: to each block it adds what it made of the block two
  before, and the initial feedback to the second.
\<close>

fun skew :: "m128 \<Rightarrow> m128 \<Rightarrow> m128 list \<Rightarrow> m128 list" where
  "skew a b [] = []"
| "skew a b (p # ps) = (p + a) # skew b (p + a) ps"

lemma dec_enc_blocks:
  assumes "\<And>x. D (E x) = x"
  shows "dec_blocks D g (enc_blocks E f ps) = skew (f - g) g ps"
proof (induction ps arbitrary: f g)
  case (Cons p ps)
  have "f + p - (f + p - g) = g" and e: "f + p - g = p + (f - g)" by (simp_all add: algebra_simps)
  then show ?case using Cons [of "p + (f - g)" "f + p"] assms by (simp add: e)
qed simp

lemma skew_id: "skew a b ps = ps \<longleftrightarrow>
  (ps \<noteq> [] \<longrightarrow> a = 0) \<and> (2 \<le> length ps \<longrightarrow> b = 0) \<and> (\<forall>i. Suc (Suc i) < length ps \<longrightarrow> ps ! i = 0)"
proof (induction ps arbitrary: a b)
  case (Cons p ps)
  have all: "(\<forall>i. Suc (Suc i) < length (p # ps) \<longrightarrow> (p # ps) ! i = 0) \<longleftrightarrow>
    (2 \<le> length ps \<longrightarrow> p = 0) \<and> (\<forall>i. Suc (Suc i) < length ps \<longrightarrow> ps ! i = 0)"
    by (auto simp: nth_Cons split: nat.splits)
  show ?case using Cons [of b "p + a"] unfolding all by (cases ps) auto
qed simp

section \<open>The loops on memory\<close>

lemma length_m128_bytes [simp]: "length (m128_bytes x) = 16"
  by (simp add: m128_bytes_def)

lemma m128_of_bytes [simp]: "m128_of_bytes (m128_bytes x) = x"
  by (simp add: m128_of_bytes_def m128_bytes_def)

lemma length_store [simp]: "p + 16 \<le> length mem \<Longrightarrow> length (mm_storeu_si128 p x mem) = length mem"
  by (simp add: mm_storeu_si128_def put_bytes_def)

lemma load_store: "p + 16 \<le> length mem \<Longrightarrow> mm_loadu_si128 (mm_storeu_si128 p x mem) p = x"
  by (simp add: mm_loadu_si128_def mm_storeu_si128_def put_bytes_def)

lemma load_store_other:
  assumes "p + 16 \<le> length mem" and "q + 16 \<le> p \<or> p + 16 \<le> q"
  shows "mm_loadu_si128 (mm_storeu_si128 p x mem) q = mm_loadu_si128 mem q"
proof -
  have "take 16 (drop q (take p mem @ m128_bytes x @ drop (p + 16) mem)) = take 16 (drop q mem)"
    using assms(2)
  proof
    assume "q + 16 \<le> p"
    then have "16 \<le> p - q" "q \<le> p" by simp_all
    then show ?thesis using assms(1) by (simp add: drop_take min_def)
  next
    assume "p + 16 \<le> q"
    then have "drop q (take p mem @ m128_bytes x @ drop (p + 16) mem) = drop q mem" using assms(1) by simp
    then show ?thesis by simp
  qed
  then show ?thesis by (simp add: mm_loadu_si128_def mm_storeu_si128_def put_bytes_def)
qed

text \<open>Both loops have this form: what a block becomes, and what the feedback becomes.\<close>

fun block_loop :: "(m128 \<Rightarrow> m128 \<Rightarrow> m128 \<times> m128) \<Rightarrow> nat \<Rightarrow> nat \<Rightarrow> nat \<Rightarrow> m128 \<Rightarrow> bytes \<Rightarrow> m128 \<times> bytes" where
  "block_loop g outp inp 0 fb mem = (fb, mem)"
| "block_loop g outp inp (Suc n) fb mem =
     (case g fb (mm_loadu_si128 mem inp) of
        (fb', x) \<Rightarrow> block_loop g (outp + 16) (inp + 16) n fb' (mm_storeu_si128 outp x mem))"

fun scan_blocks :: "(m128 \<Rightarrow> m128 \<Rightarrow> m128 \<times> m128) \<Rightarrow> m128 \<Rightarrow> m128 list \<Rightarrow> m128 \<times> m128 list" where
  "scan_blocks g fb [] = (fb, [])"
| "scan_blocks g fb (b # bs) =
     (case g fb b of (fb', x) \<Rightarrow> (case scan_blocks g fb' bs of (fb'', xs) \<Rightarrow> (fb'', x # xs)))"

fun blocks :: "bytes \<Rightarrow> nat \<Rightarrow> nat \<Rightarrow> m128 list" where
  "blocks mem p 0 = []"
| "blocks mem p (Suc n) = mm_loadu_si128 mem p # blocks mem (p + 16) n"

lemma blocks_store:
  assumes "p + 16 \<le> length mem" and "p + 16 \<le> q \<or> q + 16 * n \<le> p"
  shows "blocks (mm_storeu_si128 p x mem) q n = blocks mem q n"
  using assms by (induction n arbitrary: q) (auto simp: load_store_other)

lemma block_loop_keeps:
  assumes "outp + 16 * n \<le> length mem" and "q + 16 \<le> outp"
  shows "mm_loadu_si128 (snd (block_loop g outp inp n fb mem)) q = mm_loadu_si128 mem q"
  using assms
  by (induction n arbitrary: outp inp fb mem) (auto simp: load_store_other split: prod.splits)

lemma block_loop_length:
  "outp + 16 * n \<le> length mem \<Longrightarrow> length (snd (block_loop g outp inp n fb mem)) = length mem"
  by (induction n arbitrary: outp inp fb mem) (auto split: prod.splits)

text \<open>In place, to the left of the input, or apart, the loop works as on a list of blocks.\<close>

lemma block_loop_scan:
  assumes "outp + 16 * n \<le> length mem" and "outp \<le> inp \<or> inp + 16 * n \<le> outp"
  shows "fst (block_loop g outp inp n fb mem) = fst (scan_blocks g fb (blocks mem inp n)) \<and>
    blocks (snd (block_loop g outp inp n fb mem)) outp n = snd (scan_blocks g fb (blocks mem inp n))"
  using assms
proof (induction n arbitrary: outp inp fb mem)
  case (Suc n)
  obtain fb' x where g: "g fb (mm_loadu_si128 mem inp) = (fb', x)" by fastforce
  let ?mem = "mm_storeu_si128 outp x mem"
  have o: "outp + 16 \<le> length mem" using Suc.prems(1) by simp
  have b: "blocks ?mem (inp + 16) n = blocks mem (inp + 16) n"
    using Suc.prems by (intro blocks_store [OF o]) auto
  have "outp + 16 + 16 * n \<le> length ?mem" "outp + 16 \<le> inp + 16 \<or> inp + 16 + 16 * n \<le> outp + 16"
    using Suc.prems o by auto
  note ih = Suc.IH [OF this, of fb', unfolded b]
  have "mm_loadu_si128 (snd (block_loop g (outp + 16) (inp + 16) n fb' ?mem)) outp = x"
    using Suc.prems(1) o by (simp add: block_loop_keeps load_store)
  then show ?case using ih g by (simp add: split_beta)
qed simp

lemma encrypt_loop_blocks:
  "encrypt_loop u key outp inp n fb mem
    = block_loop (\<lambda>fb p. (fb + p, AES_ECB_encrypt u (fb + p) key 14)) outp inp n fb mem"
  by (induction n arbitrary: outp inp fb mem) (simp_all add: Let_def)

lemma decrypt_loop_blocks:
  "decrypt_loop u key outp inp n fb mem
    = block_loop (\<lambda>fb c. (AES_ECB_decrypt u c key 14 - fb, AES_ECB_decrypt u c key 14 - fb)) outp inp n fb mem"
  by (induction n arbitrary: outp inp fb mem) (simp_all add: Let_def)

lemma scan_enc: "scan_blocks (\<lambda>fb p. (fb + p, E (fb + p))) fb ps = (fb + sum_list ps, enc_blocks E fb ps)"
  by (induction ps arbitrary: fb) (simp_all add: add.assoc)

lemma scan_dec: "snd (scan_blocks (\<lambda>fb c. (D c - fb, D c - fb)) fb cs) = dec_blocks D fb cs"
  by (induction cs arbitrary: fb) (simp_all add: split_beta)

section \<open>Properties\<close>


text \<open>Units that satisfy the laws, to apply the theorems: one that does nothing, and one that counts.\<close>

definition plain_unit :: aes_unit where
  "plain_unit = \<lparr>au_sub_word = (\<lambda>w. w), au_enc = (\<lambda>x. x), au_enclast = (\<lambda>x. x), au_dec = (\<lambda>x. x), au_declast = (\<lambda>x. x)\<rparr>"

definition counting_unit :: aes_unit where
  "counting_unit = \<lparr>au_sub_word = (\<lambda>w. w), au_enc = (\<lambda>x. x + M128 1 0), au_enclast = (\<lambda>x. x + M128 1 0),
     au_dec = (\<lambda>x. x - M128 1 0), au_declast = (\<lambda>x. x - M128 1 0)\<rparr>"

lemma units_ok: "aes_laws plain_unit (\<lambda>x. x) (\<lambda>x. x)" "aes_laws counting_unit (\<lambda>x. x) (\<lambda>x. x)"
  by (simp_all add: aes_laws_def plain_unit_def counting_unit_def)


text \<open>
  \<open>AES_ECB_decrypt\<close> inverts \<open>AES_ECB_encrypt\<close> under the schedule of the equivalent inverse
  cipher, for any instructions that satisfy the laws; under the schedule used for encryption, as
  \<open>AES256SUM128Crypt\<close> has it, there are instructions that satisfy the laws for which it does not.
\<close>

theorem ecb_decrypt_inverts:
  "(aes_laws u mix unmix \<longrightarrow>
      AES_ECB_decrypt u (AES_ECB_encrypt u x key 14) (inverse_schedule unmix key 14) 14 = x) \<and>
   (\<exists>v mix' unmix' y key'. aes_laws v mix' unmix' \<and> length key' = 15 \<and>
      AES_ECB_decrypt v (AES_ECB_encrypt v y key' 14) key' 14 \<noteq> y)"
proof
  show "aes_laws u mix unmix \<longrightarrow>
      AES_ECB_decrypt u (AES_ECB_encrypt u x key 14) (inverse_schedule unmix key 14) 14 = x"
    using ecb_inverse [of u mix unmix x key 13] by simp
  let ?k = "M128 2 0 # replicate 14 0"
  have x: "mm_xor_si128 y 0 = y" for y by (cases y) (simp add: mm_xor_si128_def zero_m128_def)
  have k: "?k ! Suc j = 0" if "j < 14" for j using that by simp
  have one: "M128 (of_nat (Suc n)) 0 = M128 (of_nat n) 0 + M128 1 0" for n by (simp add: plus_m128_def)
  have e: "fold (\<lambda>j tmp. mm_aesenc_si128 counting_unit tmp (?k ! j)) [1..<Suc n] y = y + M128 (of_nat n) 0"
    if "n < 14" for n y using that
  proof (induction n)
    case 0
    then show ?case by (simp add: zero_m128_def [symmetric])
  next
    case (Suc n)
    then show ?case by (simp add: mm_aesenc_si128_def counting_unit_def x k one add.assoc del: of_nat_Suc)
  qed
  have d: "fold (\<lambda>j tmp. mm_aesdec_si128 counting_unit tmp (?k ! j)) [1..<Suc n] y = y - M128 (of_nat n) 0"
    if "n < 14" for n y using that
  proof (induction n)
    case 0
    then show ?case by (simp add: zero_m128_def [symmetric])
  next
    case (Suc n)
    then show ?case by (simp add: mm_aesdec_si128_def counting_unit_def x k one diff_diff_eq del: of_nat_Suc)
  qed
  have "AES_ECB_encrypt counting_unit 0 ?k 14 = M128 16 0"
    using e [of 13 "mm_xor_si128 0 (M128 2 0)"] k [of 13]
    by (simp add: AES_ECB_encrypt_def Let_def mm_aesenclast_si128_def counting_unit_def x)
      (simp add: plus_m128_def zero_m128_def mm_xor_si128_def)
  moreover have "AES_ECB_decrypt counting_unit (M128 16 0) ?k 14 = M128 4 0"
    using d [of 13 "mm_xor_si128 (M128 16 0) (M128 2 0)"] k [of 13]
    by (simp add: AES_ECB_decrypt_def Let_def mm_aesdeclast_si128_def counting_unit_def x)
      (simp add: minus_m128_def zero_m128_def mm_xor_si128_def)
  ultimately show "\<exists>v mix' unmix' y key'. aes_laws v mix' unmix' \<and> length key' = 15 \<and>
      AES_ECB_decrypt v (AES_ECB_encrypt v y key' 14) key' 14 \<noteq> y"
    by (intro exI [of _ counting_unit] exI [of _ "\<lambda>x. x"] exI [of _ 0] exI [of _ ?k] conjI units_ok)
      (simp_all add: zero_m128_def)
qed

theorem ecb_decrypt_inverts_witness:
  "AES_ECB_decrypt counting_unit (AES_ECB_encrypt counting_unit (M128 5 7) (replicate 15 0) 14)
     (inverse_schedule (\<lambda>x. x) (replicate 15 0) 14) 14 = M128 5 7"
  by (rule ecb_decrypt_inverts [THEN conjunct1, THEN mp, OF units_ok(2)])

end
