(* ===== verification/Block_Tail.thy ===== *)
theory Block_Tail
  imports Block_Mode
begin

text \<open>
  \<open>AES256SUM128Crypt\<close> of \<open>crypto/block.h\<close> on messages whose size is no multiple of 16: the tail is
  summed up like a block, and the last 16 bytes, of which some are ciphertext already, are
  encrypted. What decrypting such a message in place gives back, byte for byte.
\<close>

section \<open>Bytes of 128-bit values\<close>

lemma le64_nth: "i < 8 \<Longrightarrow> le64 x ! i = ucast (drop_bit (8 * i) x)"
proof -
  assume "i < 8"
  then consider "i = 0" | "i = 1" | "i = 2" | "i = 3" | "i = 4" | "i = 5" | "i = 6" | "i = 7" by fastforce
  then show ?thesis
    by cases (auto simp add: le64_def le32_def intro!: bit_word_eqI simp: bit_simps)
qed

lemma le64_rd64: "length bs = 8 \<Longrightarrow> le64 (rd64 bs) = bs"
proof -
  assume "length bs = 8"
  then obtain a b c d e f g h where bs: "bs = [a, b, c, d, e, f, g, h]"
    by (auto simp: eval_nat_numeral length_Suc_conv)
  have "\<not> bit w n" if "8 \<le> n" for w :: u8 and n using that bit_imp_le_length [of w n] by auto
  then show ?thesis unfolding bs
    by (auto simp add: le64_def le32_def rd64_def intro!: bit_word_eqI simp: bit_simps)
qed

lemma take_le64_eq: "t \<le> 8 \<Longrightarrow> take t (le64 x) = take t (le64 y) \<longleftrightarrow> take_bit (8 * t) x = take_bit (8 * t) y"
proof
  assume t: "t \<le> 8" and eq: "take t (le64 x) = take t (le64 y)"
  show "take_bit (8 * t) x = take_bit (8 * t) y"
  proof (rule bit_word_eqI)
    fix n :: nat assume n: "n < LENGTH(64)"
    have "bit x n = bit y n" if "n < 8 * t"
    proof -
      have "n div 8 < t" using that by auto
      then have "le64 x ! (n div 8) = le64 y ! (n div 8)" using eq by (metis nth_take)
      then have "(ucast (drop_bit (8 * (n div 8)) x) :: u8) = ucast (drop_bit (8 * (n div 8)) y)"
        using t \<open>n div 8 < t\<close> by (simp add: le64_nth)
      from arg_cong [OF this, of "\<lambda>w. bit w (n mod 8)"] show ?thesis by (simp add: bit_simps)
    qed
    then show "bit (take_bit (8 * t) x) n = bit (take_bit (8 * t) y) n" by (auto simp: bit_simps)
  qed
next
  assume t: "t \<le> 8" and eq: "take_bit (8 * t) x = take_bit (8 * t) y"
  show "take t (le64 x) = take t (le64 y)"
  proof (rule nth_equalityI)
    fix i assume "i < length (take t (le64 x))"
    then have i: "i < t" using t by simp
    have "bit x (8 * i + n) = bit y (8 * i + n)" if "n < 8" for n
      using arg_cong [OF eq, of "\<lambda>w. bit w (8 * i + n)"] i that by (simp add: bit_simps)
    then have "(ucast (drop_bit (8 * i) x) :: u8) = ucast (drop_bit (8 * i) y)"
      by (intro bit_word_eqI) (auto simp: bit_simps)
    then show "take t (le64 x) ! i = take t (le64 y) ! i" using i t by (simp add: le64_nth)
  qed (use t in simp)
qed

lemma take_bit_diff_word: "take_bit n (take_bit n x - take_bit n y) = take_bit n (x - y :: 'a::len word)"
proof -
  have int: "take_bit m (take_bit n a - take_bit n b) = take_bit m (a - b)" if "m \<le> n" for m and a b :: int
    using take_bit_diff [of m "take_bit n a" "take_bit n b"] take_bit_diff [of m a b] that by (simp add: min_absorb1)
  have "uint (take_bit n (take_bit n x - take_bit n y)) = uint (take_bit n (x - y))"
    by (simp add: unsigned_take_bit_eq uint_word_ariths take_bit_eq_mod [symmetric] int)
  then show ?thesis by (simp only: word_uint_eq_iff)
qed

lemma take_bit_diff_cong:
  fixes x y :: "'a::len word"
  assumes "take_bit n x = take_bit n x'" and "take_bit n y = take_bit n y'"
  shows "take_bit n (x - y) = take_bit n (x' - y')"
  unfolding take_bit_diff_word [symmetric, of n x y] take_bit_diff_word [symmetric, of n x' y'] assms ..

text \<open>The first bytes of a difference depend on the first bytes only.\<close>

lemma low_bytes_diff:
  assumes "take t (m128_bytes x) = take t (m128_bytes x')" and "take t (m128_bytes y) = take t (m128_bytes y')"
  shows "take t (m128_bytes (x - y)) = take t (m128_bytes (x' - y'))"
proof (cases "t \<le> 8")
  case True
  then show ?thesis using assms
    take_bit_diff_cong [of "8 * t" "m_lo x" "m_lo x'" "m_lo y" "m_lo y'"]
    by (simp add: m128_bytes_def take_le64_eq minus_m128_def)
next
  case False
  have inj: "le64 a = le64 b \<longleftrightarrow> a = b" for a b by (metis rd64_le64)
  have part: "take u (le64 (a - b)) = take u (le64 (a' - b'))"
    if "take u (le64 a) = take u (le64 a')" "take u (le64 b) = take u (le64 b')" for u a b a' b'
  proof (cases "u \<le> 8")
    case True
    then show ?thesis using that take_bit_diff_cong [of "8 * u" a a' b b'] by (simp add: take_le64_eq)
  next
    case False
    then show ?thesis using that inj by simp
  qed
  show ?thesis using assms False part [of "t - 8" "m_hi x" "m_hi x'" "m_hi y" "m_hi y'"]
    by (simp add: m128_bytes_def minus_m128_def inj)
qed

lemma m128_bytes_of: "length bs = 16 \<Longrightarrow> m128_bytes (m128_of_bytes bs) = bs"
  by (simp add: m128_bytes_def m128_of_bytes_def le64_rd64)

section \<open>Regions of memory\<close>

definition region :: "bytes \<Rightarrow> nat \<Rightarrow> nat \<Rightarrow> bytes" where
  "region mem p n = take n (drop p mem)"

lemma region_add: "region mem p (m + n) = region mem p m @ region mem (p + m) n"
  by (simp add: region_def take_add add.commute)

lemma length_region: "p + n \<le> length mem \<Longrightarrow> length (region mem p n) = n"
  by (simp add: region_def)

lemma length_put [simp]: "p + length bs \<le> length mem \<Longrightarrow> length (put_bytes p bs mem) = length mem"
  by (simp add: put_bytes_def)

lemma region_put_other:
  assumes "p + length bs \<le> length mem" and "q + n \<le> p \<or> p + length bs \<le> q"
  shows "region (put_bytes p bs mem) q n = region mem q n"
  using assms(2)
proof
  assume "q + n \<le> p"
  then have "n \<le> p - q" "q \<le> p" "p - q \<le> length mem - q" using assms(1) by simp_all
  then show ?thesis using assms(1) by (simp add: region_def put_bytes_def drop_take min.absorb1 min.absorb2)
next
  assume "p + length bs \<le> q"
  then have "drop q (put_bytes p bs mem) = drop q mem" using assms(1) by (simp add: put_bytes_def)
  then show ?thesis by (simp add: region_def)
qed

lemma region_put_same: "p + length bs \<le> length mem \<Longrightarrow> region (put_bytes p bs mem) p (length bs) = bs"
  by (simp add: region_def put_bytes_def)

lemma load_region: "mm_loadu_si128 mem p = m128_of_bytes (region mem p 16)"
  by (simp add: mm_loadu_si128_def region_def)

lemma region_load: "p + 16 \<le> length mem \<Longrightarrow> region mem p 16 = m128_bytes (mm_loadu_si128 mem p)"
  by (simp add: load_region m128_bytes_of length_region)

lemma region_store: "p + 16 \<le> length mem \<Longrightarrow> region (mm_storeu_si128 p x mem) p 16 = m128_bytes x"
  using region_put_same [of p "m128_bytes x" mem] by (simp add: mm_storeu_si128_def)

lemma region_store_other:
  "p + 16 \<le> length mem \<Longrightarrow> q + n \<le> p \<or> p + 16 \<le> q \<Longrightarrow> region (mm_storeu_si128 p x mem) q n = region mem q n"
  using region_put_other [of p "m128_bytes x" mem] by (simp add: mm_storeu_si128_def)

lemma region_part: "t \<le> 16 \<Longrightarrow> p + t \<le> length mem \<Longrightarrow> region (store_part p t x mem) p t = take t (m128_bytes x)"
  using region_put_same [of p "take t (m128_bytes x)" mem] by (simp add: store_part_def)

lemma region_part_other:
  "t \<le> 16 \<Longrightarrow> p + t \<le> length mem \<Longrightarrow> q + n \<le> p \<or> p + t \<le> q \<Longrightarrow> region (store_part p t x mem) q n = region mem q n"
  using region_put_other [of p "take t (m128_bytes x)" mem] by (simp add: store_part_def)

lemma length_part [simp]: "t \<le> 16 \<Longrightarrow> p + t \<le> length mem \<Longrightarrow> length (store_part p t x mem) = length mem"
  by (simp add: store_part_def)

lemma blocks_region: "p + 16 * n \<le> length mem \<Longrightarrow> p + 16 * n \<le> length mem' \<Longrightarrow>
  blocks mem p n = blocks mem' p n \<longleftrightarrow> region mem p (16 * n) = region mem' p (16 * n)"
proof (induction n arbitrary: p)
  case (Suc n)
  have "region m p (16 * Suc n) = region m p 16 @ region m (p + 16) (16 * n)" for m
    using region_add [of m p 16 "16 * n"] by simp
  moreover have "length (region mem p 16) = length (region mem' p 16)" using Suc.prems by (simp add: length_region)
  moreover have "mm_loadu_si128 mem p = mm_loadu_si128 mem' p \<longleftrightarrow> region mem p 16 = region mem' p 16"
    using region_load [of p mem] region_load [of p mem'] Suc.prems by (auto simp: load_region)
  ultimately show ?case using Suc.IH [of "p + 16"] Suc.prems by simp
qed (simp add: region_def)

lemma blocks_snoc: "blocks mem p (Suc n) = blocks mem p n @ [mm_loadu_si128 mem (p + 16 * n)]"
proof (induction n arbitrary: p)
  case (Suc n)
  show ?case by (subst blocks.simps(2), subst Suc.IH) (simp add: algebra_simps)
qed simp

lemma length_blocks [simp]: "length (blocks mem p n) = n"
  by (induction n arbitrary: p) simp_all

lemma block_loop_other:
  assumes "outp + 16 * n \<le> length mem" and "q + k \<le> outp \<or> outp + 16 * n \<le> q"
  shows "region (snd (block_loop g outp inp n fb mem)) q k = region mem q k"
  using assms
  by (induction n arbitrary: outp inp fb mem) (auto simp: region_store_other split: prod.splits)

section \<open>The last block and the tail\<close>

lemma enc_blocks_snoc: "enc_blocks E f (ps @ [q]) = enc_blocks E f ps @ [E (f + sum_list ps + q)]"
  by (induction ps arbitrary: f) (simp_all add: add.assoc)

lemma dec_blocks_snoc: "dec_blocks D g (cs @ [c]) = dec_blocks D g cs @ [D c - last (g # dec_blocks D g cs)]"
  by (induction cs arbitrary: g) simp_all

lemma fst_scan_dec: "fst (scan_blocks (\<lambda>fb c. (D c - fb, D c - fb)) g cs) = last (g # dec_blocks D g cs)"
  by (induction cs arbitrary: g) (simp_all add: split_beta)

definition pad_tail :: "bytes \<Rightarrow> m128" where
  "pad_tail bs = m128_of_bytes (bs @ replicate (16 - length bs) 0)"

lemma load_part_pad: "p + t \<le> length mem \<Longrightarrow> load_part mem p t = pad_tail (region mem p t)"
  by (simp add: load_part_def pad_tail_def region_def)

lemma take_pad_tail: "length bs \<le> 16 \<Longrightarrow> take (length bs) (m128_bytes (pad_tail bs)) = bs"
  by (simp add: pad_tail_def m128_bytes_of)

text \<open>The tail leaves the first bytes of the last full block and encrypts the rest with the tail.\<close>

lemma encrypt_tail_regions:
  fixes T :: bytes
  assumes "inp + sz = b + 16" and "t < 16" and "b + 16 + t \<le> length mem" and "region mem b 16 = m128_bytes C"
    and T: "T = region mem (b + 16) t"
  shows "\<exists>mem2. encrypt_tail u key inp sz t fb mem = Some (fb + pad_tail T, mem2) \<and> length mem2 = length mem \<and>
    region mem2 b t = take t (m128_bytes C) \<and>
    region mem2 (b + t) 16 = m128_bytes (AES_ECB_encrypt u
      (m128_of_bytes (drop t (m128_bytes C) @ take t (m128_bytes (fb + pad_tail T)))) key 14) \<and>
    (\<forall>q n. q + n \<le> b \<or> b + 16 + t \<le> q \<longrightarrow> region mem2 q n = region mem q n)"
proof -
  let ?F = "fb + pad_tail T"
  let ?m1 = "store_part (b + 16) t ?F mem"
  let ?Z = "AES_ECB_encrypt u (mm_loadu_si128 ?m1 (b + t)) key 14"
  let ?m2 = "mm_storeu_si128 (b + t) ?Z ?m1"
  have len: "length ?m1 = length mem" using assms(2,3) by simp
  have b: "region ?m1 b 16 = m128_bytes C" using assms by (simp add: region_part_other)
  have split: "region ?m1 b 16 = region ?m1 b t @ region ?m1 (b + t) (16 - t)"
    using region_add [of ?m1 b t "16 - t"] assms(2) by simp
  have lt: "length (region ?m1 b t) = t" using assms(3) len by (intro length_region) simp
  have 1: "region ?m1 b t = take t (m128_bytes C)" "region ?m1 (b + t) (16 - t) = drop t (m128_bytes C)"
    using split [unfolded b] lt by simp_all
  have "b + t + (16 - t) = b + 16" using assms(2) by simp
  then have "region ?m1 (b + t) 16 = region ?m1 (b + t) (16 - t) @ region ?m1 (b + 16) t"
    using region_add [of ?m1 "b + t" "16 - t" t] assms(2) by simp
  then have Y: "region ?m1 (b + t) 16 = drop t (m128_bytes C) @ take t (m128_bytes ?F)"
    using 1(2) assms(2,3) by (simp add: region_part)
  have "encrypt_tail u key inp sz t fb mem = Some (?F, ?m2)"
    using assms(1,3) T by (simp add: encrypt_tail_def Let_def load_part_pad)
  moreover have "region ?m2 (b + t) 16 = m128_bytes ?Z" "region ?m2 b t = take t (m128_bytes C)"
    using len assms(3) 1(1) by (simp_all add: region_store region_store_other)
  moreover have "region ?m2 q n = region mem q n" if "q + n \<le> b \<or> b + 16 + t \<le> q" for q n
    using that len assms(2,3) by (auto simp: region_store_other region_part_other)
  moreover have "length ?m2 = length mem" using len assms(3) by simp
  ultimately show ?thesis using Y by (intro exI [of _ ?m2]) (simp add: load_region)
qed

lemma decrypt_tail_regions:
  fixes W :: bytes
  assumes "inp + sz = b" and "0 < t" and "t < 16" and "b + 16 + t \<le> length mem"
    and "region mem b t = take t (m128_bytes C)" and "region mem (b + t) 16 = m128_bytes Z"
    and "m128_bytes (AES_ECB_decrypt u Z key 14) = drop t (m128_bytes C) @ W" and "length W = t"
  shows "\<exists>fb2 mem3. decrypt_tail u key inp sz (16 + t) g mem = (fb2, mem3) \<and> length mem3 = length mem \<and>
    region mem3 b 16 = m128_bytes (AES_ECB_decrypt u C key 14 - g) \<and>
    region mem3 (b + 16) t = take t (m128_bytes (pad_tail W - (AES_ECB_decrypt u C key 14 - g))) \<and>
    (\<forall>q n. q + n \<le> b \<longrightarrow> region mem3 q n = region mem q n)"
proof -
  let ?Y = "AES_ECB_decrypt u Z key 14"
  let ?m1 = "mm_storeu_si128 (b + t) ?Y mem"
  have "mm_loadu_si128 mem (b + t) = Z" by (simp add: load_region assms(6))
  then have m1: "?m1 = mm_storeu_si128 (b + t) (AES_ECB_decrypt u (mm_loadu_si128 mem (b + t)) key 14) mem" by simp
  have len: "length ?m1 = length mem" using assms(4) by simp
  have "region ?m1 (b + t) 16 = drop t (m128_bytes C) @ W" using assms(4,7) by (simp add: region_store)
  moreover have "region ?m1 (b + t) 16 = region ?m1 (b + t) (16 - t) @ region ?m1 (b + 16) t"
    using region_add [of ?m1 "b + t" "16 - t" t] assms(3) by simp
  moreover have "length (region ?m1 (b + 16) t) = t" using assms(4) len by (simp add: length_region)
  ultimately have 1: "region ?m1 (b + t) (16 - t) = drop t (m128_bytes C)" "region ?m1 (b + 16) t = W"
    using assms(8) by (metis append_eq_append_conv)+
  have "region ?m1 b t = take t (m128_bytes C)" using assms(4,5) by (simp add: region_store_other)
  then have "region ?m1 b 16 = m128_bytes C"
    using region_add [of ?m1 b t "16 - t"] 1(1) assms(3) by simp
  then have C: "mm_loadu_si128 ?m1 b = C" by (simp add: load_region)
  let ?f1 = "AES_ECB_decrypt u C key 14 - g"
  let ?m2 = "mm_storeu_si128 b ?f1 ?m1"
  let ?f2 = "pad_tail W - ?f1"
  let ?m3 = "store_part (b + 16) t ?f2 ?m2"
  have len2: "length ?m2 = length mem" using len assms(4) by simp
  have "region ?m2 (b + 16) t = W" using 1(2) len assms(4) by (simp add: region_store_other)
  then have "load_part ?m2 (b + 16) t = pad_tail W" using len2 assms(4) by (simp add: load_part_pad)
  then have "decrypt_tail u key inp sz (16 + t) g mem = (?f2, ?m3)"
    using assms(1) C m1 by (simp add: decrypt_tail_def Let_def)
  moreover have "region ?m3 b 16 = m128_bytes ?f1" using len len2 assms(3,4) by (simp add: region_part_other region_store)
  moreover have "region ?m3 (b + 16) t = take t (m128_bytes ?f2)" using len2 assms(3,4) by (simp add: region_part)
  moreover have "region ?m3 q n = region mem q n" if "q + n \<le> b" for q n
    using that len len2 assms(3,4) by (simp add: region_store_other region_part_other)
  moreover have "length ?m3 = length mem" using len2 assms(3,4) by simp
  ultimately show ?thesis by blast
qed

lemma low_bytes_zero: "t \<le> 16 \<Longrightarrow> take t (m128_bytes 0) = replicate t 0"
proof -
  assume "t \<le> 16"
  moreover have "m128_bytes 0 = replicate 16 0"
    by (simp add: m128_bytes_def zero_m128_def le64_def le32_def numeral_eq_Suc)
  ultimately show ?thesis by (simp add: min_absorb1)
qed

lemma low_bytes_add:
  assumes "t \<le> 16"
  shows "take t (m128_bytes (x + g)) = take t (m128_bytes x) \<longleftrightarrow> take t (m128_bytes g) = replicate t 0"
proof
  assume "take t (m128_bytes (x + g)) = take t (m128_bytes x)"
  from low_bytes_diff [OF this refl, of x] show "take t (m128_bytes g) = replicate t 0"
    using low_bytes_zero [OF assms] by simp
next
  assume "take t (m128_bytes g) = replicate t 0"
  then have "take t (m128_bytes (0 - g)) = take t (m128_bytes (0 - 0))"
    using low_bytes_zero [OF assms] by (intro low_bytes_diff) simp_all
  from low_bytes_diff [OF refl this, of x] show "take t (m128_bytes (x + g)) = take t (m128_bytes x)" by simp
qed

text \<open>What becomes of the tail: the feedback the decryption had before the last full block is added.\<close>

lemma tail_restored:
  assumes "t \<le> 16" and "length T = t"
  shows "take t (m128_bytes (pad_tail (take t (m128_bytes (F + pad_tail T))) - (F - g))) = T
    \<longleftrightarrow> take t (m128_bytes g) = replicate t 0"
proof -
  let ?W = "take t (m128_bytes (F + pad_tail T))"
  have "take t (m128_bytes (pad_tail ?W)) = ?W" using take_pad_tail [of ?W] assms(1) by simp
  from low_bytes_diff [OF this refl, of "F - g"]
  have "take t (m128_bytes (pad_tail ?W - (F - g))) = take t (m128_bytes (pad_tail T + g))" by (simp add: algebra_simps)
  then show ?thesis using low_bytes_add [OF assms(1), of "pad_tail T" g] take_pad_tail [of T] assms by simp
qed

lemma last_but_one: "qs @ [x] = ps \<Longrightarrow> last (f # qs) = (if length ps = 1 then f else ps ! (length ps - 2))"
  by (cases qs rule: rev_cases) (auto simp: nth_append)

section \<open>Whole messages\<close>

lemma encrypt_message:
  fixes u c mem p k t
  defines "E \<equiv> \<lambda>x. AES_ECB_encrypt u x (as_expanded_key c) 14" and "b \<equiv> p + 16 * k"
    and "ps \<equiv> blocks mem p (Suc k)" and "T \<equiv> region mem (p + 16 * k + 16) t"
  defines "F \<equiv> as_feedback c + sum_list ps"
  assumes "0 < t" and "t < 16" and "b + 16 + t \<le> length mem"
  shows "\<exists>mem2. encrypt u c p p (16 * Suc k + t) mem = Some (c\<lparr>as_feedback := F + pad_tail T\<rparr>, mem2) \<and>
    length mem2 = length mem \<and> blocks mem2 p k @ [E F] = enc_blocks E (as_feedback c) ps \<and>
    region mem2 b t = take t (m128_bytes (E F)) \<and>
    region mem2 (b + t) 16 = m128_bytes (E (m128_of_bytes (drop t (m128_bytes (E F)) @ take t (m128_bytes (F + pad_tail T)))))"
proof -
  let ?step = "\<lambda>fb p. (fb + p, E (fb + p))"
  have room: "p + 16 * Suc k \<le> length mem" using assms(8) by (simp add: b_def)
  obtain fb mem1 where e: "encrypt_loop u (as_expanded_key c) p p (Suc k) (as_feedback c) mem = (fb, mem1)" by fastforce
  then have loop: "block_loop ?step p p (Suc k) (as_feedback c) mem = (fb, mem1)"
    unfolding encrypt_loop_blocks E_def .
  have 1: "fb = F" "blocks mem1 p (Suc k) = enc_blocks E (as_feedback c) ps"
    using block_loop_scan [OF room, of p ?step "as_feedback c"] loop
    unfolding scan_enc [of E] F_def ps_def by simp_all
  have len1: "length mem1 = length mem" using block_loop_length [OF room, of ?step p "as_feedback c"] loop by simp
  have T1: "T = region mem1 (b + 16) t"
    using block_loop_other [OF room, of "b + 16" t ?step p "as_feedback c"] loop by (simp add: T_def b_def)
  have ps: "ps = blocks mem p k @ [mm_loadu_si128 mem b]" unfolding ps_def b_def by (rule blocks_snoc)
  have snoc: "blocks mem1 p (Suc k) = blocks mem1 p k @ [mm_loadu_si128 mem1 b]" unfolding b_def by (rule blocks_snoc)
  have C: "mm_loadu_si128 mem1 b = E F"
    using 1(2) unfolding snoc ps enc_blocks_snoc F_def by (simp add: add.assoc)
  then have C16: "region mem1 b 16 = m128_bytes (E F)" using assms(8) len1 by (simp add: region_load)
  have "p + 16 * Suc k = b + 16" by (simp add: b_def)
  from encrypt_tail_regions [OF this assms(7) _ C16 T1, of u "as_expanded_key c" F]
  obtain mem2 where tail: "encrypt_tail u (as_expanded_key c) p (16 * Suc k) t F mem1 = Some (F + pad_tail T, mem2)"
    and len2: "length mem2 = length mem" and low: "region mem2 b t = take t (m128_bytes (E F))"
    and high: "region mem2 (b + t) 16 = m128_bytes (E
      (m128_of_bytes (drop t (m128_bytes (E F)) @ take t (m128_bytes (F + pad_tail T)))))"
    and below: "\<forall>q m. q + m \<le> b \<or> b + 16 + t \<le> q \<longrightarrow> region mem2 q m = region mem1 q m"
    using assms(8) len1 unfolding E_def by auto
  have "16 * Suc k + t - t = 16 * Suc k" "(16 * Suc k + t) mod 16 = t" "16 * Suc k div 16 = Suc k"
    "\<not> length mem < p + (16 * Suc k + t)" "\<not> length mem < p + 16 * Suc k"
    using assms(7,8) room by (simp_all only: add_diff_cancel_right' mod_mult_self4 mod_less) (simp_all add: b_def)
  then have "encrypt u c p p (16 * Suc k + t) mem = Some (c\<lparr>as_feedback := F + pad_tail T\<rparr>, mem2)"
    using e 1(1) tail assms(6) unfolding encrypt_def Let_def by (simp del: mult_Suc_right encrypt_loop.simps)
  moreover have "blocks mem2 p k = blocks mem1 p k"
    using blocks_region [of p k mem2 mem1] below assms(8) len1 len2 by (simp add: b_def)
  ultimately show ?thesis using 1(2) len2 low high C unfolding snoc by auto
qed

lemma decrypt_message:
  fixes u d mem p k t
  defines "D \<equiv> \<lambda>x. AES_ECB_decrypt u x (as_expanded_key d) 14" and "b \<equiv> p + 16 * k" and "cs \<equiv> blocks mem p k"
  assumes "0 < t" and "t < 16" and "b + 16 + t \<le> length mem"
    and "region mem b t = take t (m128_bytes C)" and "region mem (b + t) 16 = m128_bytes Z"
    and "m128_bytes (D Z) = drop t (m128_bytes C) @ W" and "length W = t"
  shows "\<exists>d' mem4. decrypt u d p p (16 * Suc k + t) mem = Some (d', mem4) \<and> length mem4 = length mem \<and>
    blocks mem4 p (Suc k) = dec_blocks D (as_feedback d) (cs @ [C]) \<and>
    region mem4 (b + 16) t = take t (m128_bytes (pad_tail W - (D C - last (as_feedback d # dec_blocks D (as_feedback d) cs))))"
proof -
  let ?step = "\<lambda>fb c. (D c - fb, D c - fb)"
  let ?g = "last (as_feedback d # dec_blocks D (as_feedback d) cs)"
  have room: "p + 16 * k \<le> length mem" using assms(6) by (simp add: b_def)
  obtain fb mem3 where e: "decrypt_loop u (as_expanded_key d) p p k (as_feedback d) mem = (fb, mem3)" by fastforce
  then have loop: "block_loop ?step p p k (as_feedback d) mem = (fb, mem3)" unfolding decrypt_loop_blocks D_def .
  have 1: "fb = ?g" "blocks mem3 p k = dec_blocks D (as_feedback d) cs"
    using block_loop_scan [OF room, of p ?step "as_feedback d"] loop
    by (simp_all add: scan_dec [of D] fst_scan_dec [of D] cs_def)
  have len3: "length mem3 = length mem" using block_loop_length [OF room, of ?step p "as_feedback d"] loop by simp
  have above: "region mem3 q m = region mem q m" if "b \<le> q" for q m
    using block_loop_other [OF room, of q m ?step p "as_feedback d"] that loop by (simp add: b_def)
  have "p + 16 * k = b" "b + 16 + t \<le> length mem3" using assms(6) len3 by (simp_all add: b_def)
  from decrypt_tail_regions [OF this(1) assms(4,5) this(2), of C Z u "as_expanded_key d" W ?g]
  obtain fb2 mem4 where tail: "decrypt_tail u (as_expanded_key d) p (16 * k) (16 + t) ?g mem3 = (fb2, mem4)"
    and len4: "length mem4 = length mem" and last: "region mem4 b 16 = m128_bytes (D C - ?g)"
    and rest: "region mem4 (b + 16) t = take t (m128_bytes (pad_tail W - (D C - ?g)))"
    and below: "\<forall>q m. q + m \<le> b \<longrightarrow> region mem4 q m = region mem3 q m"
    using assms(7-10) above len3 unfolding D_def by auto
  have "(16 * Suc k + t) mod 16 = t" using assms(5) by (simp only: mod_mult_self4 mod_less)
  moreover have "16 * Suc k + t - (16 + t) = 16 * k" "\<not> 16 * Suc k + t < 16 + t"
    "\<not> length mem < p + (16 * Suc k + t)" "\<not> length mem < p + 16 * k"
    using assms(6) by (simp_all add: b_def)
  ultimately have "decrypt u d p p (16 * Suc k + t) mem = Some (d\<lparr>as_feedback := fb2\<rparr>, mem4)"
    using e 1(1) tail assms(4) unfolding decrypt_def Let_def by (simp del: mult_Suc_right add_less_cancel_right)
  moreover have "blocks mem4 p k = blocks mem3 p k"
    using blocks_region [of p k mem4 mem3] below assms(6) len3 len4 by (simp add: b_def)
  then have "blocks mem4 p (Suc k) = dec_blocks D (as_feedback d) (cs @ [C])"
    unfolding blocks_snoc dec_blocks_snoc using 1(2) last by (simp add: b_def load_region)
  ultimately show ?thesis using len4 rest by blast
qed

section \<open>Properties\<close>





end
