(* ===== verification/Ref_Count.thy ===== *)
theory Ref_Count
  imports Prelude
begin

text \<open>
  \<open>utils/lock/refs.h\<close>: reference-counted objects and the smart pointer \<open>Ref\<close>. The live objects are
  a map from addresses to counts, the \<open>Ref\<close> variables a list, so that assigning a variable to
  itself needs no special case. Touching a deleted object is \<open>None\<close>.
\<close>

section \<open>Objects\<close>

type_synonym object_heap = "nat \<rightharpoonup> int"

text \<open>A new object counts the reference of the caller of its constructor.\<close>

definition new_object :: "nat \<Rightarrow> object_heap \<Rightarrow> object_heap" where
  "new_object p h = h(p \<mapsto> 1)"

definition inc_ref :: "nat \<Rightarrow> object_heap \<Rightarrow> (int \<times> object_heap) option" where
  "inc_ref p h = (case h p of None \<Rightarrow> None | Some c \<Rightarrow> Some (c + 1, h(p \<mapsto> c + 1)))"

definition dec_ref :: "nat \<Rightarrow> object_heap \<Rightarrow> (int \<times> object_heap) option" where
  "dec_ref p h = (case h p of None \<Rightarrow> None | Some c \<Rightarrow> Some (c - 1, h(p \<mapsto> c - 1)))"

definition delete_object :: "nat \<Rightarrow> object_heap \<Rightarrow> object_heap option" where
  "delete_object p h = (case h p of None \<Rightarrow> None | Some c \<Rightarrow> Some (h(p := None)))"

section \<open>Ref variables\<close>

record ref_var =
  rf_ptr :: "nat option"

text \<open>\<open>rs_raw\<close> counts the references held by callers of constructors, which no variable shows.\<close>

record ref_state =
  rs_vars :: "ref_var list"
  rs_heap :: object_heap
  rs_raw :: "nat \<Rightarrow> int"

definition ref_init :: "nat \<Rightarrow> ref_state" where
  "ref_init n = \<lparr>rs_vars = replicate n \<lparr>rf_ptr = None\<rparr>, rs_heap = (\<lambda>p. None), rs_raw = (\<lambda>p. 0)\<rparr>"

definition set_var :: "nat \<Rightarrow> nat option \<Rightarrow> ref_state \<Rightarrow> ref_state" where
  "set_var i p s = s\<lparr>rs_vars := (rs_vars s)[i := \<lparr>rf_ptr = p\<rparr>]\<rparr>"

definition ref_inc_ref :: "nat \<Rightarrow> ref_state \<Rightarrow> ref_state option" where
  "ref_inc_ref i s =
     (case rf_ptr (rs_vars s ! i) of
        None \<Rightarrow> Some s
      | Some p \<Rightarrow>
          (case inc_ref p (rs_heap s) of None \<Rightarrow> None | Some (c, h) \<Rightarrow> Some (s\<lparr>rs_heap := h\<rparr>)))"

text \<open>\<open>Ref(To *)\<close>, the copy and the move constructor, into variable \<open>i\<close>.\<close>

definition ref_from_ptr :: "nat \<Rightarrow> nat option \<Rightarrow> ref_state \<Rightarrow> ref_state option" where
  "ref_from_ptr i p s = ref_inc_ref i (set_var i p s)"

definition ref_copy :: "nat \<Rightarrow> nat \<Rightarrow> ref_state \<Rightarrow> ref_state option" where
  "ref_copy i j s = ref_inc_ref i (set_var i (rf_ptr (rs_vars s ! j)) s)"

definition ref_move :: "nat \<Rightarrow> nat \<Rightarrow> ref_state \<Rightarrow> ref_state" where
  "ref_move i j s = set_var j None (set_var i (rf_ptr (rs_vars s ! j)) s)"

text \<open>\<open>clear\<close>, which is also the destructor.\<close>

definition ref_clear :: "nat \<Rightarrow> ref_state \<Rightarrow> ref_state option" where
  "ref_clear i s =
     (case rf_ptr (rs_vars s ! i) of
        None \<Rightarrow> Some s
      | Some p \<Rightarrow>
          (case dec_ref p (rs_heap s) of
             None \<Rightarrow> None
           | Some (refs_left, h) \<Rightarrow>
               (case (if refs_left = 0 then delete_object p h else Some h) of
                  None \<Rightarrow> None
                | Some h' \<Rightarrow> Some (set_var i None (s\<lparr>rs_heap := h'\<rparr>)))))"

definition ref_assign_copy :: "nat \<Rightarrow> nat \<Rightarrow> ref_state \<Rightarrow> ref_state option" where
  "ref_assign_copy i j s =
     (case ref_clear i s of
        None \<Rightarrow> None
      | Some s1 \<Rightarrow> ref_inc_ref i (set_var i (rf_ptr (rs_vars s1 ! j)) s1))"

definition ref_assign_move :: "nat \<Rightarrow> nat \<Rightarrow> ref_state \<Rightarrow> ref_state option" where
  "ref_assign_move i j s =
     (case ref_clear i s of
        None \<Rightarrow> None
      | Some s1 \<Rightarrow> Some (set_var j None (set_var i (rf_ptr (rs_vars s1 ! j)) s1)))"

section \<open>Programs\<close>

text \<open>
  What a program does: \<open>New_object\<close> is \<open>new\<close>, whose reference the caller gives up with
  \<open>Drop_raw\<close>, a call of \<open>dec_ref\<close> that deletes the object when it was the last.
\<close>

datatype ref_op =
    New_object nat
  | Drop_raw nat
  | From_ptr nat nat
  | Copy nat nat
  | Move_ref nat nat
  | Assign_copy nat nat
  | Assign_move nat nat
  | Clear nat

fun ref_step :: "ref_op \<Rightarrow> ref_state \<Rightarrow> ref_state option" where
  "ref_step (New_object p) s =
     Some (s\<lparr>rs_heap := new_object p (rs_heap s), rs_raw := (rs_raw s)(p := rs_raw s p + 1)\<rparr>)"
| "ref_step (Drop_raw p) s =
     (case dec_ref p (rs_heap s) of
        None \<Rightarrow> None
      | Some (refs_left, h) \<Rightarrow>
          (case (if refs_left = 0 then delete_object p h else Some h) of
             None \<Rightarrow> None
           | Some h' \<Rightarrow> Some (s\<lparr>rs_heap := h', rs_raw := (rs_raw s)(p := rs_raw s p - 1)\<rparr>)))"
| "ref_step (From_ptr i p) s = ref_from_ptr i (Some p) s"
| "ref_step (Copy i j) s = ref_copy i j s"
| "ref_step (Move_ref i j) s = Some (ref_move i j s)"
| "ref_step (Assign_copy i j) s = ref_assign_copy i j s"
| "ref_step (Assign_move i j) s = ref_assign_move i j s"
| "ref_step (Clear i) s = ref_clear i s"

text \<open>
  What C++ and the comment of \<open>RefObject\<close> allow: \<open>new\<close> gives an unused address, a variable is
  constructed once, and a raw pointer is used only by who holds its reference.
\<close>

fun ref_allowed :: "ref_op \<Rightarrow> ref_state \<Rightarrow> bool" where
  "ref_allowed (New_object p) s \<longleftrightarrow> rs_heap s p = None"
| "ref_allowed (Drop_raw p) s \<longleftrightarrow> 0 < rs_raw s p"
| "ref_allowed (From_ptr i p) s \<longleftrightarrow> i < length (rs_vars s) \<and> rf_ptr (rs_vars s ! i) = None \<and> 0 < rs_raw s p"
| "ref_allowed (Copy i j) s \<longleftrightarrow>
     i < length (rs_vars s) \<and> j < length (rs_vars s) \<and> i \<noteq> j \<and> rf_ptr (rs_vars s ! i) = None"
| "ref_allowed (Move_ref i j) s \<longleftrightarrow>
     i < length (rs_vars s) \<and> j < length (rs_vars s) \<and> i \<noteq> j \<and> rf_ptr (rs_vars s ! i) = None"
| "ref_allowed (Assign_copy i j) s \<longleftrightarrow> i < length (rs_vars s) \<and> j < length (rs_vars s)"
| "ref_allowed (Assign_move i j) s \<longleftrightarrow> i < length (rs_vars s) \<and> j < length (rs_vars s)"
| "ref_allowed (Clear i) s \<longleftrightarrow> i < length (rs_vars s)"

inductive ref_reachable :: "nat \<Rightarrow> ref_state \<Rightarrow> bool" for n where
  start: "ref_reachable n (ref_init n)"
| step: "ref_reachable n s \<Longrightarrow> ref_allowed p s \<Longrightarrow> ref_step p s = Some s' \<Longrightarrow> ref_reachable n s'"

section \<open>The count is the number of references\<close>

definition refs_to :: "nat \<Rightarrow> ref_var list \<Rightarrow> int" where
  "refs_to p vs = int (length (filter (\<lambda>v. rf_ptr v = Some p) vs))"

definition references :: "nat \<Rightarrow> ref_state \<Rightarrow> int" where
  "references p s = rs_raw s p + refs_to p (rs_vars s)"

definition ref_inv :: "ref_state \<Rightarrow> bool" where
  "ref_inv s \<longleftrightarrow> (\<forall>p. 0 \<le> rs_raw s p \<and>
     rs_heap s p = (if references p s = 0 then None else Some (references p s)))"

lemma refs_to_upd: "i < length vs \<Longrightarrow>
  refs_to p (vs[i := v]) = refs_to p vs - of_bool (rf_ptr (vs ! i) = Some p) + of_bool (rf_ptr v = Some p)"
proof (induction vs arbitrary: i)
  case (Cons x vs)
  then show ?case by (cases i) (auto simp: refs_to_def)
qed simp

lemma refs_to_nonneg [simp]: "0 \<le> refs_to p vs"
  by (simp add: refs_to_def)

lemma refs_to_pos: "i < length vs \<Longrightarrow> rf_ptr (vs ! i) = Some p \<Longrightarrow> 0 < refs_to p vs"
  by (auto simp: refs_to_def filter_empty_conv)

lemma length_set_var [simp]: "length (rs_vars (set_var i p s)) = length (rs_vars s)"
  by (simp add: set_var_def)

text \<open>The two moves all operations are made of: dropping a reference and sharing an object.\<close>

lemma ref_clear_inv:
  assumes "ref_inv s" and "i < length (rs_vars s)"
  shows "\<exists>s'. ref_clear i s = Some s' \<and> ref_inv s' \<and> length (rs_vars s') = length (rs_vars s) \<and>
    rf_ptr (rs_vars s' ! i) = None \<and> (\<forall>j. j \<noteq> i \<longrightarrow> rs_vars s' ! j = rs_vars s ! j) \<and> rs_raw s' = rs_raw s"
proof (cases "rf_ptr (rs_vars s ! i)")
  case None
  then show ?thesis using assms by (intro exI [of _ s]) (simp add: ref_clear_def)
next
  case (Some p)
  let ?c = "references p s"
  have pos: "0 < ?c" using refs_to_pos [OF assms(2) Some] assms(1) by (auto simp: references_def ref_inv_def intro: add_nonneg_pos)
  then have h: "rs_heap s p = Some ?c" using assms(1) by (auto simp: ref_inv_def)
  let ?h = "if ?c - 1 = 0 then (rs_heap s)(p := None) else (rs_heap s)(p \<mapsto> ?c - 1)"
  let ?s = "set_var i None (s\<lparr>rs_heap := ?h\<rparr>)"
  have "ref_clear i s = Some ?s"
    using Some h by (simp add: ref_clear_def dec_ref_def delete_object_def)
  moreover have "references q ?s = references q s - of_bool (q = p)" for q
    using assms(2) Some by (auto simp: references_def set_var_def refs_to_upd)
  then have "ref_inv ?s" using assms(1) pos by (auto simp: ref_inv_def set_var_def)
  ultimately show ?thesis using assms(2) by (intro exI [of _ ?s]) (auto simp: set_var_def)
qed

lemma ref_share_inv:
  assumes "ref_inv s" and "i < length (rs_vars s)" and "rf_ptr (rs_vars s ! i) = None"
    and "\<And>p. q = Some p \<Longrightarrow> 0 < references p s"
  shows "\<exists>s'. ref_inc_ref i (set_var i q s) = Some s' \<and> ref_inv s'"
proof (cases q)
  case None
  have "(rs_vars s)[i := \<lparr>rf_ptr = None\<rparr>] = rs_vars s" using assms(3) by (cases "rs_vars s ! i") (simp add: list_update_same_conv assms(2))
  then show ?thesis using None assms by (simp add: ref_inc_ref_def set_var_def)
next
  case (Some p)
  have h: "rs_heap s p = Some (references p s)" using assms(1) assms(4) [OF Some] by (auto simp: ref_inv_def)
  let ?s = "set_var i q (s\<lparr>rs_heap := (rs_heap s)(p \<mapsto> references p s + 1)\<rparr>)"
  have "ref_inc_ref i (set_var i q s) = Some ?s"
    using Some h assms(2) by (simp add: ref_inc_ref_def set_var_def inc_ref_def)
  moreover have "references x ?s = references x s + of_bool (x = p)" for x
    using assms(2,3) Some by (auto simp: references_def set_var_def refs_to_upd)
  then have "ref_inv ?s" using assms(1) assms(4) [OF Some] by (auto simp: ref_inv_def set_var_def)
  ultimately show ?thesis by blast
qed

lemma ref_transfer_inv:
  assumes "ref_inv s" and "i < length (rs_vars s)" and "j < length (rs_vars s)" and "rf_ptr (rs_vars s ! i) = None"
  shows "ref_inv (set_var j None (set_var i (rf_ptr (rs_vars s ! j)) s))"
proof -
  have "references p (set_var j None (set_var i (rf_ptr (rs_vars s ! j)) s)) = references p s" for p
    using assms(2-4) by (cases "i = j") (simp_all add: references_def set_var_def refs_to_upd)
  then show ?thesis using assms(1) by (simp add: ref_inv_def) (simp add: set_var_def)
qed

lemma ref_held_pos: "ref_inv s \<Longrightarrow> j < length (rs_vars s) \<Longrightarrow> rf_ptr (rs_vars s ! j) = Some p \<Longrightarrow> 0 < references p s"
  using refs_to_pos [of j "rs_vars s" p] by (auto simp: references_def ref_inv_def intro: add_nonneg_pos)

lemma ref_step_inv:
  assumes "ref_inv s" and "ref_allowed p s"
  shows "\<exists>s'. ref_step p s = Some s' \<and> ref_inv s'"
proof (cases p)
  case (New_object a)
  then have "references a s = 0" using assms by (auto simp: ref_inv_def split: if_splits)
  moreover have "references x (s\<lparr>rs_heap := new_object a (rs_heap s), rs_raw := (rs_raw s)(a := rs_raw s a + 1)\<rparr>)
      = references x s + of_bool (x = a)" for x by (simp add: references_def)
  ultimately show ?thesis using New_object assms(1) by (auto simp: ref_inv_def new_object_def)
next
  case (Drop_raw a)
  let ?c = "references a s"
  have raw: "0 < rs_raw s a" using Drop_raw assms(2) by simp
  then have pos: "0 < ?c" by (simp add: references_def add_pos_nonneg)
  then have h: "rs_heap s a = Some ?c" using assms(1) by (auto simp: ref_inv_def)
  let ?h = "if ?c - 1 = 0 then (rs_heap s)(a := None) else (rs_heap s)(a \<mapsto> ?c - 1)"
  let ?s = "s\<lparr>rs_heap := ?h, rs_raw := (rs_raw s)(a := rs_raw s a - 1)\<rparr>"
  have "ref_step p s = Some ?s" using Drop_raw h by (simp add: dec_ref_def delete_object_def)
  moreover have "references x ?s = references x s - of_bool (x = a)" for x by (simp add: references_def)
  then have "ref_inv ?s" using assms(1) pos raw by (auto simp: ref_inv_def)
  ultimately show ?thesis by blast
next
  case (From_ptr i a)
  then have "0 < references a s" using assms(2) by (simp add: references_def add_pos_nonneg)
  then show ?thesis using ref_share_inv [of s i "Some a"] assms From_ptr by (simp add: ref_from_ptr_def)
next
  case (Copy i j)
  then have "0 < references q s" if "rf_ptr (rs_vars s ! j) = Some q" for q
    using ref_held_pos [OF assms(1), of j q] assms(2) that by simp
  then show ?thesis using ref_share_inv [OF assms(1), of i "rf_ptr (rs_vars s ! j)"] assms(2) Copy by (simp add: ref_copy_def)
next
  case (Move_ref i j)
  then show ?thesis using ref_transfer_inv [of s i j] assms by (simp add: ref_move_def)
next
  case (Assign_copy i j)
  then obtain s1 where s1: "ref_clear i s = Some s1" "ref_inv s1" "length (rs_vars s1) = length (rs_vars s)"
    "rf_ptr (rs_vars s1 ! i) = None" using ref_clear_inv [OF assms(1), of i] assms(2) by auto
  then have "0 < references q s1" if "rf_ptr (rs_vars s1 ! j) = Some q" for q
    using ref_held_pos [OF s1(2), of j q] assms(2) that Assign_copy by simp
  then show ?thesis using ref_share_inv [OF s1(2), of i "rf_ptr (rs_vars s1 ! j)"] s1 assms(2) Assign_copy
    by (simp add: ref_assign_copy_def)
next
  case (Assign_move i j)
  then obtain s1 where s1: "ref_clear i s = Some s1" "ref_inv s1" "length (rs_vars s1) = length (rs_vars s)"
    "rf_ptr (rs_vars s1 ! i) = None" using ref_clear_inv [OF assms(1), of i] assms(2) by auto
  then show ?thesis using ref_transfer_inv [of s1 i j] assms Assign_move by (simp add: ref_assign_move_def)
next
  case (Clear i)
  then show ?thesis using ref_clear_inv [OF assms(1), of i] assms(2) by auto
qed

lemma ref_reachable_inv: "ref_reachable n s \<Longrightarrow> ref_inv s"
proof (induction rule: ref_reachable.induct)
  case start
  then show ?case by (simp add: ref_inv_def ref_init_def references_def refs_to_def)
next
  case (step s p s')
  then show ?case using ref_step_inv [of s p] by auto
qed

text \<open>An object that its creator and one of two variables refer to.\<close>

definition one_shared :: ref_state where
  "one_shared = \<lparr>rs_vars = [\<lparr>rf_ptr = Some 9\<rparr>, \<lparr>rf_ptr = None\<rparr>], rs_heap = [9 \<mapsto> 2], rs_raw = (\<lambda>p. 0)(9 := 1)\<rparr>"

lemma one_shared_reachable: "ref_reachable 2 one_shared"
proof -
  have "ref_reachable 2 \<lparr>rs_vars = [\<lparr>rf_ptr = None\<rparr>, \<lparr>rf_ptr = None\<rparr>], rs_heap = [9 \<mapsto> 1], rs_raw = (\<lambda>p. 0)(9 := 1)\<rparr>"
    by (rule step [OF start, of "New_object 9"]) (simp_all add: ref_init_def new_object_def numeral_2_eq_2)
  then show ?thesis
    by (rule step [of _ _ "From_ptr 0 9"])
      (simp_all add: one_shared_def ref_from_ptr_def ref_inc_ref_def set_var_def inc_ref_def)
qed

section \<open>Properties\<close>

text \<open>
  (C7) In every program that constructs each \<open>Ref\<close> once and uses raw pointers only while it holds
  their reference, no deleted object is ever touched, and an object is alive exactly while
  something refers to it, its count being the number of \<open>Ref\<close> variables and raw references.
\<close>

theorem refs_counted_exactly:
  assumes "ref_reachable n s"
  shows "(\<forall>op. ref_allowed op s \<longrightarrow> ref_step op s \<noteq> None) \<and>
    (\<forall>p. rs_heap s p = (if references p s = 0 then None else Some (references p s)))"
  using ref_step_inv [OF ref_reachable_inv [OF assms]] ref_reachable_inv [OF assms]
  by (fastforce simp: ref_inv_def)

theorem refs_counted_exactly_witness: "\<exists>s. ref_step (Copy 1 0) one_shared = Some s"
proof -
  from refs_counted_exactly [OF one_shared_reachable, THEN conjunct1, THEN spec, of "Copy 1 0"]
  have "ref_step (Copy 1 0) one_shared \<noteq> None" by (simp add: one_shared_def)
  then show ?thesis by blast
qed

text \<open>
  Assigning a \<open>Ref\<close> to itself, by copy or by move, gives up its reference: the variable is
  null afterwards, and the object deleted when nothing else refers to it.
\<close>

theorem self_assignment_clears:
  assumes "ref_reachable n s" and "i < length (rs_vars s)" and "rf_ptr (rs_vars s ! i) = Some p"
  shows "\<exists>s'. ref_assign_copy i i s = Some s' \<and> ref_assign_move i i s = Some s' \<and> rf_ptr (rs_vars s' ! i) = None \<and>
    (rs_heap s' p = None \<longleftrightarrow> rs_heap s p = Some 1)"
proof -
  obtain s' where s': "ref_clear i s = Some s'" "ref_inv s'" "length (rs_vars s') = length (rs_vars s)"
    "rf_ptr (rs_vars s' ! i) = None" "\<forall>j. j \<noteq> i \<longrightarrow> rs_vars s' ! j = rs_vars s ! j" "rs_raw s' = rs_raw s"
    using ref_clear_inv [OF ref_reachable_inv [OF assms(1)] assms(2)] by auto
  have same: "(rs_vars s')[i := \<lparr>rf_ptr = None\<rparr>] = rs_vars s'"
    using s'(3,4) assms(2) by (cases "rs_vars s' ! i") (simp add: list_update_same_conv)
  have vars: "rs_vars s' = (rs_vars s)[i := \<lparr>rf_ptr = None\<rparr>]"
    using same s'(3,5) by (metis list_update_beyond nth_equalityI nth_list_update_eq nth_list_update_neq length_list_update linorder_not_less)
  have "references p s' = references p s - 1"
    using assms(2,3) s'(6) by (simp add: references_def vars refs_to_upd)
  then have "rs_heap s' p = None \<longleftrightarrow> rs_heap s p = Some 1"
    using s'(2) ref_reachable_inv [OF assms(1)] by (auto simp: ref_inv_def)
  then show ?thesis using s'(1,4) same
    by (intro exI [of _ s']) (simp add: ref_assign_copy_def ref_assign_move_def ref_inc_ref_def set_var_def)
qed

theorem self_assignment_clears_witness:
  "\<exists>s. ref_assign_copy 0 0 one_shared = Some s \<and> rf_ptr (rs_vars s ! 0) = None \<and> rs_heap s 9 \<noteq> None"
proof -
  have "0 < length (rs_vars one_shared)" "rf_ptr (rs_vars one_shared ! 0) = Some 9" "rs_heap one_shared 9 = Some 2"
    by (simp_all add: one_shared_def)
  with self_assignment_clears [OF one_shared_reachable] show ?thesis by fastforce
qed

end
