(* ===== verification/Scope_Lock.thy ===== *)
theory Scope_Lock
  imports Guards
begin

text \<open>
  \<open>utils/lock/scope.h\<close>: the scoped locks. A lock is its number; an operation gives the calls of
  \<open>lock_c\<close> or \<open>unlock_c\<close> it makes. The move operations access their argument as \<open>l->m\<close> although
  it is a reference; they are read as \<open>l.m\<close>. \<open>ScopeLockMovable\<close> meets the contract of the owning
  guards, \<open>ScopeLockArgMovable\<close> does not: its destructor uses a null pointer after a move, \<open>None\<close>.
\<close>

section \<open>ScopeLock and ScopeLockArg\<close>

text \<open>Neither can be moved: one call at construction, one at destruction.\<close>

record scope_lock =
  sl_m :: nat

definition sl_new :: "nat \<Rightarrow> scope_lock \<times> nat list" where
  "sl_new m = (\<lparr>sl_m = m\<rparr>, [m])"

definition sl_destroy :: "scope_lock \<Rightarrow> nat list" where
  "sl_destroy l = [sl_m l]"

record 'a scope_lock_arg =
  sla_m :: nat
  sla_arg :: 'a

definition sla_new :: "nat \<Rightarrow> 'a \<Rightarrow> 'a scope_lock_arg \<times> (nat \<times> 'a) list" where
  "sla_new m x = (\<lparr>sla_m = m, sla_arg = x\<rparr>, [(m, x)])"

definition sla_destroy :: "'a scope_lock_arg \<Rightarrow> (nat \<times> 'a) list" where
  "sla_destroy l = [(sla_m l, sla_arg l)]"

section \<open>ScopeLockMovable\<close>

record scope_lock_movable =
  slm_m :: "nat option"

definition slm_new :: "nat \<Rightarrow> scope_lock_movable" where
  "slm_new m = \<lparr>slm_m = Some m\<rparr>"

definition slm_clear :: "scope_lock_movable \<Rightarrow> nat list" where
  "slm_clear l = (case slm_m l of None \<Rightarrow> [] | Some m \<Rightarrow> [m])"

definition slm_move :: "scope_lock_movable \<Rightarrow> scope_lock_movable \<times> scope_lock_movable" where
  "slm_move l = (\<lparr>slm_m = slm_m l\<rparr>, l\<lparr>slm_m := None\<rparr>)"

definition slm_assign ::
  "scope_lock_movable \<Rightarrow> scope_lock_movable \<Rightarrow> scope_lock_movable \<times> scope_lock_movable \<times> nat list" where
  "slm_assign this l = (this\<lparr>slm_m := slm_m l\<rparr>, l\<lparr>slm_m := None\<rparr>, slm_clear this)"

definition slm_self_assign :: "scope_lock_movable \<Rightarrow> scope_lock_movable \<times> nat list" where
  "slm_self_assign this =
     (let unlocked = slm_clear this; this1 = this\<lparr>slm_m := slm_m this\<rparr> in (this1\<lparr>slm_m := None\<rparr>, unlocked))"

text \<open>The destructor; what is left of the object counts as empty.\<close>

definition slm_destroy :: "scope_lock_movable \<Rightarrow> scope_lock_movable \<times> nat list" where
  "slm_destroy l = (l\<lparr>slm_m := None\<rparr>, slm_clear l)"

text \<open>
  As a class of guards. There is no way to take the lock out of its guard; that field is filled
  by the contract's law, and the programs below do not use it.
\<close>

definition scope_class :: "(scope_lock_movable, nat) guard_class" where
  "scope_class = \<lparr>gc_held = slm_m, gc_new = slm_new, gc_move = slm_move, gc_assign = slm_assign,
     gc_self_assign = slm_self_assign, gc_handle = (\<lambda>l. (slm_m l, l\<lparr>slm_m := None\<rparr>)), gc_destroy = slm_destroy\<rparr>"

lemmas slm_defs = scope_class_def slm_new_def slm_clear_def slm_move_def slm_assign_def
  slm_self_assign_def slm_destroy_def

interpretation scl: resource_guard scope_class
  by unfold_locales (auto simp: held_bag_def opt_list_def slm_defs split: option.splits)

lemma no_handle_no_out:
  assumes "guard_run c ps gs = Some (gs', acq, rel, out)" and "\<forall>i. Handle i \<notin> set ps"
  shows "out = []"
  using assms
proof (induction ps arbitrary: gs acq rel out)
  case (Cons p ps)
  then obtain gs1 a1 r1 o1 a2 r2 o2 where 1: "guard_step c p gs = Some (gs1, a1, r1, o1)"
    and 2: "guard_run c ps gs1 = Some (gs', a2, r2, o2)" and eq: "out = o1 @ o2"
    by (auto split: option.splits)
  have "o1 = []" using 1 Cons.prems(2) by (cases p) (auto simp: Let_def split: if_splits prod.splits)
  moreover have "o2 = []" using Cons.IH [OF 2] Cons.prems(2) by auto
  ultimately show ?case using eq by simp
qed simp

section \<open>ScopeLockArgMovable\<close>

record 'a scope_lock_arg_movable =
  sam_m :: "nat option"
  sam_arg :: 'a

definition sam_new :: "nat \<Rightarrow> 'a \<Rightarrow> 'a scope_lock_arg_movable \<times> (nat \<times> 'a) list" where
  "sam_new m x = (\<lparr>sam_m = Some m, sam_arg = x\<rparr>, [(m, x)])"

definition sam_clear :: "'a scope_lock_arg_movable \<Rightarrow> (nat \<times> 'a) list" where
  "sam_clear l = (case sam_m l of None \<Rightarrow> [] | Some m \<Rightarrow> [(m, sam_arg l)])"

definition sam_move :: "'a scope_lock_arg_movable \<Rightarrow> 'a scope_lock_arg_movable \<times> 'a scope_lock_arg_movable" where
  "sam_move l = (\<lparr>sam_m = sam_m l, sam_arg = sam_arg l\<rparr>, l\<lparr>sam_m := None\<rparr>)"

definition sam_assign ::
  "'a scope_lock_arg_movable \<Rightarrow> 'a scope_lock_arg_movable
    \<Rightarrow> 'a scope_lock_arg_movable \<times> 'a scope_lock_arg_movable \<times> (nat \<times> 'a) list" where
  "sam_assign this l = (this\<lparr>sam_m := sam_m l, sam_arg := sam_arg l\<rparr>, l\<lparr>sam_m := None\<rparr>, sam_clear this)"

text \<open>The destructor does not go through \<open>clear\<close>.\<close>

definition sam_destroy :: "'a scope_lock_arg_movable \<Rightarrow> (nat \<times> 'a) list option" where
  "sam_destroy l = (case sam_m l of None \<Rightarrow> None | Some m \<Rightarrow> Some [(m, sam_arg l)])"

section \<open>Properties\<close>

text \<open>
  Every lock taken through a \<open>ScopeLockMovable\<close> is, once each, held by one of the guards at the
  end or unlocked, whatever moves and assignments happened; and all are unlocked once all guards
  are destroyed.
\<close>

theorem scoped_locks_unlocked_once:
  assumes "\<forall>i. Handle i \<notin> set ps"
    and "guard_run scope_class ps (replicate n \<lparr>slm_m = None\<rparr>) = Some (gs, taken, unlocked, out)"
  shows "mset taken = bag scope_class gs + mset unlocked \<and>
    ((\<forall>g \<in> set gs. slm_m g = None) \<longrightarrow> mset taken = mset unlocked)"
proof -
  have empty: "bag scope_class gs = {#}" if "\<forall>g \<in> set gs. slm_m g = None" for gs
    using that by (induction gs) (simp_all add: bag_def held_bag_def opt_list_def scope_class_def)
  have "bag scope_class (replicate n \<lparr>slm_m = None\<rparr>) = {#}" by (rule empty) simp
  then have "mset taken = bag scope_class gs + mset unlocked"
    using scl.run_conserves [OF assms(2)] no_handle_no_out [OF assms(2,1)] by simp
  then show ?thesis using empty [of gs] by simp
qed

theorem scoped_locks_unlocked_once_witness:
  "\<exists>gs taken unlocked out. guard_run scope_class [Acquire 0 5, Acquire 1 6, Assign 0 1, Destroy 1, Destroy 0]
      (replicate 2 \<lparr>slm_m = None\<rparr>) = Some (gs, taken, unlocked, out) \<and> mset taken = mset unlocked \<and> unlocked = [5, 6]"
proof -
  let ?ps = "[Acquire 0 5, Acquire 1 6, Assign 0 1, Destroy 1, Destroy 0] :: nat guard_op list"
  have r: "guard_run scope_class ?ps (replicate 2 \<lparr>slm_m = None\<rparr>)
      = Some ([\<lparr>slm_m = None\<rparr>, \<lparr>slm_m = None\<rparr>], [5, 6], [5, 6], [])"
    by (simp add: slm_defs opt_list_def numeral_2_eq_2)
  have "\<forall>i. Handle i \<notin> set ?ps" by simp
  from scoped_locks_unlocked_once [OF this r] r show ?thesis by simp
qed

text \<open>
  A \<open>ScopeLockArgMovable\<close> that was moved from, by construction or assignment, cannot be
  destroyed: its destructor unlocks through the null pointer it was left with. Without a move
  the destructor unlocks what the constructor locked.
\<close>

theorem moved_arg_lock_undefined:
  "sam_destroy (snd (sam_move l)) = None \<and> sam_destroy (fst (snd (sam_assign k l))) = None \<and>
   sam_destroy (fst (sam_new m x)) = Some (snd (sam_new m x)) \<and>
   sla_destroy (fst (sla_new m x)) = snd (sla_new m x) \<and> sl_destroy (fst (sl_new m)) = snd (sl_new m)"
  by (simp add: sam_destroy_def sam_move_def sam_assign_def sam_new_def sla_destroy_def sla_new_def sl_destroy_def sl_new_def)

end
