(* ===== verification/Lock_Protocol.thy ===== *)
theory Lock_Protocol
  imports Main
begin

text \<open>
  What the futex locks of \<open>utils/lock/\<close> have in common: the states of a thread, counting the
  threads in some of them, and the contract of a lock, the locale \<open>lock_protocol\<close>: an invariant
  of the reachable states from which mutual exclusion and the absence of lost wake-ups follow.

  Threads are numbered; a step is one atomic operation of one thread, and any interleaving is
  allowed. Memory is sequentially consistent. \<open>FUTEX_WAIT\<close> puts the thread to sleep if the
  variable has the expected value and returns at once otherwise; a sleeping thread may also wake
  up by itself, by a signal or a timeout.
\<close>

section \<open>Threads\<close>

text \<open>
  \<open>Spin_look\<close> to \<open>Brute_check\<close> are used by the spinning lock only. \<open>Wait_inc\<close> to \<open>Retry\<close> carry
  the value \<open>FUTEX_WAIT\<close> expects: 1 in \<open>__lock_wait\<close>, 0 in \<open>wait\<close>. \<open>Check\<close> and \<open>Wake\<close>, the
  two parts of \<open>notify\<close>, tell whether \<open>unlock_c\<close> was called by \<open>wait\<close>.
\<close>

datatype lock_pc =
    Out
  | Hold
  | Spin_look
  | Spin_inc
  | Spin_try nat
  | Spin_dec bool
  | Wait_inc int
  | Wait_futex int
  | Asleep int
  | Wait_dec int
  | Retry int
  | Brute_check bool
  | Check bool
  | Wake bool

record lock_state =
  lk_futex_var :: int
  lk_num_futex_waiters :: int
  lk_num_brute_waiters :: int
  lk_pc :: "nat \<Rightarrow> lock_pc"

definition lock_init :: lock_state where
  "lock_init = \<lparr>lk_futex_var = 0, lk_num_futex_waiters = 0, lk_num_brute_waiters = 0, lk_pc = (\<lambda>t. Out)\<rparr>"

text \<open>Where a thread goes on after \<open>unlock_c\<close>: out, or into the sleep of \<open>wait\<close>.\<close>

definition after_unlock :: "bool \<Rightarrow> lock_pc" where
  "after_unlock waiting = (if waiting then Wait_inc 0 else Out)"

section \<open>Counting threads\<close>

definition in_pc :: "(lock_pc \<Rightarrow> bool) \<Rightarrow> (nat \<Rightarrow> lock_pc) \<Rightarrow> nat set" where
  "in_pc P pc = {t. P (pc t)}"

lemma in_pc_iff [simp]: "t \<in> in_pc P pc \<longleftrightarrow> P (pc t)"
  by (simp add: in_pc_def)

lemma in_pc_upd: "in_pc P (pc(t := x)) = (if P x then insert t (in_pc P pc) else in_pc P pc - {t})"
  by (auto simp: in_pc_def)

lemma finite_in_pc_upd [simp]: "finite (in_pc P (pc(t := x))) \<longleftrightarrow> finite (in_pc P pc)"
  by (simp add: in_pc_upd)

lemma card_in_pc_upd:
  assumes "finite (in_pc P pc)"
  shows "int (card (in_pc P (pc(t := x)))) = int (card (in_pc P pc)) - of_bool (P (pc t)) + of_bool (P x)"
proof (cases "P (pc t)")
  case True
  then have t: "t \<in> in_pc P pc" by simp
  then have "card (in_pc P pc) = Suc (card (in_pc P pc - {t}))" using assms by (rule card.remove [rotated])
  moreover have "insert t (in_pc P pc) = in_pc P pc" using t by (rule insert_absorb)
  ultimately show ?thesis using True by (cases "P x") (simp_all add: in_pc_upd)
next
  case False
  then have "t \<notin> in_pc P pc" by simp
  then show ?thesis using assms False by (cases "P x") (simp_all add: in_pc_upd)
qed

lemma card_in_pc_pos: "finite (in_pc P pc) \<Longrightarrow> P (pc t) \<Longrightarrow> 0 < card (in_pc P pc)"
  by (auto simp: card_gt_0_iff in_pc_def)

definition goto :: "nat \<Rightarrow> lock_pc \<Rightarrow> lock_state \<Rightarrow> lock_state" where
  "goto t x s = s\<lparr>lk_pc := (lk_pc s)(t := x)\<rparr>"

section \<open>Parts of the invariants\<close>

fun futex_waiting :: "lock_pc \<Rightarrow> bool" where
  "futex_waiting (Wait_futex v) = True"
| "futex_waiting (Asleep v) = True"
| "futex_waiting (Wait_dec v) = True"
| "futex_waiting _ = False"

definition one_holder :: "(lock_pc \<Rightarrow> bool) \<Rightarrow> int \<Rightarrow> (nat \<Rightarrow> lock_pc) \<Rightarrow> bool" where
  "one_holder holding var pc \<longleftrightarrow>
     (if var = 0 then \<forall>t. \<not> holding (pc t)
      else var = 1 \<and> (\<exists>t. holding (pc t)) \<and> (\<forall>t u. holding (pc t) \<and> holding (pc u) \<longrightarrow> t = u))"

definition wakes :: "(lock_pc \<Rightarrow> bool) \<Rightarrow> int \<Rightarrow> (nat \<Rightarrow> lock_pc) \<Rightarrow> bool" where
  "wakes moving var pc \<longleftrightarrow> (var = 0 \<and> (\<exists>t. pc t = Asleep 1) \<longrightarrow> (\<exists>u. moving (pc u)))"

definition counted :: "(lock_pc \<Rightarrow> bool) \<Rightarrow> int \<Rightarrow> (nat \<Rightarrow> lock_pc) \<Rightarrow> bool" where
  "counted P n pc \<longleftrightarrow> finite (in_pc P pc) \<and> n = int (card (in_pc P pc))"

text \<open>How one thread's move changes the three parts.\<close>

lemma counted_upd: "counted P n pc \<Longrightarrow> n' = n - of_bool (P (pc t)) + of_bool (P x) \<Longrightarrow> counted P n' (pc(t := x))"
  by (simp add: counted_def card_in_pc_upd)

lemma counted_pos: "counted P n pc \<Longrightarrow> P (pc t) \<Longrightarrow> 0 < n"
  by (auto simp: counted_def dest: card_in_pc_pos)

lemma one_holder_keep:
  "one_holder h var pc \<Longrightarrow> h (pc t) = h x \<Longrightarrow> one_holder h var (pc(t := x))"
  unfolding one_holder_def fun_upd_def by (auto split: if_splits)

lemma one_holder_take: "one_holder h 0 pc \<Longrightarrow> h x \<Longrightarrow> one_holder h 1 (pc(t := x))"
  by (auto simp: one_holder_def)

lemma one_holder_release: "one_holder h var pc \<Longrightarrow> h (pc t) \<Longrightarrow> \<not> h x \<Longrightarrow> one_holder h 0 (pc(t := x))"
  by (auto simp: one_holder_def split: if_splits)

lemma one_holder_var: "one_holder h var pc \<Longrightarrow> h (pc t) \<Longrightarrow> var = 1"
  by (auto simp: one_holder_def split: if_splits)

lemma one_holder_cases: "one_holder h var pc \<Longrightarrow> var = 0 \<or> var = 1"
  by (auto simp: one_holder_def split: if_splits)

lemma wakes_taken: "var \<noteq> 0 \<Longrightarrow> wakes m var pc"
  by (simp add: wakes_def)

lemma wakes_mover: "m x \<Longrightarrow> wakes m var (pc(t := x))"
  by (auto simp: wakes_def)

lemma wakes_keep: "wakes m var pc \<Longrightarrow> \<not> m (pc t) \<Longrightarrow> x \<noteq> Asleep 1 \<Longrightarrow> wakes m var (pc(t := x))"
  unfolding wakes_def fun_upd_def by (auto split: if_splits)

lemma wakes_other: "m (pc u) \<Longrightarrow> u \<noteq> t \<Longrightarrow> wakes m var (pc(t := x))"
  by (auto simp: wakes_def)

lemma wakes_none: "(\<forall>u. pc u \<noteq> Asleep 1) \<Longrightarrow> x \<noteq> Asleep 1 \<Longrightarrow> wakes m var (pc(t := x))"
  by (auto simp: wakes_def)

lemma counted_none: "counted futex_waiting 0 pc \<Longrightarrow> pc u \<noteq> Asleep v"
  using counted_pos [of futex_waiting 0 pc u] by auto

lemma counted_nonzero: "counted P n pc \<Longrightarrow> n \<noteq> 0 \<Longrightarrow> \<exists>u. P (pc u)"
  by (auto simp: counted_def in_pc_def card_gt_0_iff dest: card_eq_0_iff [THEN iffD2])

text \<open>After \<open>unlock_c\<close> a thread is no mover.\<close>

lemma after_unlock_simps [simp]:
  "\<not> futex_waiting (after_unlock w)" "after_unlock w \<noteq> Asleep v" "after_unlock w \<noteq> Hold"
  by (simp_all add: after_unlock_def)

section \<open>The contract of a lock\<close>

text \<open>
  \<open>movers\<close> are the threads on their way to take a free lock or to wake another one up. The
  assumptions are what a lock implementation proves once about its steps.
\<close>

locale lock_protocol =
  fixes step :: "lock_state \<Rightarrow> lock_state \<Rightarrow> bool"
    and holding :: "lock_pc \<Rightarrow> bool"
    and moving :: "lock_pc \<Rightarrow> bool"
    and inv :: "lock_state \<Rightarrow> bool"
  assumes inv_init: "inv lock_init"
    and inv_step: "inv s \<Longrightarrow> step s s' \<Longrightarrow> inv s'"
    and inv_unique: "inv s \<Longrightarrow> holding (lk_pc s t) \<Longrightarrow> holding (lk_pc s u) \<Longrightarrow> t = u"
    and inv_held: "inv s \<Longrightarrow> lk_futex_var s \<noteq> 0 \<longleftrightarrow> (\<exists>t. holding (lk_pc s t))"
    and inv_wake: "inv s \<Longrightarrow> lk_futex_var s = 0 \<Longrightarrow> lk_pc s t = Asleep 1 \<Longrightarrow> \<exists>u. moving (lk_pc s u)"
begin

lemma reachable_inv: "step\<^sup>*\<^sup>* lock_init s \<Longrightarrow> inv s"
  by (induction rule: rtranclp_induct) (auto intro: inv_init inv_step)

lemma mutual_exclusion:
  "step\<^sup>*\<^sup>* lock_init s \<Longrightarrow> holding (lk_pc s t) \<Longrightarrow> holding (lk_pc s u) \<Longrightarrow> t = u"
  using inv_unique [OF reachable_inv] .

lemma taken_iff_held: "step\<^sup>*\<^sup>* lock_init s \<Longrightarrow> lk_futex_var s \<noteq> 0 \<longleftrightarrow> (\<exists>t. holding (lk_pc s t))"
  using inv_held [OF reachable_inv] .

lemma no_lost_wakeup:
  "step\<^sup>*\<^sup>* lock_init s \<Longrightarrow> lk_pc s t = Asleep 1 \<Longrightarrow> \<exists>u. holding (lk_pc s u) \<or> moving (lk_pc s u)"
  using inv_wake [OF reachable_inv] taken_iff_held by blast

end

end
