(* ===== verification/Lock_Simple.thy ===== *)
theory Lock_Simple
  imports Lock_Protocol
begin

text \<open>
  \<open>utils/lock/simple.h\<close>: \<open>LockObjectSimple\<close>, with the atomic operations of \<open>utils/lock/ops.h\<close>, as
  a step relation. Each rule is one atomic operation of \<open>lock_c\<close>, \<open>unlock_c\<close>, \<open>wait\<close> or
  \<open>notify\<close>; the timed sleep and a \<open>notify\<close> from outside are covered by the rule \<open>woken\<close>.
\<close>

section \<open>Steps\<close>

text \<open>\<open>atomic_try_lock\<close> stores 1 and succeeds when the variable was 0; \<open>atomic_release\<close> stores 0.\<close>

inductive simple_step :: "lock_state \<Rightarrow> lock_state \<Rightarrow> bool" where
  lock_ok: "lk_pc s t = Out \<Longrightarrow> lk_futex_var s = 0 \<Longrightarrow>
    simple_step s ((goto t Hold s)\<lparr>lk_futex_var := 1\<rparr>)"
| lock_busy: "lk_pc s t = Out \<Longrightarrow> lk_futex_var s \<noteq> 0 \<Longrightarrow> simple_step s (goto t (Wait_inc 1) s)"
| wait_inc: "lk_pc s t = Wait_inc v \<Longrightarrow>
    simple_step s ((goto t (Wait_futex v) s)\<lparr>lk_num_futex_waiters := lk_num_futex_waiters s + 1\<rparr>)"
| futex_sleep: "lk_pc s t = Wait_futex v \<Longrightarrow> lk_futex_var s = v \<Longrightarrow> simple_step s (goto t (Asleep v) s)"
| futex_again: "lk_pc s t = Wait_futex v \<Longrightarrow> lk_futex_var s \<noteq> v \<Longrightarrow> simple_step s (goto t (Wait_dec v) s)"
| woken: "lk_pc s t = Asleep v \<Longrightarrow> simple_step s (goto t (Wait_dec v) s)"
| wait_dec: "lk_pc s t = Wait_dec v \<Longrightarrow>
    simple_step s ((goto t (Retry v) s)\<lparr>lk_num_futex_waiters := lk_num_futex_waiters s - 1\<rparr>)"
| retry_ok: "lk_pc s t = Retry v \<Longrightarrow> lk_futex_var s = 0 \<Longrightarrow>
    simple_step s ((goto t Hold s)\<lparr>lk_futex_var := 1\<rparr>)"
| retry_busy: "lk_pc s t = Retry v \<Longrightarrow> lk_futex_var s \<noteq> 0 \<Longrightarrow> simple_step s (goto t (Wait_inc 1) s)"
| release: "lk_pc s t = Hold \<Longrightarrow> simple_step s ((goto t (Check w) s)\<lparr>lk_futex_var := 0\<rparr>)"
| check_none: "lk_pc s t = Check w \<Longrightarrow> lk_num_futex_waiters s = 0 \<Longrightarrow> simple_step s (goto t (after_unlock w) s)"
| check_some: "lk_pc s t = Check w \<Longrightarrow> lk_num_futex_waiters s \<noteq> 0 \<Longrightarrow> simple_step s (goto t (Wake w) s)"
| wake_one: "lk_pc s t = Wake w \<Longrightarrow> lk_pc s u = Asleep v \<Longrightarrow>
    simple_step s (goto t (after_unlock w) (goto u (Wait_dec v) s))"
| wake_none: "lk_pc s t = Wake w \<Longrightarrow> (\<forall>u v. lk_pc s u \<noteq> Asleep v) \<Longrightarrow> simple_step s (goto t (after_unlock w) s)"

inductive_cases simple_stepE: "simple_step s s'"

section \<open>The invariant\<close>

fun simple_moving :: "lock_pc \<Rightarrow> bool" where
  "simple_moving (Check w) = True"
| "simple_moving (Wake w) = True"
| "simple_moving (Wait_dec v) = True"
| "simple_moving (Retry v) = True"
| "simple_moving _ = False"

definition is_hold :: "lock_pc \<Rightarrow> bool" where
  "is_hold p \<longleftrightarrow> p = Hold"

definition simple_inv :: "lock_state \<Rightarrow> bool" where
  "simple_inv s \<longleftrightarrow> counted futex_waiting (lk_num_futex_waiters s) (lk_pc s) \<and>
     one_holder is_hold (lk_futex_var s) (lk_pc s) \<and> wakes simple_moving (lk_futex_var s) (lk_pc s)"

text \<open>A step keeps each part of the invariant; only the wake-ups need an argument.\<close>

lemma simple_counted_step:
  assumes "simple_step s s'" and "counted futex_waiting (lk_num_futex_waiters s) (lk_pc s)"
  shows "counted futex_waiting (lk_num_futex_waiters s') (lk_pc s')"
  using assms by cases (auto simp: goto_def intro!: counted_upd)

lemma simple_holder_step:
  assumes "simple_step s s'" and "one_holder is_hold (lk_futex_var s) (lk_pc s)"
  shows "one_holder is_hold (lk_futex_var s') (lk_pc s')"
  using assms(1)
proof cases
  case (wake_one t w u v)
  then show ?thesis using assms(2)
    by (cases "t = u") (auto simp: goto_def is_hold_def intro!: one_holder_keep)
qed (use assms(2) in \<open>auto simp: goto_def is_hold_def intro: one_holder_keep one_holder_take one_holder_release\<close>)

lemma simple_wakes_step:
  assumes "simple_step s s'" and "simple_inv s"
  shows "wakes simple_moving (lk_futex_var s') (lk_pc s')"
proof -
  have c: "counted futex_waiting (lk_num_futex_waiters s) (lk_pc s)"
    and w: "wakes simple_moving (lk_futex_var s) (lk_pc s)" using assms(2) by (simp_all add: simple_inv_def)
  show ?thesis
    using assms(1)
  proof cases
    case (futex_sleep t v)
    then show ?thesis using w by (cases "v = 1") (auto simp: goto_def intro: wakes_taken wakes_keep)
  next
    case (check_none t b)
    then show ?thesis using counted_none [of "lk_pc s"] c by (auto simp: goto_def intro!: wakes_none)
  next
    case (wake_one t b u v)
    then show ?thesis by (auto simp: goto_def intro!: wakes_other)
  qed (use w in \<open>auto simp: goto_def intro: wakes_taken wakes_keep wakes_mover wakes_none\<close>)
qed

lemma simple_inv_step: "simple_inv s \<Longrightarrow> simple_step s s' \<Longrightarrow> simple_inv s'"
  using simple_counted_step simple_holder_step simple_wakes_step by (auto simp: simple_inv_def)

lemma simple_inv_init: "simple_inv lock_init"
  by (auto simp: simple_inv_def lock_init_def counted_def in_pc_def one_holder_def is_hold_def wakes_def)

interpretation simple: lock_protocol simple_step is_hold simple_moving simple_inv
proof
  show "simple_inv lock_init" by (rule simple_inv_init)
  show "simple_inv s \<Longrightarrow> simple_step s s' \<Longrightarrow> simple_inv s'" for s s' by (rule simple_inv_step)
  show "t = u" if "simple_inv s" "is_hold (lk_pc s t)" "is_hold (lk_pc s u)" for s t u
    using that by (auto simp: simple_inv_def one_holder_def split: if_splits)
  show "lk_futex_var s \<noteq> 0 \<longleftrightarrow> (\<exists>t. is_hold (lk_pc s t))" if "simple_inv s" for s
    using that by (auto simp: simple_inv_def one_holder_def split: if_splits)
  show "\<exists>u. simple_moving (lk_pc s u)" if "simple_inv s" "lk_futex_var s = 0" "lk_pc s t = Asleep 1" for s t
    using that by (auto simp: simple_inv_def wakes_def)
qed

section \<open>Properties\<close>

text \<open>
  \<open>LockObjectSimple\<close> is a lock: in every interleaving of \<open>lock_c\<close>, \<open>unlock_c\<close>, \<open>wait\<close>, wake-ups
  and spurious returns, at most one thread holds it, and the variable is set exactly while one
  does.
\<close>

theorem simple_lock_excludes:
  assumes "simple_step\<^sup>*\<^sup>* lock_init s"
  shows "(lk_pc s t = Hold \<and> lk_pc s u = Hold \<longrightarrow> t = u) \<and>
    (lk_futex_var s \<noteq> 0 \<longleftrightarrow> (\<exists>t. lk_pc s t = Hold))"
  using simple.mutual_exclusion [OF assms, of t u] simple.taken_iff_held [OF assms]
  by (simp add: is_hold_def)

text \<open>Thread 0 holds the lock and thread 1 sleeps for it.\<close>

definition one_sleeps :: lock_state where
  "one_sleeps = \<lparr>lk_futex_var = 1, lk_num_futex_waiters = 1, lk_num_brute_waiters = 0,
     lk_pc = (\<lambda>t. Out)(0 := Hold, 1 := Asleep 1)\<rparr>"

lemma simple_example: "simple_step\<^sup>*\<^sup>* lock_init one_sleeps"
proof -
  let ?s1 = "(goto 0 Hold lock_init)\<lparr>lk_futex_var := 1\<rparr>"
  let ?s2 = "goto 1 (Wait_inc 1) ?s1"
  let ?s3 = "(goto 1 (Wait_futex 1) ?s2)\<lparr>lk_num_futex_waiters := 1\<rparr>"
  have 1: "simple_step lock_init ?s1" by (rule lock_ok) (simp_all add: lock_init_def)
  have 2: "simple_step ?s1 ?s2" by (rule lock_busy) (simp_all add: lock_init_def goto_def)
  have 3: "simple_step ?s2 ?s3" using wait_inc [of ?s2 1 1] by (simp add: goto_def lock_init_def)
  have 4: "simple_step ?s3 (goto 1 (Asleep 1) ?s3)"
    by (rule futex_sleep) (simp_all add: goto_def lock_init_def)
  have "simple_step\<^sup>*\<^sup>* lock_init (goto 1 (Asleep 1) ?s3)"
    by (rule rtranclp.rtrancl_into_rtrancl [OF rtranclp.rtrancl_into_rtrancl
      [OF rtranclp.rtrancl_into_rtrancl [OF r_into_rtranclp [of simple_step, OF 1] 2] 3] 4])
  moreover have "goto 1 (Asleep 1) ?s3 = one_sleeps"
    by (simp add: goto_def lock_init_def one_sleeps_def)
  ultimately show ?thesis by simp
qed

theorem simple_lock_excludes_witness: "lk_futex_var one_sleeps \<noteq> 0 \<and> (\<exists>t. lk_pc one_sleeps t = Hold)"
proof -
  have "lk_futex_var one_sleeps \<noteq> 0" by (simp add: one_sleeps_def)
  with simple_lock_excludes [OF simple_example] show ?thesis by blast
qed

text \<open>
  No wake-up is lost: while a thread sleeps for \<open>LockObjectSimple\<close>, another one holds the
  lock, is about to notify, or is awake and about to try to take it.
\<close>

theorem simple_lock_wakes:
  assumes "simple_step\<^sup>*\<^sup>* lock_init s" and "lk_pc s t = Asleep 1"
  shows "\<exists>u. lk_pc s u = Hold \<or> (\<exists>w. lk_pc s u = Check w \<or> lk_pc s u = Wake w) \<or>
    (\<exists>v. lk_pc s u = Wait_dec v \<or> lk_pc s u = Retry v)"
proof -
  obtain u where "is_hold (lk_pc s u) \<or> simple_moving (lk_pc s u)"
    using simple.no_lost_wakeup [OF assms] by blast
  then show ?thesis by (intro exI [of _ u]) (cases "lk_pc s u"; simp add: is_hold_def)
qed

theorem simple_lock_wakes_witness: "\<exists>u. u \<noteq> 1 \<and> lk_pc one_sleeps u = Hold"
proof -
  have "lk_pc one_sleeps 1 = Asleep 1" by (simp add: one_sleeps_def)
  from simple_lock_wakes [OF simple_example this] show ?thesis
    by (auto simp: one_sleeps_def split: if_splits)
qed

end
