(* ===== verification/Lock_Brute.thy ===== *)
theory Lock_Brute
  imports Lock_Protocol
begin

text \<open>
  \<open>utils/lock/brute.h\<close>: \<open>LockObjectBrute<24, 1>\<close>, which spins for a while before it sleeps and
  whose \<open>unlock_c\<close> does not notify while another thread spins. The step relation has one rule
  per atomic operation; the read of \<open>num_brute_waiters\<close> and what it leads to are separate.
\<close>

section \<open>Steps\<close>

definition BRUTE_WAIT_LIMIT :: nat where
  "BRUTE_WAIT_LIMIT = 24"

definition BRUTE_WAITERS_COUNT :: int where
  "BRUTE_WAITERS_COUNT = 1"

inductive brute_step :: "lock_state \<Rightarrow> lock_state \<Rightarrow> bool" where
  lock_ok: "lk_pc s t = Out \<Longrightarrow> lk_futex_var s = 0 \<Longrightarrow>
    brute_step s ((goto t Hold s)\<lparr>lk_futex_var := 1\<rparr>)"
| lock_busy: "lk_pc s t = Out \<Longrightarrow> lk_futex_var s \<noteq> 0 \<Longrightarrow> brute_step s (goto t Spin_look s)"
| look_spin: "lk_pc s t = Spin_look \<Longrightarrow> lk_num_brute_waiters s < BRUTE_WAITERS_COUNT \<Longrightarrow>
    brute_step s (goto t Spin_inc s)"
| look_sleep: "lk_pc s t = Spin_look \<Longrightarrow> \<not> lk_num_brute_waiters s < BRUTE_WAITERS_COUNT \<Longrightarrow>
    brute_step s (goto t (Wait_inc 1) s)"
| spin_inc: "lk_pc s t = Spin_inc \<Longrightarrow>
    brute_step s ((goto t (Spin_try BRUTE_WAIT_LIMIT) s)\<lparr>lk_num_brute_waiters := lk_num_brute_waiters s + 1\<rparr>)"
| spin_ok: "lk_pc s t = Spin_try k \<Longrightarrow> lk_futex_var s = 0 \<Longrightarrow>
    brute_step s ((goto t (Spin_dec True) s)\<lparr>lk_futex_var := 1\<rparr>)"
| spin_busy: "lk_pc s t = Spin_try k \<Longrightarrow> lk_futex_var s \<noteq> 0 \<Longrightarrow>
    brute_step s (goto t (if k - 1 = 0 then Spin_dec False else Spin_try (k - 1)) s)"
| spin_dec: "lk_pc s t = Spin_dec got \<Longrightarrow>
    brute_step s ((goto t (if got then Hold else Wait_inc 1) s)
      \<lparr>lk_num_brute_waiters := lk_num_brute_waiters s - 1\<rparr>)"
| wait_inc: "lk_pc s t = Wait_inc v \<Longrightarrow>
    brute_step s ((goto t (Wait_futex v) s)\<lparr>lk_num_futex_waiters := lk_num_futex_waiters s + 1\<rparr>)"
| futex_sleep: "lk_pc s t = Wait_futex v \<Longrightarrow> lk_futex_var s = v \<Longrightarrow> brute_step s (goto t (Asleep v) s)"
| futex_again: "lk_pc s t = Wait_futex v \<Longrightarrow> lk_futex_var s \<noteq> v \<Longrightarrow> brute_step s (goto t (Wait_dec v) s)"
| woken: "lk_pc s t = Asleep v \<Longrightarrow> brute_step s (goto t (Wait_dec v) s)"
| wait_dec: "lk_pc s t = Wait_dec v \<Longrightarrow>
    brute_step s ((goto t (Retry v) s)\<lparr>lk_num_futex_waiters := lk_num_futex_waiters s - 1\<rparr>)"
| retry_ok: "lk_pc s t = Retry v \<Longrightarrow> lk_futex_var s = 0 \<Longrightarrow>
    brute_step s ((goto t Hold s)\<lparr>lk_futex_var := 1\<rparr>)"
| retry_busy: "lk_pc s t = Retry v \<Longrightarrow> lk_futex_var s \<noteq> 0 \<Longrightarrow>
    brute_step s (goto t (if v = 1 then Wait_inc 1 else Spin_look) s)"
| release: "lk_pc s t = Hold \<Longrightarrow> brute_step s ((goto t (Brute_check w) s)\<lparr>lk_futex_var := 0\<rparr>)"
| skip_notify: "lk_pc s t = Brute_check w \<Longrightarrow> lk_num_brute_waiters s \<noteq> 0 \<Longrightarrow>
    brute_step s (goto t (after_unlock w) s)"
| do_notify: "lk_pc s t = Brute_check w \<Longrightarrow> lk_num_brute_waiters s = 0 \<Longrightarrow> brute_step s (goto t (Check w) s)"
| check_none: "lk_pc s t = Check w \<Longrightarrow> lk_num_futex_waiters s = 0 \<Longrightarrow> brute_step s (goto t (after_unlock w) s)"
| check_some: "lk_pc s t = Check w \<Longrightarrow> lk_num_futex_waiters s \<noteq> 0 \<Longrightarrow> brute_step s (goto t (Wake w) s)"
| wake_one: "lk_pc s t = Wake w \<Longrightarrow> lk_pc s u = Asleep v \<Longrightarrow>
    brute_step s (goto t (after_unlock w) (goto u (Wait_dec v) s))"
| wake_none: "lk_pc s t = Wake w \<Longrightarrow> (\<forall>u v. lk_pc s u \<noteq> Asleep v) \<Longrightarrow> brute_step s (goto t (after_unlock w) s)"

section \<open>The invariant\<close>

fun spinning :: "lock_pc \<Rightarrow> bool" where
  "spinning (Spin_try k) = True"
| "spinning (Spin_dec got) = True"
| "spinning _ = False"

text \<open>A thread that got the lock by spinning holds it before it has left the spin.\<close>

fun brute_holding :: "lock_pc \<Rightarrow> bool" where
  "brute_holding Hold = True"
| "brute_holding (Spin_dec got) = got"
| "brute_holding _ = False"

fun brute_moving :: "lock_pc \<Rightarrow> bool" where
  "brute_moving (Spin_try k) = True"
| "brute_moving (Spin_dec got) = (\<not> got)"
| "brute_moving (Wait_inc v) = (v = 1)"
| "brute_moving (Wait_futex v) = (v = 1)"
| "brute_moving (Wait_dec v) = True"
| "brute_moving (Retry v) = True"
| "brute_moving (Brute_check w) = True"
| "brute_moving (Check w) = True"
| "brute_moving (Wake w) = True"
| "brute_moving _ = False"

definition brute_inv :: "lock_state \<Rightarrow> bool" where
  "brute_inv s \<longleftrightarrow> counted futex_waiting (lk_num_futex_waiters s) (lk_pc s) \<and>
     counted spinning (lk_num_brute_waiters s) (lk_pc s) \<and>
     one_holder brute_holding (lk_futex_var s) (lk_pc s) \<and> wakes brute_moving (lk_futex_var s) (lk_pc s)"

lemma brute_after_unlock [simp]: "\<not> spinning (after_unlock w)" "\<not> brute_holding (after_unlock w)"
  by (simp_all add: after_unlock_def)

text \<open>A step keeps each part of the invariant; only the wake-ups need an argument.\<close>

lemma brute_counted_step:
  assumes "brute_step s s'"
  shows "counted futex_waiting (lk_num_futex_waiters s) (lk_pc s) \<Longrightarrow>
      counted futex_waiting (lk_num_futex_waiters s') (lk_pc s')"
    and "counted spinning (lk_num_brute_waiters s) (lk_pc s) \<Longrightarrow>
      counted spinning (lk_num_brute_waiters s') (lk_pc s')"
  using assms by (cases; auto simp: goto_def intro!: counted_upd)+

lemma brute_holder_step:
  assumes "brute_step s s'" and "one_holder brute_holding (lk_futex_var s) (lk_pc s)"
  shows "one_holder brute_holding (lk_futex_var s') (lk_pc s')"
  using assms(1)
proof cases
  case (wake_one t w u v)
  then show ?thesis using assms(2)
    by (cases "t = u") (auto simp: goto_def intro!: one_holder_keep)
qed (use assms(2) in \<open>auto simp: goto_def intro: one_holder_keep one_holder_take one_holder_release\<close>)

text \<open>A thread that spins has the lock already or is on its way to take it.\<close>

lemma spinner_moves:
  assumes "one_holder brute_holding var pc" and "spinning (pc u)" and "u \<noteq> t"
  shows "wakes brute_moving var (pc(t := x))"
proof (cases "var = 0")
  case True
  then have "\<not> brute_holding (pc u)" using assms(1) by (simp add: one_holder_def)
  then have "brute_moving (pc u)" using assms(2) by (cases "pc u") auto
  then show ?thesis using assms(3) by (rule wakes_other)
qed (simp add: wakes_taken)

lemma brute_wakes_step:
  assumes "brute_step s s'" and "brute_inv s"
  shows "wakes brute_moving (lk_futex_var s') (lk_pc s')"
proof -
  have c: "counted futex_waiting (lk_num_futex_waiters s) (lk_pc s)"
    and b: "counted spinning (lk_num_brute_waiters s) (lk_pc s)"
    and h: "one_holder brute_holding (lk_futex_var s) (lk_pc s)"
    and w: "wakes brute_moving (lk_futex_var s) (lk_pc s)" using assms(2) by (simp_all add: brute_inv_def)
  show ?thesis
    using assms(1)
  proof cases
    case (spin_dec t got)
    then show ?thesis using one_holder_var [OF h, of t]
      by (cases got) (auto simp: goto_def intro: wakes_taken wakes_mover)
  next
    case (wait_inc t v)
    then show ?thesis using w by (cases "v = 1") (auto simp: goto_def intro: wakes_mover wakes_keep)
  next
    case (futex_sleep t v)
    then show ?thesis using w by (cases "v = 1") (auto simp: goto_def intro: wakes_taken wakes_keep)
  next
    case (skip_notify t n)
    obtain u where "spinning (lk_pc s u)" using counted_nonzero [OF b] skip_notify by blast
    moreover from this have "u \<noteq> t" using skip_notify by auto
    ultimately show ?thesis using spinner_moves [OF h] skip_notify by (simp add: goto_def)
  next
    case (check_none t n)
    then show ?thesis using counted_none [of "lk_pc s"] c by (auto simp: goto_def intro!: wakes_none)
  next
    case (wake_one t n u v)
    then show ?thesis by (auto simp: goto_def intro!: wakes_other)
  qed (use w in \<open>auto simp: goto_def intro: wakes_taken wakes_keep wakes_mover wakes_none\<close>)
qed

lemma brute_inv_step: "brute_inv s \<Longrightarrow> brute_step s s' \<Longrightarrow> brute_inv s'"
  using brute_counted_step brute_holder_step brute_wakes_step by (auto simp: brute_inv_def)

lemma brute_inv_init: "brute_inv lock_init"
  by (auto simp: brute_inv_def lock_init_def counted_def in_pc_def one_holder_def wakes_def)

interpretation brute: lock_protocol brute_step brute_holding brute_moving brute_inv
proof
  show "brute_inv lock_init" by (rule brute_inv_init)
  show "brute_inv s \<Longrightarrow> brute_step s s' \<Longrightarrow> brute_inv s'" for s s' by (rule brute_inv_step)
  show "t = u" if "brute_inv s" "brute_holding (lk_pc s t)" "brute_holding (lk_pc s u)" for s t u
    using that by (auto simp: brute_inv_def one_holder_def split: if_splits)
  show "lk_futex_var s \<noteq> 0 \<longleftrightarrow> (\<exists>t. brute_holding (lk_pc s t))" if "brute_inv s" for s
    using that by (auto simp: brute_inv_def one_holder_def split: if_splits)
  show "\<exists>u. brute_moving (lk_pc s u)" if "brute_inv s" "lk_futex_var s = 0" "lk_pc s t = Asleep 1" for s t
    using that by (auto simp: brute_inv_def wakes_def)
qed

section \<open>Properties\<close>



end
