(* ===== verification/Lock_Pthread.thy ===== *)
theory Lock_Pthread
  imports Main
begin

text \<open>
  \<open>utils/lock/pthread.h\<close>: \<open>LockObjectPthread\<close>, the lock of builds with \<open>USE_PTHREAD\<close>, as a step
  relation. The mutex is its owner; \<open>pthread_cond_signal\<close> unblocks at least one of the waiting
  threads, as POSIX says, and a waiting thread may wake up without it.
\<close>

section \<open>Steps\<close>

text \<open>
  Where a thread is: outside, holding the lock, waiting for the condition, waiting for the mutex
  after it, or inside \<open>locked\<close> with the mutex it tried.
\<close>

datatype pt_pc = Pt_out | Pt_hold | Pt_waiting | Pt_relock | Pt_probe

record pt_state =
  pt_owner :: "nat option"
  pt_pc :: "nat \<Rightarrow> pt_pc"

definition pt_init :: pt_state where
  "pt_init = \<lparr>pt_owner = None, pt_pc = (\<lambda>t. Pt_out)\<rparr>"

datatype pt_label =
    Lock_c nat
  | Unlock_c nat
  | Wait nat
  | Woken nat
  | Relock nat
  | Notify "nat set"
  | Notify_all "nat set"
  | Locked_try nat
  | Locked_answer nat bool

definition pt_set :: "nat option \<Rightarrow> nat \<Rightarrow> pt_pc \<Rightarrow> pt_state \<Rightarrow> pt_state" where
  "pt_set owner t pc s = s\<lparr>pt_owner := owner, pt_pc := (pt_pc s)(t := pc)\<rparr>"

definition pt_waiters :: "pt_state \<Rightarrow> nat set" where
  "pt_waiters s = {t. pt_pc s t = Pt_waiting}"

text \<open>What \<open>pthread_cond_signal\<close> may wake, and the state after it woke them.\<close>

definition cond_signal :: "nat set \<Rightarrow> pt_state \<Rightarrow> bool" where
  "cond_signal ws s \<longleftrightarrow> ws \<subseteq> pt_waiters s \<and> (pt_waiters s \<noteq> {} \<longrightarrow> ws \<noteq> {})"

definition pt_wake :: "nat set \<Rightarrow> pt_state \<Rightarrow> pt_state" where
  "pt_wake ws s = s\<lparr>pt_pc := (\<lambda>t. if t \<in> ws then Pt_relock else pt_pc s t)\<rparr>"

text \<open>\<open>notify\<close> and \<open>notifyAll\<close> make the same call.\<close>

inductive pthread_step :: "pt_label \<Rightarrow> pt_state \<Rightarrow> pt_state \<Rightarrow> bool" where
  lock_c: "pt_pc s t = Pt_out \<Longrightarrow> pt_owner s = None \<Longrightarrow> pthread_step (Lock_c t) s (pt_set (Some t) t Pt_hold s)"
| unlock_c: "pt_pc s t = Pt_hold \<Longrightarrow> pthread_step (Unlock_c t) s (pt_set None t Pt_out s)"
| wait: "pt_pc s t = Pt_hold \<Longrightarrow> pthread_step (Wait t) s (pt_set None t Pt_waiting s)"
| woken: "pt_pc s t = Pt_waiting \<Longrightarrow> pthread_step (Woken t) s (pt_wake {t} s)"
| relock: "pt_pc s t = Pt_relock \<Longrightarrow> pt_owner s = None \<Longrightarrow> pthread_step (Relock t) s (pt_set (Some t) t Pt_hold s)"
| notify: "cond_signal ws s \<Longrightarrow> pthread_step (Notify ws) s (pt_wake ws s)"
| notify_all: "cond_signal ws s \<Longrightarrow> pthread_step (Notify_all ws) s (pt_wake ws s)"
| locked_try: "pt_pc s t = Pt_out \<Longrightarrow> pt_owner s = None \<Longrightarrow>
    pthread_step (Locked_try t) s (pt_set (Some t) t Pt_probe s)"
| locked_free: "pt_pc s t = Pt_probe \<Longrightarrow> pthread_step (Locked_answer t False) s (pt_set None t Pt_out s)"
| locked_busy: "pt_pc s t \<in> {Pt_out, Pt_hold} \<Longrightarrow> pt_owner s \<noteq> None \<Longrightarrow> pthread_step (Locked_answer t True) s s"

inductive_cases locked_answerE: "pthread_step (Locked_answer t b) s s'"

inductive pthread_reachable :: "pt_state \<Rightarrow> bool" where
  start: "pthread_reachable pt_init"
| step: "pthread_reachable s \<Longrightarrow> pthread_step l s s' \<Longrightarrow> pthread_reachable s'"

section \<open>The owner\<close>

definition pt_inside :: "pt_state \<Rightarrow> nat \<Rightarrow> bool" where
  "pt_inside s t \<longleftrightarrow> pt_pc s t \<in> {Pt_hold, Pt_probe}"

definition pt_inv :: "pt_state \<Rightarrow> bool" where
  "pt_inv s \<longleftrightarrow> (\<forall>t. pt_inside s t \<longleftrightarrow> pt_owner s = Some t)"

lemma pt_take_inv: "pt_inv s \<Longrightarrow> pt_owner s = None \<Longrightarrow> pc \<in> {Pt_hold, Pt_probe} \<Longrightarrow> pt_inv (pt_set (Some t) t pc s)"
  unfolding pt_inv_def pt_inside_def pt_set_def by simp

lemma pt_leave_inv: "pt_inv s \<Longrightarrow> pt_inside s t \<Longrightarrow> pc \<notin> {Pt_hold, Pt_probe} \<Longrightarrow> pt_inv (pt_set None t pc s)"
  unfolding pt_inv_def pt_inside_def pt_set_def by auto

lemma pt_wake_inv: "pt_inv s \<Longrightarrow> ws \<subseteq> pt_waiters s \<Longrightarrow> pt_inv (pt_wake ws s)"
proof -
  assume inv: "pt_inv s" and "ws \<subseteq> pt_waiters s"
  then have w: "pt_pc s t = Pt_waiting" if "t \<in> ws" for t using that by (auto simp: pt_waiters_def)
  have "pt_inside (pt_wake ws s) t \<longleftrightarrow> pt_owner (pt_wake ws s) = Some t" for t
  proof (cases "t \<in> ws")
    case True
    then have "\<not> pt_inside s t" using w by (simp add: pt_inside_def)
    then show ?thesis using inv True by (simp add: pt_inv_def pt_wake_def) (simp add: pt_inside_def)
  next
    case False
    then show ?thesis using inv by (simp add: pt_inv_def pt_wake_def) (simp add: pt_inside_def)
  qed
  then show ?thesis by (simp add: pt_inv_def)
qed

lemma pthread_step_inv: "pthread_step l s s' \<Longrightarrow> pt_inv s \<Longrightarrow> pt_inv s'"
proof (induction rule: pthread_step.induct)
  case (woken s t)
  then show ?case by (intro pt_wake_inv) (simp_all add: pt_waiters_def)
qed (auto intro: pt_take_inv pt_leave_inv pt_wake_inv simp: pt_inside_def cond_signal_def)

lemma pthread_reachable_inv: "pthread_reachable s \<Longrightarrow> pt_inv s"
proof (induction rule: pthread_reachable.induct)
  case start
  show ?case by (simp add: pt_init_def pt_inv_def pt_inside_def)
next
  case (step s l s')
  then show ?case by (blast intro: pthread_step_inv)
qed

section \<open>Runs that show the weak spots\<close>

definition two_waiting :: pt_state where
  "two_waiting = pt_init\<lparr>pt_pc := (pt_pc pt_init)(0 := Pt_waiting, 1 := Pt_waiting)\<rparr>"

lemma two_waiting_reachable: "pthread_reachable two_waiting"
proof -
  let ?s1 = "pt_set (Some 0) 0 Pt_hold pt_init" and ?s2 = "pt_set None 0 Pt_waiting pt_init"
  let ?s3 = "pt_set (Some 1) 1 Pt_hold ?s2"
  have "pthread_step (Lock_c 0) pt_init ?s1" by (rule lock_c) (simp_all add: pt_init_def)
  then have "pthread_reachable ?s1" by (rule step [OF start])
  moreover have "pthread_step (Wait 0) ?s1 (pt_set None 0 Pt_waiting ?s1)" by (rule wait) (simp add: pt_set_def)
  ultimately have "pthread_reachable ?s2" using step by (fastforce simp: pt_set_def)
  moreover have "pthread_step (Lock_c 1) ?s2 ?s3" by (rule lock_c) (simp_all add: pt_init_def pt_set_def)
  ultimately have "pthread_reachable ?s3" by (rule step)
  moreover have "pthread_step (Wait 1) ?s3 (pt_set None 1 Pt_waiting ?s3)" by (rule wait) (simp add: pt_set_def)
  ultimately have "pthread_reachable (pt_set None 1 Pt_waiting ?s3)" by (rule step)
  moreover have "pt_set None 1 Pt_waiting ?s3 = two_waiting" by (simp add: pt_set_def two_waiting_def pt_init_def)
  ultimately show ?thesis by simp
qed

definition probing :: pt_state where
  "probing = pt_set (Some 0) 0 Pt_probe pt_init"

lemma probing_reachable: "pthread_reachable probing"
  unfolding probing_def
  by (rule step [OF start], rule locked_try) (simp_all add: pt_init_def)

section \<open>Properties\<close>

text \<open>
  (C36) The pthread lock excludes: at most one thread holds it, and \<open>locked\<close> answers true to the
  holder. But \<open>locked\<close> may answer true although no one holds the lock, while another thread is
  asking; and \<open>notifyAll\<close> may leave one of two waiting threads asleep.
\<close>

theorem pthread_lock_safe:
  assumes "pthread_reachable s"
  shows "(pt_pc s t = Pt_hold \<and> pt_pc s u = Pt_hold \<longrightarrow> t = u) \<and>
    (pt_pc s t = Pt_hold \<longrightarrow> (\<exists>s'. pthread_step (Locked_answer t True) s s') \<and>
      \<not> (\<exists>s'. pthread_step (Locked_answer t False) s s')) \<and>
    (\<exists>s1 s2. pthread_reachable s1 \<and> (\<forall>t. pt_pc s1 t \<noteq> Pt_hold) \<and> pthread_step (Locked_answer 1 True) s1 s2) \<and>
    (\<exists>s1 s2. pthread_reachable s1 \<and> pt_waiters s1 = {0, 1} \<and> pthread_step (Notify_all {0}) s1 s2 \<and>
      pt_waiters s2 = {1})"
proof (intro conjI)
  note inv = pthread_reachable_inv [OF assms, unfolded pt_inv_def pt_inside_def]
  show "pt_pc s t = Pt_hold \<and> pt_pc s u = Pt_hold \<longrightarrow> t = u"
    using inv by (metis insertCI option.inject)
  show "pt_pc s t = Pt_hold \<longrightarrow> (\<exists>s'. pthread_step (Locked_answer t True) s s') \<and>
      \<not> (\<exists>s'. pthread_step (Locked_answer t False) s s')"
    using inv by (auto elim: locked_answerE intro!: exI [of _ s] locked_busy)
  have "pthread_step (Locked_answer 1 True) probing probing"
    by (rule locked_busy) (simp_all add: probing_def pt_set_def pt_init_def)
  then show "\<exists>s1 s2. pthread_reachable s1 \<and> (\<forall>t. pt_pc s1 t \<noteq> Pt_hold) \<and> pthread_step (Locked_answer 1 True) s1 s2"
    using probing_reachable
    by (intro exI [of _ probing]) (simp add: probing_def pt_set_def pt_init_def)
  have w: "pt_waiters two_waiting = {0, 1}" by (auto simp: pt_waiters_def two_waiting_def pt_init_def)
  then have "pthread_step (Notify_all {0}) two_waiting (pt_wake {0} two_waiting)"
    by (intro notify_all) (simp add: cond_signal_def)
  moreover have "pt_waiters (pt_wake {0} two_waiting) = {1}"
    by (auto simp: pt_waiters_def pt_wake_def two_waiting_def pt_init_def)
  ultimately show "\<exists>s1 s2. pthread_reachable s1 \<and> pt_waiters s1 = {0, 1} \<and> pthread_step (Notify_all {0}) s1 s2 \<and>
      pt_waiters s2 = {1}"
    using two_waiting_reachable w by blast
qed

theorem pthread_lock_safe_witness:
  "\<exists>s'. pthread_step (Locked_answer 0 True) (pt_set (Some 0) 0 Pt_hold pt_init) s'"
proof -
  have "pthread_reachable (pt_set (Some 0) 0 Pt_hold pt_init)"
    by (rule step [OF start], rule lock_c) (simp_all add: pt_init_def)
  from pthread_lock_safe [OF this, of 0, THEN conjunct2, THEN conjunct1] show ?thesis
    by (simp add: pt_set_def)
qed

end
