(* ===== verification/Logging.thy ===== *)
theory Logging
  imports Main
begin

text \<open>
  \<open>utils/log.h\<close>, \<open>utils/log.cc\<close> and \<open>utils/assert.h\<close>: which messages are logged, the beginning of
  a log line, and the texts of failed assertions. The time of day is a parameter; so is the
  representation of an argument as a string.
\<close>

section \<open>Levels\<close>

datatype log_level = NOTSET | DEBUG | INFO | WARNING | ERROR | CRITICAL

definition WARN :: log_level where "WARN = WARNING"
definition FATAL :: log_level where "FATAL = CRITICAL"

text \<open>The values of the enumeration, by which the macros compare.\<close>

fun level_value :: "log_level \<Rightarrow> nat" where
  "level_value NOTSET = 0"
| "level_value DEBUG = 1"
| "level_value INFO = 2"
| "level_value WARNING = 3"
| "level_value ERROR = 4"
| "level_value CRITICAL = 5"

lemma level_value_inject: "level_value l = level_value m \<Longrightarrow> l = m"
  by (cases l; cases m) simp_all

instantiation log_level :: linorder
begin

definition "l \<le> m \<longleftrightarrow> level_value l \<le> level_value m"
definition "l < m \<longleftrightarrow> level_value l < level_value m"

instance
  by standard (auto simp: less_eq_log_level_def less_log_level_def intro: level_value_inject)

end

text \<open>\<open>LOG(level, channel)\<close> logs when the level reaches the global one and that of the channel.\<close>

definition log_enabled :: "log_level \<Rightarrow> log_level \<Rightarrow> log_level \<Rightarrow> bool" where
  "log_enabled log_level channel_level level \<longleftrightarrow> level \<ge> log_level \<and> level \<ge> channel_level"

definition BASH_ESC_CHAR :: string where
  "BASH_ESC_CHAR = [CHR 0x1B]"

definition BASH_SET_COLOR :: "string \<Rightarrow> string \<Rightarrow> string" where
  "BASH_SET_COLOR a b = BASH_ESC_CHAR @ ''['' @ a @ '';'' @ b @ ''m''"

definition BASH_CLEAR_COLOR :: string where
  "BASH_CLEAR_COLOR = BASH_ESC_CHAR @ ''[0m''"

fun log_level_to_colored_name :: "log_level \<Rightarrow> string" where
  "log_level_to_colored_name NOTSET = ''?''"
| "log_level_to_colored_name DEBUG = BASH_SET_COLOR ''1'' ''90'' @ ''dbg'' @ BASH_CLEAR_COLOR"
| "log_level_to_colored_name INFO = BASH_SET_COLOR ''1'' ''34'' @ ''info'' @ BASH_CLEAR_COLOR"
| "log_level_to_colored_name WARNING = BASH_SET_COLOR ''1'' ''93'' @ ''warn'' @ BASH_CLEAR_COLOR"
| "log_level_to_colored_name ERROR = BASH_SET_COLOR ''1'' ''31'' @ ''err'' @ BASH_CLEAR_COLOR"
| "log_level_to_colored_name CRITICAL = BASH_SET_COLOR ''1'' ''91'' @ ''critical'' @ BASH_CLEAR_COLOR"

section \<open>Log lines\<close>

text \<open>Decimal digits, as the streams print a number that is not negative.\<close>

fun decimal :: "nat \<Rightarrow> string" where
  "decimal n = (if n < 10 then [char_of (48 + n)] else decimal (n div 10) @ [char_of (48 + n mod 10)])"

declare decimal.simps [simp del]

text \<open>\<open>std::setfill('0') << std::setw(w)\<close>.\<close>

definition setw :: "nat \<Rightarrow> string \<Rightarrow> string" where
  "setw w s = replicate (w - length s) (CHR ''0'') @ s"

definition start_log_line_stream :: "string \<Rightarrow> nat \<Rightarrow> log_level \<Rightarrow> string \<Rightarrow> string" where
  "start_log_line_stream tm_s tv_usec level channel_name =
     tm_s @ ''.'' @ setw 3 (decimal (tv_usec div 1000)) @ '' '' @ log_level_to_colored_name level @ '' '' @
     channel_name @ '':: ''"

lemma length_decimal: "n < 1000 \<Longrightarrow> length (decimal n) = (if n < 10 then 1 else if n < 100 then 2 else 3)"
  by (subst decimal.simps, (subst decimal.simps)?, (subst decimal.simps)?) auto

section \<open>Assertions\<close>

text \<open>\<open>__dbg_args_to_string__\<close>: the arguments as strings, each followed by the separator.\<close>

fun dbg_args_to_string :: "string \<Rightarrow> string list \<Rightarrow> string" where
  "dbg_args_to_string sep [] = ''''"
| "dbg_args_to_string sep (first_arg # args) = first_arg @ sep @ dbg_args_to_string sep args"

text \<open>
  \<open>ASSERT\<close>: nothing, or the text of the exception, from the text of the condition, where it stands
  and the arguments. \<open>ASSERT_DBG\<close> does the same in debug builds only.
\<close>

definition ASSERT :: "bool \<Rightarrow> string \<Rightarrow> string \<Rightarrow> string \<Rightarrow> nat \<Rightarrow> string list \<Rightarrow> string option" where
  "ASSERT cond cond_text file function line_num args =
     (if \<not> cond then
        (let loc_str = dbg_args_to_string '':'' [file, function, decimal line_num];
             args_str = dbg_args_to_string '' '' args
         in Some (dbg_args_to_string '' '' [loc_str, ''Assert'', ''`'' @ cond_text @ ''`'', ''failed:'', args_str]))
      else None)"

definition ASSERT_DBG :: "bool \<Rightarrow> bool \<Rightarrow> string \<Rightarrow> string \<Rightarrow> string \<Rightarrow> nat \<Rightarrow> string list \<Rightarrow> string option" where
  "ASSERT_DBG debug cond cond_text file function line_num args =
     (if debug then ASSERT cond cond_text file function line_num args else None)"

text \<open>The other two throw an exception of their own type.\<close>

definition ASSERT_EXC :: "bool \<Rightarrow> (string \<Rightarrow> 'exc) \<Rightarrow> string list \<Rightarrow> 'exc option" where
  "ASSERT_EXC cond exc args = (if \<not> cond then Some (exc (dbg_args_to_string '' '' args)) else None)"

definition ASSERT_EXC_VOID :: "bool \<Rightarrow> 'exc \<Rightarrow> 'exc option" where
  "ASSERT_EXC_VOID cond exc = (if \<not> cond then Some exc else None)"

section \<open>Properties\<close>

text \<open>
  The names of the levels are different; raising the level of the program or of a channel only
  silences messages, a message at the level of both is always logged; and the fraction of a second
  in a log line has three digits.
\<close>

theorem log_levels_order:
  "(log_level_to_colored_name l = log_level_to_colored_name m \<longleftrightarrow> l = m) \<and>
   (log_enabled g c l \<longleftrightarrow> l \<ge> max g c) \<and>
   (u < 1000000 \<longrightarrow> length (start_log_line_stream tm u l ch)
      = length tm + length (log_level_to_colored_name l) + length ch + 9)"
proof (intro conjI impI)
  show "log_level_to_colored_name l = log_level_to_colored_name m \<longleftrightarrow> l = m"
    by (cases l; cases m) (simp_all add: BASH_SET_COLOR_def BASH_ESC_CHAR_def)
  show "log_enabled g c l \<longleftrightarrow> l \<ge> max g c" by (simp add: log_enabled_def)
  assume "u < 1000000"
  then have "u div 1000 < 1000" by simp
  then show "length (start_log_line_stream tm u l ch)
      = length tm + length (log_level_to_colored_name l) + length ch + 9"
    by (simp add: start_log_line_stream_def setw_def length_decimal)
qed

theorem log_levels_order_witness:
  "length (start_log_line_stream ''now'' 7000 NOTSET ''net'') = 16"
  using log_levels_order [THEN conjunct2, THEN conjunct2, THEN mp, of 7000 "''now''" NOTSET "''net''"] by simp

end
