(* ===== verification/Monitor.thy ===== *)
theory Monitor
  imports Main
begin

text \<open>
  What a lock object of \<open>utils/lock/\<close> promises, without the futex: a monitor, one holder and the
  threads inside \<open>wait\<close>. The monitor runs on a list of events and refuses those that break the
  protocol; the locale \<open>monitor_refinement\<close> is the contract of an implementation, a simulation
  of each of its steps by at most one event.
\<close>

section \<open>The monitor\<close>

record monitor =
  mon_holder :: "nat option"
  mon_cond :: "nat set"

definition mon_init :: monitor where
  "mon_init = \<lparr>mon_holder = None, mon_cond = {}\<rparr>"

datatype mon_event =
    Mon_acquire nat
  | Mon_release nat
  | Mon_wait nat
  | Mon_wake "nat set"

text \<open>A thread inside \<open>wait\<close> has to be woken up, by anyone, before it can take the lock again.\<close>

fun mon_exec :: "mon_event \<Rightarrow> monitor \<Rightarrow> monitor option" where
  "mon_exec (Mon_acquire t) m =
     (if mon_holder m = None \<and> t \<notin> mon_cond m then Some (m\<lparr>mon_holder := Some t\<rparr>) else None)"
| "mon_exec (Mon_release t) m = (if mon_holder m = Some t then Some (m\<lparr>mon_holder := None\<rparr>) else None)"
| "mon_exec (Mon_wait t) m =
     (if mon_holder m = Some t then Some \<lparr>mon_holder = None, mon_cond = insert t (mon_cond m)\<rparr> else None)"
| "mon_exec (Mon_wake ws) m =
     (if ws \<subseteq> mon_cond m then Some (m\<lparr>mon_cond := mon_cond m - ws\<rparr>) else None)"

fun mon_run :: "mon_event list \<Rightarrow> monitor \<Rightarrow> monitor option" where
  "mon_run [] m = Some m"
| "mon_run (e # es) m = (case mon_exec e m of None \<Rightarrow> None | Some m' \<Rightarrow> mon_run es m')"

lemma mon_run_append:
  "mon_run (es @ fs) m = (case mon_run es m of None \<Rightarrow> None | Some m' \<Rightarrow> mon_run fs m')"
  by (induction es arbitrary: m) (simp_all split: option.splits)

lemma mon_run_single: "mon_run [e] m = mon_exec e m"
  by (simp split: option.splits)

section \<open>What a run guarantees\<close>

text \<open>The events with which a thread leaves the lock.\<close>

fun leaves :: "nat \<Rightarrow> mon_event \<Rightarrow> bool" where
  "leaves t (Mon_release u) = (t = u)"
| "leaves t (Mon_wait u) = (t = u)"
| "leaves t _ = False"

lemma holder_until_leaves:
  "mon_run es m = Some m' \<Longrightarrow> mon_holder m = Some t \<Longrightarrow> \<forall>e \<in> set es. \<not> leaves t e \<Longrightarrow> mon_holder m' = Some t"
proof (induction es arbitrary: m)
  case (Cons e es)
  from Cons.prems obtain m1 where m1: "mon_exec e m = Some m1" "mon_run es m1 = Some m'"
    by (auto split: option.splits)
  have "mon_holder m1 = Some t"
    using m1(1) Cons.prems by (cases e) (auto split: if_splits)
  then show ?case using Cons.IH [OF m1(2)] Cons.prems by simp
qed simp

lemma exec_keeps_waiting:
  "mon_exec e m = Some m' \<Longrightarrow> t \<in> mon_cond m \<Longrightarrow> \<forall>ws. e = Mon_wake ws \<longrightarrow> t \<notin> ws \<Longrightarrow> t \<in> mon_cond m'"
  by (cases e) (auto split: if_splits)

lemma waiting_until_woken:
  "mon_run es m = Some m' \<Longrightarrow> t \<in> mon_cond m \<Longrightarrow> \<forall>ws. Mon_wake ws \<in> set es \<longrightarrow> t \<notin> ws \<Longrightarrow> t \<in> mon_cond m'"
proof (induction es arbitrary: m)
  case (Cons e es)
  from Cons.prems obtain m1 where m1: "mon_exec e m = Some m1" "mon_run es m1 = Some m'"
    by (auto split: option.splits)
  have "t \<in> mon_cond m1" by (rule exec_keeps_waiting [OF m1(1) Cons.prems(2)]) (use Cons.prems(3) in simp)
  then show ?case using Cons.IH [OF m1(2)] Cons.prems(3) by simp
qed simp

text \<open>Between two acquisitions the first holder has left.\<close>

definition sections_apart :: "mon_event list \<Rightarrow> bool" where
  "sections_apart es \<longleftrightarrow> (\<forall>a t b u c. es = a @ Mon_acquire t # b @ Mon_acquire u # c \<longrightarrow> (\<exists>e \<in> set b. leaves t e))"

text \<open>Between a \<open>wait\<close> and the next acquisition of the same thread it has been woken up.\<close>

definition waits_woken :: "mon_event list \<Rightarrow> bool" where
  "waits_woken es \<longleftrightarrow>
     (\<forall>a t b c. es = a @ Mon_wait t # b @ Mon_acquire t # c \<longrightarrow> (\<exists>ws. Mon_wake ws \<in> set b \<and> t \<in> ws))"

lemma run_sections_apart:
  assumes "mon_run es m = Some m'"
  shows "sections_apart es"
  unfolding sections_apart_def
proof (intro allI impI, rule ccontr)
  fix a t b u c
  assume es: "es = a @ Mon_acquire t # b @ Mon_acquire u # c" and "\<not> (\<exists>e \<in> set b. leaves t e)"
  then have b: "\<forall>e \<in> set b. \<not> leaves t e" by blast
  from assms es obtain m1 m2 m3 where "mon_exec (Mon_acquire t) m1 = Some m2"
    and run: "mon_run b m2 = Some m3" and "mon_exec (Mon_acquire u) m3 \<noteq> None"
    by (auto simp: mon_run_append split: option.splits if_splits)
  moreover from this have "mon_holder m2 = Some t" by (auto split: if_splits)
  ultimately show False using holder_until_leaves [OF run _ b] by (auto split: if_splits)
qed

lemma run_waits_woken:
  assumes "mon_run es m = Some m'"
  shows "waits_woken es"
  unfolding waits_woken_def
proof (intro allI impI, rule ccontr)
  fix a t b c
  assume es: "es = a @ Mon_wait t # b @ Mon_acquire t # c" and "\<not> (\<exists>ws. Mon_wake ws \<in> set b \<and> t \<in> ws)"
  then have b: "\<forall>ws. Mon_wake ws \<in> set b \<longrightarrow> t \<notin> ws" by blast
  from assms es obtain m1 m2 m3 where "mon_exec (Mon_wait t) m1 = Some m2"
    and run: "mon_run b m2 = Some m3" and "mon_exec (Mon_acquire t) m3 \<noteq> None"
    by (auto simp: mon_run_append split: option.splits if_splits)
  moreover from this have "t \<in> mon_cond m2" by (auto split: if_splits)
  ultimately show False using waiting_until_woken [OF run _ b] by (auto split: if_splits)
qed

section \<open>The contract of an implementation\<close>

text \<open>\<open>abs\<close> relates a state of the implementation to the monitor's.\<close>

locale monitor_refinement =
  fixes step :: "'s \<Rightarrow> 's \<Rightarrow> bool"
    and start :: 's
    and inv :: "'s \<Rightarrow> bool"
    and abs :: "'s \<Rightarrow> monitor \<Rightarrow> bool"
  assumes inv_start: "inv start"
    and inv_kept: "inv s \<Longrightarrow> step s s' \<Longrightarrow> inv s'"
    and abs_start: "abs start mon_init"
    and abs_step: "inv s \<Longrightarrow> abs s m \<Longrightarrow> step s s' \<Longrightarrow>
      abs s' m \<or> (\<exists>e m'. mon_exec e m = Some m' \<and> abs s' m')"
begin

lemma reachable_keeps: "step\<^sup>*\<^sup>* start s \<Longrightarrow> inv s"
  by (induction rule: rtranclp_induct) (auto intro: inv_start inv_kept)

lemma simulated: "step\<^sup>*\<^sup>* start s \<Longrightarrow> \<exists>es m. mon_run es mon_init = Some m \<and> abs s m"
proof (induction rule: rtranclp_induct)
  case base
  show ?case using abs_start by (intro exI [of _ "[]"]) simp
next
  case (step s s')
  then obtain es m where es: "mon_run es mon_init = Some m" and m: "abs s m" by blast
  from abs_step [OF reachable_keeps [OF step.hyps(1)] m step.hyps(2)] show ?case
  proof
    assume "\<exists>e m'. mon_exec e m = Some m' \<and> abs s' m'"
    then obtain e m' where "mon_exec e m = Some m'" "abs s' m'" by blast
    then show ?thesis using es
      by (intro exI [of _ "es @ [e]"] exI [of _ m']) (simp add: mon_run_append del: mon_run.simps(2) add: mon_run_single)
  qed (use es in blast)
qed

lemma runs_like_monitor:
  assumes "step\<^sup>*\<^sup>* start s"
  shows "\<exists>es m. mon_run es mon_init = Some m \<and> abs s m \<and> sections_apart es \<and> waits_woken es"
  using simulated [OF assms] run_sections_apart run_waits_woken by blast

text \<open>A run so far is a history of events; a further step adds one event to it, or none.\<close>

lemma step_extends_history:
  assumes "step\<^sup>*\<^sup>* start s" and "step s s'"
  shows "\<exists>es m e m'. mon_run es mon_init = Some m \<and> abs s m \<and> mon_run e m = Some m' \<and> abs s' m' \<and> length e \<le> 1 \<and>
    sections_apart (es @ e) \<and> waits_woken (es @ e)"
proof -
  obtain es m where es: "mon_run es mon_init = Some m" and m: "abs s m" using simulated [OF assms(1)] by blast
  from abs_step [OF reachable_keeps [OF assms(1)] m assms(2)]
  obtain e m' where e: "mon_run e m = Some m'" "length e \<le> 1" and m': "abs s' m'"
  proof
    assume "abs s' m"
    then show thesis by (intro that [of "[]" m]) simp_all
  next
    assume "\<exists>e m'. mon_exec e m = Some m' \<and> abs s' m'"
    then show thesis using mon_run_single that [of "[_]"] by (metis One_nat_def length_Cons list.size(3) order_refl)
  qed
  have "mon_run (es @ e) mon_init = Some m'" using es e by (simp add: mon_run_append)
  then show ?thesis using es m e m' run_sections_apart run_waits_woken by blast
qed

end

end
