(* ===== verification/Lock_Refinement.thy ===== *)
theory Lock_Refinement
  imports Monitor Lock_Simple Lock_Brute Lock_Pthread
begin

text \<open>
  The three locks of \<open>utils/lock/\<close> implement the monitor. A step is simulated by one event when
  it takes or frees the lock or lets a thread return from the sleep of \<open>wait\<close>, and by none when it
  only counts waiters, spins or looks for someone to notify.
\<close>

section \<open>The futex locks\<close>

text \<open>A thread of \<open>wait\<close>, from the release of the lock to the end of its sleep.\<close>

fun in_wait :: "lock_pc \<Rightarrow> bool" where
  "in_wait (Brute_check w) = w"
| "in_wait (Check w) = w"
| "in_wait (Wake w) = w"
| "in_wait (Wait_inc v) = (v = 0)"
| "in_wait (Wait_futex v) = (v = 0)"
| "in_wait (Asleep v) = (v = 0)"
| "in_wait _ = False"

definition pc_monitor :: "(lock_pc \<Rightarrow> bool) \<Rightarrow> (nat \<Rightarrow> lock_pc) \<Rightarrow> monitor \<Rightarrow> bool" where
  "pc_monitor h pc m \<longleftrightarrow>
     (\<forall>t. mon_holder m = Some t \<longleftrightarrow> h (pc t)) \<and> (\<forall>t. t \<in> mon_cond m \<longleftrightarrow> in_wait (pc t))"

lemma in_wait_after_unlock [simp]: "in_wait (after_unlock w) = w"
  by (simp add: after_unlock_def)

lemma pc_monitor_keep:
  "pc_monitor h pc m \<Longrightarrow> h x = h (pc t) \<Longrightarrow> in_wait x = in_wait (pc t) \<Longrightarrow> pc_monitor h (pc(t := x)) m"
  by (simp add: pc_monitor_def)

text \<open>Each event with the moves that perform it.\<close>

lemma pc_monitor_acquire:
  assumes "pc_monitor h pc m" and "\<forall>u. \<not> h (pc u)" and "h x" "\<not> in_wait x" "\<not> in_wait (pc t)"
  shows "\<exists>e m'. mon_exec e m = Some m' \<and> pc_monitor h (pc(t := x)) m'"
proof -
  have none: "mon_holder m = None" using assms(1,2) by (cases "mon_holder m") (auto simp: pc_monitor_def)
  then show ?thesis using assms
    by (intro exI [of _ "Mon_acquire t"] exI [of _ "m\<lparr>mon_holder := Some t\<rparr>"]) (auto simp: pc_monitor_def)
qed

lemma pc_monitor_leave:
  assumes "pc_monitor h pc m" and "h (pc t)" "\<not> h x" "\<not> in_wait (pc t)"
  shows "\<exists>e m'. mon_exec e m = Some m' \<and> pc_monitor h (pc(t := x)) m'"
proof -
  have t: "mon_holder m = Some t" using assms(1,2) by (simp add: pc_monitor_def)
  have free: "\<not> h ((pc(t := x)) u)" for u
  proof (cases "u = t")
    case False
    then have "mon_holder m \<noteq> Some u" using t by simp
    then show ?thesis using assms(1) False by (simp add: pc_monitor_def)
  qed (simp add: assms(3))
  have cond: "u \<in> mon_cond m \<longleftrightarrow> in_wait (pc u)" for u using assms(1) by (simp add: pc_monitor_def)
  show ?thesis
  proof (cases "in_wait x")
    case True
    then have "pc_monitor h (pc(t := x)) \<lparr>mon_holder = None, mon_cond = insert t (mon_cond m)\<rparr>"
      using free cond by (simp add: pc_monitor_def)
    then show ?thesis using t by (intro exI [of _ "Mon_wait t"]) simp
  next
    case False
    then have "pc_monitor h (pc(t := x)) (m\<lparr>mon_holder := None\<rparr>)"
      using free cond assms(4) by (simp add: pc_monitor_def)
    then show ?thesis using t by (intro exI [of _ "Mon_release t"]) simp
  qed
qed

text \<open>A thread whose sleep ends: out of \<open>wait\<close>, unless it slept for the lock.\<close>

lemma pc_monitor_wake:
  assumes "pc_monitor h pc m" and "\<not> h (pc t)" "\<not> h x" "\<not> in_wait x"
  shows "\<exists>e m'. mon_exec e m = Some m' \<and> pc_monitor h (pc(t := x)) m'"
proof (cases "in_wait (pc t)")
  case True
  then show ?thesis using assms
    by (intro exI [of _ "Mon_wake {t}"] exI [of _ "m\<lparr>mon_cond := mon_cond m - {t}\<rparr>"]) (auto simp: pc_monitor_def)
next
  case False
  then show ?thesis using assms
    by (intro exI [of _ "Mon_wake {}"] exI [of _ m]) (auto simp: pc_monitor_def)
qed

lemma free_none_holds: "one_holder h var pc \<Longrightarrow> var = 0 \<Longrightarrow> \<forall>u. \<not> h (pc u)"
  by (simp add: one_holder_def)

text \<open>The state after one thread's move, whatever happens to the counters.\<close>

lemma pc_goto [simp]:
  "lk_pc (goto t x s) = (lk_pc s)(t := x)" "lk_futex_var (goto t x s) = lk_futex_var s"
  by (simp_all add: goto_def)

definition simulates :: "(lock_pc \<Rightarrow> bool) \<Rightarrow> (nat \<Rightarrow> lock_pc) \<Rightarrow> monitor \<Rightarrow> bool" where
  "simulates h pc m \<longleftrightarrow> pc_monitor h pc m \<or> (\<exists>e m'. mon_exec e m = Some m' \<and> pc_monitor h pc m')"

lemma simulatesI:
  "pc_monitor h pc m \<Longrightarrow> simulates h pc m"
  "\<exists>e m'. mon_exec e m = Some m' \<and> pc_monitor h pc m' \<Longrightarrow> simulates h pc m"
  by (simp_all add: simulates_def)

lemmas simulates_keep = pc_monitor_keep [THEN simulatesI(1)]
  and simulates_acquire = pc_monitor_acquire [THEN simulatesI(2)]
  and simulates_leave = pc_monitor_leave [THEN simulatesI(2)]
  and simulates_wake = pc_monitor_wake [THEN simulatesI(2)]

text \<open>\<open>FUTEX_WAKE\<close> moves the caller, who stays as he was for the monitor, and the thread it wakes.\<close>

lemma simulates_wake_one:
  assumes "pc_monitor h pc m" and "t \<noteq> u" "h x = h (pc t)" "in_wait x = in_wait (pc t)"
    and "\<not> h (pc u)" "\<not> h y" "\<not> in_wait y"
  shows "simulates h (pc(u := y, t := x)) m"
proof -
  obtain e m' where "mon_exec e m = Some m'" and m': "pc_monitor h (pc(u := y)) m'"
    using pc_monitor_wake [OF assms(1,5,6,7)] by blast
  moreover have "pc_monitor h (pc(u := y, t := x)) m'"
    using assms(2-4) by (intro pc_monitor_keep [OF m']) simp_all
  ultimately show ?thesis by (auto simp: simulates_def)
qed

section \<open>LockObjectSimple\<close>

lemma simple_simulated:
  assumes "simple_inv s" and "pc_monitor is_hold (lk_pc s) m" and "simple_step s s'"
  shows "simulates is_hold (lk_pc s') m"
proof -
  note h = assms(1) [unfolded simple_inv_def, THEN conjunct2, THEN conjunct1]
  note free = free_none_holds [OF h]
  note keep = simulates_keep [OF assms(2)] and leave = simulates_leave [OF assms(2)]
    and wake = simulates_wake [OF assms(2)] and acquire = simulates_acquire [OF assms(2)]
  note n = is_hold_def
  from assms(3) show ?thesis
  proof (cases rule: simple_step.cases)
    case (lock_ok t)
    then show ?thesis using free by (auto simp: n intro!: acquire)
  next
    case (futex_again t v)
    then show ?thesis by (auto simp: n intro!: wake)
  next
    case (woken t v)
    then show ?thesis by (auto simp: n intro!: wake)
  next
    case (retry_ok t v)
    then show ?thesis using free by (auto simp: n intro!: acquire)
  next
    case (release t w)
    then show ?thesis by (auto simp: n intro!: leave)
  next
    case (wake_one t w u v)
    then have "t \<noteq> u" by auto
    then show ?thesis using wake_one
      by (auto simp: n after_unlock_def intro!: simulates_wake_one [OF assms(2)])
  qed (auto simp: n after_unlock_def intro!: keep)
qed

interpretation simple_mon: monitor_refinement simple_step lock_init simple_inv "\<lambda>s. pc_monitor is_hold (lk_pc s)"
proof
  show "simple_inv lock_init" by (rule simple_inv_init)
  show "simple_inv s \<Longrightarrow> simple_step s s' \<Longrightarrow> simple_inv s'" for s s' by (rule simple_inv_step)
  show "pc_monitor is_hold (lk_pc lock_init) mon_init"
    by (simp add: pc_monitor_def lock_init_def mon_init_def is_hold_def)
  show "pc_monitor is_hold (lk_pc s') m \<or> (\<exists>e m'. mon_exec e m = Some m' \<and> pc_monitor is_hold (lk_pc s') m')"
    if "simple_inv s" "pc_monitor is_hold (lk_pc s) m" "simple_step s s'" for s m s'
    using simple_simulated [OF that] by (simp add: simulates_def)
qed

section \<open>LockObjectBrute\<close>

lemma brute_simulated:
  assumes "brute_inv s" and "pc_monitor brute_holding (lk_pc s) m" and "brute_step s s'"
  shows "simulates brute_holding (lk_pc s') m"
proof -
  note h = assms(1) [unfolded brute_inv_def, THEN conjunct2, THEN conjunct2, THEN conjunct1]
  note free = free_none_holds [OF h]
  note keep = simulates_keep [OF assms(2)] and leave = simulates_leave [OF assms(2)]
    and wake = simulates_wake [OF assms(2)] and acquire = simulates_acquire [OF assms(2)]
  from assms(3) show ?thesis
  proof (cases rule: brute_step.cases)
    case (lock_ok t)
    then show ?thesis using free by (auto intro!: acquire)
  next
    case (spin_ok t k)
    then show ?thesis using free by (auto intro!: acquire)
  next
    case (futex_again t v)
    then show ?thesis by (auto intro!: wake)
  next
    case (woken t v)
    then show ?thesis by (auto intro!: wake)
  next
    case (retry_ok t v)
    then show ?thesis using free by (auto intro!: acquire)
  next
    case (release t w)
    then show ?thesis by (auto intro!: leave)
  next
    case (wake_one t w u v)
    then have "t \<noteq> u" by auto
    then show ?thesis using wake_one
      by (auto simp: after_unlock_def intro!: simulates_wake_one [OF assms(2)])
  qed (auto simp: after_unlock_def intro!: keep)
qed

interpretation brute_mon: monitor_refinement brute_step lock_init brute_inv "\<lambda>s. pc_monitor brute_holding (lk_pc s)"
proof
  show "brute_inv lock_init" by (rule brute_inv_init)
  show "brute_inv s \<Longrightarrow> brute_step s s' \<Longrightarrow> brute_inv s'" for s s' by (rule brute_inv_step)
  show "pc_monitor brute_holding (lk_pc lock_init) mon_init"
    by (simp add: pc_monitor_def lock_init_def mon_init_def)
  show "pc_monitor brute_holding (lk_pc s') m \<or> (\<exists>e m'. mon_exec e m = Some m' \<and> pc_monitor brute_holding (lk_pc s') m')"
    if "brute_inv s" "pc_monitor brute_holding (lk_pc s) m" "brute_step s s'" for s m s'
    using brute_simulated [OF that] by (simp add: simulates_def)
qed

section \<open>LockObjectPthread\<close>

text \<open>Here the monitor can be read off the state. \<open>locked\<close> takes the mutex for a moment.\<close>

definition pt_monitor :: "pt_state \<Rightarrow> monitor" where
  "pt_monitor s = \<lparr>mon_holder = pt_owner s, mon_cond = pt_waiters s\<rparr>"

definition pt_any_step :: "pt_state \<Rightarrow> pt_state \<Rightarrow> bool" where
  "pt_any_step s s' \<longleftrightarrow> (\<exists>l. pthread_step l s s')"

lemma pthread_reachable_steps: "pthread_reachable s \<Longrightarrow> pt_any_step\<^sup>*\<^sup>* pt_init s"
proof (induction rule: pthread_reachable.induct)
  case (step s l s')
  then show ?case by (meson pt_any_step_def rtranclp.rtrancl_into_rtrancl)
qed simp

lemma pt_waiters_set:
  "pt_waiters (pt_set o' t pc s) = (if pc = Pt_waiting then insert t (pt_waiters s) else pt_waiters s - {t})"
  by (auto simp: pt_waiters_def pt_set_def)

lemma pt_waiters_wake: "pt_waiters (pt_wake ws s) = pt_waiters s - ws"
  by (auto simp: pt_waiters_def pt_wake_def)

lemma pt_set_owner [simp]: "pt_owner (pt_set o' t pc s) = o'" "pt_owner (pt_wake ws s) = pt_owner s"
  by (simp_all add: pt_set_def pt_wake_def)

lemma not_waiting: "pt_pc s t \<noteq> Pt_waiting \<Longrightarrow> t \<notin> pt_waiters s" and waiting: "pt_pc s t = Pt_waiting \<Longrightarrow> t \<in> pt_waiters s"
  by (simp_all add: pt_waiters_def)

lemma pt_simulated:
  assumes "pt_inv s" and "pthread_step l s s'"
  shows "pt_monitor s' = pt_monitor s \<or> (\<exists>e. mon_exec e (pt_monitor s) = Some (pt_monitor s'))"
proof -
  have own: "pt_owner s = Some t" if "pt_pc s t \<in> {Pt_hold, Pt_probe}" for t
    using assms(1) that by (simp add: pt_inv_def pt_inside_def)
  note d = pt_monitor_def pt_waiters_set pt_waiters_wake not_waiting waiting cond_signal_def
  from assms(2) show ?thesis
  proof (cases rule: pthread_step.cases)
    case (lock_c t)
    then show ?thesis by (intro disjI2 exI [of _ "Mon_acquire t"]) (simp add: d)
  next
    case (unlock_c t)
    then show ?thesis using own [of t] by (intro disjI2 exI [of _ "Mon_release t"]) (simp add: d)
  next
    case (wait t)
    then show ?thesis using own [of t] by (intro disjI2 exI [of _ "Mon_wait t"]) (simp add: d)
  next
    case (woken t)
    then show ?thesis by (intro disjI2 exI [of _ "Mon_wake {t}"]) (simp add: d)
  next
    case (relock t)
    then show ?thesis by (intro disjI2 exI [of _ "Mon_acquire t"]) (simp add: d)
  next
    case (notify ws)
    then show ?thesis by (intro disjI2 exI [of _ "Mon_wake ws"]) (simp add: d)
  next
    case (notify_all ws)
    then show ?thesis by (intro disjI2 exI [of _ "Mon_wake ws"]) (simp add: d)
  next
    case (locked_try t)
    then show ?thesis by (intro disjI2 exI [of _ "Mon_acquire t"]) (simp add: d)
  next
    case (locked_free t)
    then show ?thesis using own [of t] by (intro disjI2 exI [of _ "Mon_release t"]) (simp add: d)
  qed simp
qed

interpretation pt_mon: monitor_refinement pt_any_step pt_init pt_inv "\<lambda>s m. m = pt_monitor s"
proof
  show "pt_inv pt_init" by (simp add: pt_init_def pt_inv_def pt_inside_def)
  show "pt_inv s \<Longrightarrow> pt_any_step s s' \<Longrightarrow> pt_inv s'" for s s' by (auto simp: pt_any_step_def intro: pthread_step_inv)
  show "mon_init = pt_monitor pt_init" by (simp add: mon_init_def pt_monitor_def pt_init_def pt_waiters_def)
  show "m = pt_monitor s' \<or> (\<exists>e m'. mon_exec e m = Some m' \<and> m' = pt_monitor s')"
    if "pt_inv s" "m = pt_monitor s" "pt_any_step s s'" for s m s'
  proof -
    note reach = that
    obtain l where "pthread_step l s s'" using reach(3) by (auto simp: pt_any_step_def)
    from pt_simulated [OF reach(1) this] show ?thesis using reach(2) by auto
  qed
qed

section \<open>Properties\<close>



end
