(* ===== verification/Lock_Choice.thy ===== *)
theory Lock_Choice
  imports Lock_Refinement
begin

text \<open>
  \<open>utils/lock.h\<close>, the lock classes of a build, and the atomic operations of \<open>utils/lock/ops.h\<close> as
  functions: the value they return and the one they leave in the variable.
\<close>

section \<open>Atomic operations\<close>

definition atomic_add :: "int \<Rightarrow> int \<Rightarrow> int \<times> int" where
  "atomic_add var val = (var + val, var + val)"

text \<open>\<open>__sync_lock_test_and_set\<close> stores 1 and returns the old value.\<close>

definition atomic_try_lock :: "int \<Rightarrow> bool \<times> int" where
  "atomic_try_lock var = (\<not> (var \<noteq> 0), 1)"

definition atomic_release :: "int \<Rightarrow> int" where
  "atomic_release var = 0"

text \<open>
  An operation of a thread: the state with the variables it leaves, the thread going on where
  the result sends it.
\<close>

definition try_lock_then :: "nat \<Rightarrow> lock_pc \<Rightarrow> lock_pc \<Rightarrow> lock_state \<Rightarrow> lock_state" where
  "try_lock_then t got busy s =
     (case atomic_try_lock (lk_futex_var s) of
        (ok, var) \<Rightarrow> (goto t (if ok then got else busy) s)\<lparr>lk_futex_var := var\<rparr>)"

definition release_then :: "nat \<Rightarrow> lock_pc \<Rightarrow> lock_state \<Rightarrow> lock_state" where
  "release_then t x s = (goto t x s)\<lparr>lk_futex_var := atomic_release (lk_futex_var s)\<rparr>"

definition count_waiter :: "nat \<Rightarrow> lock_pc \<Rightarrow> int \<Rightarrow> lock_state \<Rightarrow> lock_state" where
  "count_waiter t x n s = (goto t x s)\<lparr>lk_num_futex_waiters := snd (atomic_add (lk_num_futex_waiters s) n)\<rparr>"

text \<open>Trying a lock that is taken stores the 1 that is there already.\<close>

lemma try_lock_then_eq:
  assumes "lk_futex_var s = 0 \<or> lk_futex_var s = 1"
  shows "try_lock_then t got busy s =
    (if lk_futex_var s = 0 then (goto t got s)\<lparr>lk_futex_var := 1\<rparr> else goto t busy s)"
  using assms by (auto simp: try_lock_then_def atomic_try_lock_def goto_def)

section \<open>The classes of a build\<close>

datatype lock_class = Lock_object_simple | Lock_object_brute | Lock_object_pthread

definition lock_frequent_class :: "bool \<Rightarrow> lock_class" where
  "lock_frequent_class use_pthread = (if use_pthread then Lock_object_pthread else Lock_object_brute)"

definition lock_default_class :: "bool \<Rightarrow> lock_class" where
  "lock_default_class use_pthread = (if use_pthread then Lock_object_pthread else Lock_object_simple)"

text \<open>The monitors that show the reachable states of a lock.\<close>

fun lock_shows :: "lock_class \<Rightarrow> monitor \<Rightarrow> bool" where
  "lock_shows Lock_object_simple m \<longleftrightarrow> (\<exists>s. simple_step\<^sup>*\<^sup>* lock_init s \<and> pc_monitor is_hold (lk_pc s) m)"
| "lock_shows Lock_object_brute m \<longleftrightarrow> (\<exists>s. brute_step\<^sup>*\<^sup>* lock_init s \<and> pc_monitor brute_holding (lk_pc s) m)"
| "lock_shows Lock_object_pthread m \<longleftrightarrow> (\<exists>s. pthread_reachable s \<and> m = pt_monitor s)"

lemma pc_monitor_unique: "pc_monitor h pc m \<Longrightarrow> pc_monitor h pc m' \<Longrightarrow> m = m'"
proof -
  assume a: "pc_monitor h pc m" "pc_monitor h pc m'"
  then have "mon_holder m = Some t \<longleftrightarrow> mon_holder m' = Some t" for t by (simp add: pc_monitor_def)
  then have "mon_holder m = mon_holder m'" by (metis option.exhaust)
  moreover have "mon_cond m = mon_cond m'" using a by (auto simp: pc_monitor_def)
  ultimately show ?thesis by simp
qed

lemma shown_is_run: "lock_shows c m \<Longrightarrow> \<exists>es. mon_run es mon_init = Some m \<and> sections_apart es \<and> waits_woken es"
proof (cases c)
  case Lock_object_simple
  moreover assume "lock_shows c m"
  ultimately show ?thesis using simple_mon.runs_like_monitor pc_monitor_unique by fastforce
next
  case Lock_object_brute
  moreover assume "lock_shows c m"
  ultimately show ?thesis using brute_mon.runs_like_monitor pc_monitor_unique by fastforce
next
  case Lock_object_pthread
  moreover assume "lock_shows c m"
  ultimately show ?thesis using pt_mon.runs_like_monitor [OF pthread_reachable_steps] by fastforce
qed

section \<open>Properties\<close>

text \<open>
  Whichever build is chosen, both lock types behave like a monitor: every state they reach shows
  one that some history of the monitor ends in, with critical sections apart and waiting threads
  woken up before they go on.
\<close>

theorem chosen_locks_are_monitors:
  assumes "lock_shows (lock_default_class use_pthread) m \<or> lock_shows (lock_frequent_class use_pthread) m"
  shows "\<exists>es. mon_run es mon_init = Some m \<and> sections_apart es \<and> waits_woken es"
  using assms shown_is_run by blast

theorem chosen_locks_are_monitors_witness:
  "\<exists>es. mon_run es mon_init = Some \<lparr>mon_holder = None, mon_cond = {0, 1}\<rparr> \<and> sections_apart es \<and> waits_woken es"
proof -
  have "pt_monitor two_waiting = \<lparr>mon_holder = None, mon_cond = {0, 1}\<rparr>"
    by (auto simp: pt_monitor_def pt_waiters_def two_waiting_def pt_init_def)
  then have "lock_shows (lock_default_class True) \<lparr>mon_holder = None, mon_cond = {0, 1}\<rparr>"
    using two_waiting_reachable by (auto simp: lock_default_class_def)
  then show ?thesis using chosen_locks_are_monitors [of True] by blast
qed

text \<open>
  The steps of both futex locks are what the atomic operations compute: in every reachable state
  a thread outside that calls \<open>lock_c\<close> moves to where \<open>atomic_try_lock\<close> sends it, one that unlocks
  leaves the variable \<open>atomic_release\<close> leaves, and waiters are counted by \<open>atomic_add\<close>.
\<close>

theorem steps_are_atomic_operations:
  assumes "simple_step\<^sup>*\<^sup>* lock_init s" and "brute_step\<^sup>*\<^sup>* lock_init b"
  shows "(lk_pc s t = Out \<longrightarrow> simple_step s (try_lock_then t Hold (Wait_inc 1) s)) \<and>
    (lk_pc s t = Retry v \<longrightarrow> simple_step s (try_lock_then t Hold (Wait_inc 1) s)) \<and>
    (lk_pc s t = Hold \<longrightarrow> simple_step s (release_then t (Check w) s)) \<and>
    (lk_pc s t = Wait_inc v \<longrightarrow> simple_step s (count_waiter t (Wait_futex v) 1 s)) \<and>
    (lk_pc s t = Wait_dec v \<longrightarrow> simple_step s (count_waiter t (Retry v) (- 1) s)) \<and>
    (lk_pc b t = Out \<longrightarrow> brute_step b (try_lock_then t Hold Spin_look b)) \<and>
    (lk_pc b t = Spin_try k \<longrightarrow>
       brute_step b (try_lock_then t (Spin_dec True) (if k - 1 = 0 then Spin_dec False else Spin_try (k - 1)) b)) \<and>
    (lk_pc b t = Hold \<longrightarrow> brute_step b (release_then t (Brute_check w) b))"
proof -
  have s: "lk_futex_var s = 0 \<or> lk_futex_var s = 1"
    using simple_mon.reachable_keeps [OF assms(1)] by (auto simp: simple_inv_def dest: one_holder_cases)
  have b: "lk_futex_var b = 0 \<or> lk_futex_var b = 1"
    using brute_mon.reachable_keeps [OF assms(2)] by (auto simp: brute_inv_def dest: one_holder_cases)
  have simps: "release_then t x u = (goto t x u)\<lparr>lk_futex_var := 0\<rparr>"
    "count_waiter t x n u = (goto t x u)\<lparr>lk_num_futex_waiters := lk_num_futex_waiters u + n\<rparr>" for x n u
    by (simp_all add: release_then_def atomic_release_def count_waiter_def atomic_add_def)
  have dec: "(goto t (Retry v) s)\<lparr>lk_num_futex_waiters := lk_num_futex_waiters s + - 1\<rparr>
      = (goto t (Retry v) s)\<lparr>lk_num_futex_waiters := lk_num_futex_waiters s - 1\<rparr>" by simp
  have spin: "lk_pc b t = Spin_try k \<Longrightarrow> lk_futex_var b \<noteq> 0 \<Longrightarrow>
      brute_step b (goto t (if k - 1 = 0 then Spin_dec False else Spin_try (k - 1)) b)" by (rule brute_step.spin_busy)
  show ?thesis
    unfolding try_lock_then_eq [OF s] try_lock_then_eq [OF b] simps dec
    using spin by (auto intro: simple_step.intros brute_step.intros simp del: One_nat_def diff_is_0_eq diff_is_0_eq')
qed

theorem steps_are_atomic_operations_witness:
  "simple_step lock_init ((goto 5 Hold lock_init)\<lparr>lk_futex_var := 1\<rparr>)"
proof -
  have "try_lock_then 5 Hold (Wait_inc 1) lock_init = (goto 5 Hold lock_init)\<lparr>lk_futex_var := 1\<rparr>"
    by (simp add: try_lock_then_eq lock_init_def)
  moreover have "lk_pc lock_init 5 = Out" by (simp add: lock_init_def)
  ultimately show ?thesis
    using steps_are_atomic_operations [OF rtranclp.rtrancl_refl rtranclp.rtrancl_refl, THEN conjunct1] by metis
qed

end
