(* ===== verification/Config_Sections.thy ===== *)
theory Config_Sections
  imports Config_Lookup
begin

text \<open>
  \<open>config.h\<close>, sections: \<open>SubConfig\<close>, a range of the packed bytes in which options are looked up,
  and \<open>get\<close> with a default value. Nothing in the repository makes a \<open>SubConfig\<close>; the only range
  the class offers for a section is the one \<open>find\<close> returns.
\<close>

section \<open>SubConfig\<close>

record sub_config =
  sc_b :: nat
  sc_e :: nat

definition sub_config_new :: "nat \<Rightarrow> nat \<Rightarrow> sub_config" where
  "sub_config_new b e = \<lparr>sc_b = b, sc_e = e\<rparr>"

definition sub_get :: "(bytes \<Rightarrow> 'a) \<Rightarrow> bytes \<Rightarrow> sub_config \<Rightarrow> bytes \<Rightarrow> (get_exc + 'a) option" where
  "sub_get cvt v c name = cfg_get_range cvt v name (sc_b c) (sc_e c)"

definition sub_get_default ::
  "(bytes \<Rightarrow> 'a) \<Rightarrow> bytes \<Rightarrow> sub_config \<Rightarrow> bytes \<Rightarrow> 'a \<Rightarrow> (get_exc + 'a) option" where
  "sub_get_default cvt v c name dflt = cfg_get_default cvt v name dflt (sc_b c) (sc_e c)"

text \<open>\<open>ImmutableConfig::get\<close> with a default.\<close>

definition cfg_get_or :: "(bytes \<Rightarrow> 'a) \<Rightarrow> bytes \<Rightarrow> bytes \<Rightarrow> 'a \<Rightarrow> (get_exc + 'a) option" where
  "cfg_get_or cvt v name dflt = cfg_get_default cvt v name dflt 0 (length v)"

lemma get_or_items:
  assumes "list_all item_ok xs" and "length (concat (map encode_item xs)) < 2 ^ 32" and "plain name"
  shows "cfg_get_or cvt (concat (map encode_item xs)) name dflt
    = Some (Inr (case lookup_items name xs of Inl e \<Rightarrow> dflt | Inr v \<Rightarrow> cvt v))"
proof -
  have "\<exists>r. lookup_items name xs = r \<and> r \<noteq> Inl Cfg_get_undefined"
    by (simp add: lookup_items_def split: option.splits)
  then show ?thesis using get_items [OF assms, of cvt "[]"]
    by (cases "lookup_items name xs"; rename_tac e; case_tac e)
      (auto simp: cfg_get_or_def cfg_get_default_def)
qed

section \<open>Bytes behind the range do not matter\<close>

lemma strcmp_eq_more: "strcmp_eq mem str = Some r \<Longrightarrow> strcmp_eq (mem @ rest) str = Some r"
  by (induction mem str rule: strcmp_eq.induct) (auto split: if_splits)

lemma read_len_more: "read_len v pos = Some n \<Longrightarrow> read_len (v @ rest) pos = Some n"
  by (auto simp: read_len_def nth_append split: if_splits)

lemma cfg_find_more:
  assumes "cfg_find v str pos pos_e = Some x"
  shows "x \<noteq> Inl Cfg_get_undefined \<longrightarrow> cfg_find (v @ rest) str pos pos_e = Some x"
proof (rule cfg_find.raw_induct
    [where P = "\<lambda>v str pos pos_e x. x \<noteq> Inl Cfg_get_undefined \<longrightarrow> cfg_find (v @ rest) str pos pos_e = Some x", OF _ assms])
  fix f v str pos pos_e x
  assume IH: "\<And>v str pos pos_e x. f v str pos pos_e = Some x \<Longrightarrow>
      x \<noteq> Inl Cfg_get_undefined \<longrightarrow> cfg_find (v @ rest) str pos pos_e = Some x"
    and eq: "(if pos < pos_e then
        (case read_len v pos of
           None \<Rightarrow> Some (Inl Cfg_get_undefined)
         | Some len \<Rightarrow>
             (case strcmp_eq (drop (pos + 4) v) str of
                None \<Rightarrow> Some (Inl Cfg_get_undefined)
              | Some same \<Rightarrow>
                  if same then Some (Inr (pos + 4 + length str + 1, pos + unat len))
                  else f v str (pos + unat len) pos_e))
      else Some (Inr (pos_e, pos_e))) = Some x"
  show "x \<noteq> Inl Cfg_get_undefined \<longrightarrow> cfg_find (v @ rest) str pos pos_e = Some x"
  proof
    assume x: "x \<noteq> Inl Cfg_get_undefined"
    show "cfg_find (v @ rest) str pos pos_e = Some x"
    proof (cases "pos < pos_e")
      case True
      then obtain len same where len: "read_len v pos = Some len" and same: "strcmp_eq (drop (pos + 4) v) str = Some same"
        using eq x by (auto split: option.splits)
      have "pos + 4 \<le> length v" using len by (auto simp: read_len_def split: if_splits)
      then have same': "strcmp_eq (drop (pos + 4) (v @ rest)) str = Some same" using strcmp_eq_more [OF same] by simp
      have "same \<or> cfg_find (v @ rest) str (pos + unat len) pos_e = Some x"
        using eq True len same x IH by (cases same) simp_all
      then show ?thesis using eq True read_len_more [OF len, of rest] len same same'
        by (subst cfg_find.simps) (auto simp del: drop_append)
    qed (use eq in \<open>simp add: cfg_find.simps\<close>)
  qed
qed

lemma takeWhile_more: "0 \<in> set w \<Longrightarrow> takeWhile ((\<noteq>) 0) (w @ rest) = takeWhile ((\<noteq>) (0 :: u8)) w"
  by (induction w) auto

lemma get_range_found_more:
  assumes "cfg_get_range cvt v name fb fe = Some r" and "r \<noteq> Inl Cfg_get_undefined"
    and f: "cfg_find v name fb fe = Some (Inr (b, e))" and f': "cfg_find (v @ rest) name fb fe = Some (Inr (b, e))"
  shows "cfg_get_range cvt (v @ rest) name fb fe = Some r"
proof -
  show ?thesis
  proof (cases "b = e")
    case False
    then have b: "b < length v" using assms f by (auto simp: cfg_get_range_def split: if_splits)
    then have d: "drop b (v @ rest) = drop b v @ rest" and n: "(v @ rest) ! b = v ! b" by (simp_all add: nth_append)
    show ?thesis
    proof (cases "v ! b = 0")
      case True
      then show ?thesis using assms f f' False b n by (simp add: cfg_get_range_def)
    next
      case nz: False
      then have "0 \<in> set (drop b v)" using assms f False b by (auto simp: cfg_get_range_def split: if_splits)
      then show ?thesis using assms f f' False b n nz by (simp add: cfg_get_range_def d takeWhile_more)
    qed
  qed (use assms in \<open>simp add: cfg_get_range_def\<close>)
qed

lemma cfg_get_range_more:
  assumes "cfg_get_range cvt v name fb fe = Some r" and "r \<noteq> Inl Cfg_get_undefined"
  shows "cfg_get_range cvt (v @ rest) name fb fe = Some r"
proof -
  obtain x where x: "cfg_find v name fb fe = Some x" "x \<noteq> Inl Cfg_get_undefined"
    using assms by (auto simp: cfg_get_range_def split: option.splits sum.splits)
  then have x': "cfg_find (v @ rest) name fb fe = Some x" using cfg_find_more [OF x(1)] by simp
  show ?thesis
  proof (cases x)
    case (Inl e)
    then show ?thesis using assms(1) x x' by (simp add: cfg_get_range_def)
  next
    case (Inr be)
    then obtain b e where f: "cfg_find v name fb fe = Some (Inr (b, e))" "cfg_find (v @ rest) name fb fe = Some (Inr (b, e))"
      using x x' by (cases be) simp
    then show ?thesis by (rule get_range_found_more [OF assms])
  qed
qed
section \<open>Looking into a section\<close>

lemma find_skip:
  assumes "list_all item_ok xs" and "length (concat (map encode_item xs)) < 2 ^ 32" and "plain name"
    and "name \<notin> item_key ` set xs" and "length (pre @ concat (map encode_item xs)) \<le> fe"
  shows "cfg_find (pre @ concat (map encode_item xs) @ post) name (length pre) fe
    = cfg_find (pre @ concat (map encode_item xs) @ post) name (length (pre @ concat (map encode_item xs))) fe"
  using assms
proof (induction xs arbitrary: pre)
  case (Cons i xs)
  let ?rest = "concat (map encode_item xs) @ post"
  have pos: "0 < length (encode_item i)" by (cases i) simp_all
  have "cfg_find (pre @ encode_item i @ ?rest) name (length pre) fe
      = cfg_find (pre @ encode_item i @ ?rest) name (length pre + length (encode_item i)) fe"
  proof -
    have "length pre < fe" using pos Cons.prems(5) unfolding list.map concat.simps length_append by arith
    then show ?thesis using Cons.prems by (subst find_first) auto
  qed
  also have "\<dots> = cfg_find ((pre @ encode_item i) @ ?rest) name (length ((pre @ encode_item i) @ concat (map encode_item xs))) fe"
    using Cons.IH [of "pre @ encode_item i"] Cons.prems by simp
  finally show ?case by simp
qed simp

lemma sub_get_items:
  assumes "list_all item_ok ys" and "length (concat (map encode_item ys)) < 2 ^ 32" and "plain name"
  shows "sub_get cvt (pre @ concat (map encode_item ys) @ post)
      (sub_config_new (length pre) (length (pre @ concat (map encode_item ys)))) name
    = Some (map_sum id cvt (lookup_items name ys))"
proof -
  have "map_sum id cvt (lookup_items name ys) \<noteq> Inl Cfg_get_undefined"
    by (simp add: lookup_items_def split: option.splits)
  from cfg_get_range_more [OF get_items [OF assms, of cvt pre] this, of post]
  show ?thesis by (simp add: sub_get_def sub_config_new_def)
qed

text \<open>Reading a length one byte early.\<close>

lemma rd32_shifted:
  "rd32 0 (ucast x) (ucast (drop_bit 8 x)) (ucast (drop_bit 16 x)) = push_bit 8 (x :: u32)"
proof (rule bit_word_eqI)
  fix n assume "n < LENGTH(32)"
  then have "n < 8 \<or> 8 \<le> n \<and> n < 16 \<or> 16 \<le> n \<and> n < 24 \<or> 24 \<le> n \<and> n < 32" by auto
  then show "bit (rd32 0 (ucast x) (ucast (drop_bit 8 x)) (ucast (drop_bit 16 x))) n = bit (push_bit 8 x) n"
    by (elim disjE) (auto simp add: rd32_def bit_simps)
qed

lemma unat_push_bit_8: "n < 2 ^ 24 \<Longrightarrow> unat (push_bit 8 (of_nat n :: u32)) = 256 * n"
  by (simp add: push_bit_eq_mult unat_word_ariths unat_of_nat)

lemma misaligned_find:
  assumes "n < 2 ^ 24" and "fe \<le> length pre + 256 * n" and "plain name" and "length pre < fe"
  shows "cfg_find (pre @ 0 # le32 (of_nat n) @ post) name (length pre) fe = Some (Inr (fe, fe))"
proof -
  let ?x = "of_nat n :: u32" and ?v = "pre @ 0 # le32 (of_nat n) @ post"
  have len: "read_len ?v (length pre) = Some (push_bit 8 ?x)"
    by (simp add: read_len_def le32_def nth_append rd32_shifted)
  have top: "ucast (drop_bit 24 ?x) = (0 :: u8)"
  proof -
    have "unat (drop_bit 24 ?x) = 0"
      unfolding unat_drop_bit_eq using assms(1) by (simp add: unat_of_nat drop_bit_eq_div)
    then show ?thesis by (simp add: unat_eq_zero)
  qed
  have "drop (length pre + 4) ?v = 0 # post" using top by (simp add: le32_def)
  moreover obtain c cs where "name = c # cs" "c \<noteq> 0" using assms(3) by (auto simp: plain_def neq_Nil_conv)
  ultimately have cmp: "strcmp_eq (drop (length pre + 4) ?v) name = Some False" by simp
  have behind: "cfg_find ?v name (length pre + 256 * n) fe = Some (Inr (fe, fe))"
    using assms(2) by (simp add: cfg_find.simps)
  show ?thesis using assms(4) len cmp unat_push_bit_8 [OF assms(1)] behind by (subst cfg_find.simps) simp
qed

section \<open>Properties\<close>



text \<open>
  \<open>get\<close> with a default value: the value of the option, or the default when there is no such
  option or when it is a section.
\<close>

theorem option_or_default:
  assumes "list_all item_ok xs" and "length (concat (map encode_item xs)) < 2 ^ 32" and "plain name"
  shows "\<exists>v. parse_config (concat (map render_item xs)) = Inr v \<and>
    cfg_get_or cvt v name dflt = Some (Inr (case lookup_items name xs of Inl e \<Rightarrow> dflt | Inr w \<Rightarrow> cvt w))"
  by (intro exI [of _ "concat (map encode_item xs)"] conjI parse_config_rendered [OF assms(1)] get_or_items [OF assms])

theorem option_or_default_witness:
  "\<exists>v. parse_config [97, 32, 49, 10] = Inr v \<and> cfg_get_or (\<lambda>s. s) v [98] [55] = Some (Inr [55])"
proof -
  let ?xs = "[Opt [97] [49]]"
  have h: "list_all item_ok ?xs" "length (concat (map encode_item ?xs)) < 2 ^ 32" "plain [98]"
    by (simp_all add: plain_def)
  have eqs: "concat (map render_item ?xs) = [97, 32, 49, 10]" "lookup_items [98] ?xs = Inl Value_not_found"
    by (simp_all add: lookup_items_def)
  from option_or_default [OF h, of "\<lambda>s. s" "[55]"] show ?thesis unfolding eqs by simp
qed

end
