(* ===== verification/Decimal.thy ===== *)
theory Decimal
  imports Logging
begin

text \<open>
  Numbers in messages: the decimal digits the streams and \<open>std::to_string\<close> print, and that they
  determine the number. Shared by the texts of exceptions.
\<close>

section \<open>Numbers as text\<close>

text \<open>\<open>std::to_string\<close> of an \<open>int\<close>.\<close>

definition int_string :: "int \<Rightarrow> string" where
  "int_string i = (if i < 0 then ''-'' @ decimal (nat (- i)) else decimal (nat i))"

text \<open>Reading the number back.\<close>

definition digit_of :: "char \<Rightarrow> nat" where
  "digit_of c = of_char c - 48"

definition digits_value :: "string \<Rightarrow> nat" where
  "digits_value = foldl (\<lambda>n c. 10 * n + digit_of c) 0"

lemma digit_of_char: "d < 10 \<Longrightarrow> digit_of (char_of (48 + d)) = d"
  by (simp add: digit_of_def of_char_of take_bit_eq_mod)

lemma digits_value_decimal [simp]: "digits_value (decimal n) = n"
proof (induction n rule: decimal.induct)
  case (1 n)
  then show ?case
    by (cases "n < 10") (subst decimal.simps, simp add: digits_value_def digit_of_char)+
qed

definition is_digit :: "char \<Rightarrow> bool" where
  "is_digit c \<longleftrightarrow> (\<exists>d < 10. c = char_of (48 + d :: nat))"

lemma decimal_digits: "\<forall>c \<in> set (decimal n). is_digit c"
proof (induction n rule: decimal.induct)
  case (1 n)
  have d: "is_digit (char_of (48 + n mod 10))" "n < 10 \<Longrightarrow> is_digit (char_of (48 + n))"
    unfolding is_digit_def by (intro exI [of _ "n mod 10"] exI [of _ n]; simp)+
  show ?case using 1 d by (subst decimal.simps) auto
qed

lemma of_char_digit: "is_digit c \<Longrightarrow> 48 \<le> (of_char c :: nat) \<and> of_char c < (58 :: nat)"
  by (auto simp: is_digit_def of_char_of take_bit_eq_mod)

lemma not_digit: "\<not> is_digit CHR ''-''" "\<not> is_digit CHR '',''"
  using of_char_digit [of "CHR ''-''"] of_char_digit [of "CHR '',''"] by auto

lemma int_string_chars: "\<forall>c \<in> set (int_string i). c \<noteq> CHR '',''"
  using decimal_digits not_digit(2) by (auto simp: int_string_def)

lemma decimal_no_sign: "decimal n \<noteq> CHR ''-'' # s"
  using decimal_digits [of n] not_digit(1) by auto

lemma int_string_inject: "int_string i = int_string j \<Longrightarrow> i = j"
proof -
  have inj: "m = n" if "decimal m = decimal n" for m n using digits_value_decimal that by metis
  assume "int_string i = int_string j"
  then show ?thesis
    using inj decimal_no_sign [of "nat i"] decimal_no_sign [of "nat j", symmetric]
    by (cases "i < 0"; cases "j < 0") (force simp: int_string_def)+
qed

end
