(* ===== verification/Config_Errors.thy ===== *)
theory Config_Errors
  imports Config_Addr Decimal
begin

text \<open>
  \<open>config.h\<close>, what the errors say: the texts of \<open>ParseError\<close>, and \<open>str2ipv4\<close>, the conversion that
  throws one. \<open>inet_pton\<close> is a parameter.
\<close>

section \<open>Texts\<close>

definition quoted :: "string \<Rightarrow> string" where
  "quoted s = [CHR 0x27] @ s @ [CHR 0x27]"

fun cfg_msg_text :: "cfg_msg \<Rightarrow> string" where
  "cfg_msg_text Too_many_strings = ''Too many strings for single option''"
| "cfg_msg_text Invalid_string_count = ''invalid string count before '' @ quoted ''{''"
| "cfg_msg_text Unmatching_brace = ''unmatching '' @ quoted ''}''"
| "cfg_msg_text Lacking_brace = ''Lacking '' @ quoted ''}''"

text \<open>\<open>ParseError(msg, ln)\<close> and its \<open>what\<close>.\<close>

definition parse_error_descr :: "string \<Rightarrow> nat \<Rightarrow> string" where
  "parse_error_descr msg ln = decimal ln @ '': '' @ msg"

fun cfg_what :: "cfg_exc \<Rightarrow> string option" where
  "cfg_what (Parse_error msg ln) = Some (parse_error_descr (cfg_msg_text msg) ln)"
| "cfg_what Cfg_undefined = None"

section \<open>Addresses\<close>

definition str2ipv4 :: "(bytes \<Rightarrow> u32 option) \<Rightarrow> string \<Rightarrow> string + u32" where
  "str2ipv4 inet_pton str =
     (case inet_pton (ascii str) of
        None \<Rightarrow> Inl (''Converting string '' @ quoted str @ '' to ipv4 failed'')
      | Some r \<Rightarrow> Inr r)"

text \<open>The conversion of values uses it for what follows \<open>ipv4:\<close>.\<close>

lemma cvt_val_u32_ipv4:
  "cvt_val_u32 inet_pton (ascii (''ipv4:'' @ str)) = (case str2ipv4 inet_pton str of Inl e \<Rightarrow> None | Inr r \<Rightarrow> Some r)"
  by (simp add: cvt_val_u32_def str2ipv4_def ascii_def split: option.splits)

section \<open>Properties\<close>

text \<open>The number at the beginning of a text.\<close>

definition line_of :: "string \<Rightarrow> nat" where
  "line_of w = digits_value (takeWhile is_digit w)"

lemma line_of_parse_error: "line_of (parse_error_descr msg ln) = ln"
proof -
  have "\<not> is_digit CHR '':''" using of_char_digit [of "CHR '':''"] by auto
  then have "takeWhile is_digit (parse_error_descr msg ln) = decimal ln"
    using decimal_digits [of ln] by (simp add: parse_error_descr_def takeWhile_append2)
  then show ?thesis by (simp add: line_of_def)
qed

text \<open>
  A text that does not parse is reported with the number of its line: what the exception says
  begins with a number of newlines that come before the place, and tells the three kinds of errors
  apart; no text makes the parser throw anything else.
\<close>

theorem parse_error_tells_line:
  assumes "parse_config data = Inl e"
  shows "\<exists>msg ln. msg \<in> {Invalid_string_count, Unmatching_brace, Lacking_brace} \<and>
    cfg_what e = Some (parse_error_descr (cfg_msg_text msg) ln) \<and>
    line_of (parse_error_descr (cfg_msg_text msg) ln) = ln \<and> ln \<le> newlines data \<and>
    (\<forall>e'. cfg_what e' = cfg_what e \<longrightarrow> e' = e)"
proof -
  obtain m n where e: "m \<in> {Invalid_string_count, Unmatching_brace, Lacking_brace}" "e = Parse_error m n" "n \<le> newlines data"
    using parse_config_errors [of data] assms by auto
  have "e' = e" if w: "cfg_what e' = cfg_what e" for e'
  proof (cases e')
    case (Parse_error m' n')
    then have eq: "parse_error_descr (cfg_msg_text m') n' = parse_error_descr (cfg_msg_text m) n" using w e(2) by simp
    then have "n' = n" using line_of_parse_error by metis
    moreover from this eq have "cfg_msg_text m' = cfg_msg_text m" by (simp add: parse_error_descr_def)
    then have "m' = m" by (cases m'; cases m) (simp_all add: quoted_def)
    ultimately show ?thesis using Parse_error e(2) by simp
  qed (use w e(2) in simp)
  then show ?thesis using e line_of_parse_error
    by (intro exI [of _ m] exI [of _ n] conjI) (simp_all del: cfg_msg_text.simps)
qed

text \<open>A closing brace too many, in the second line.\<close>

theorem parse_error_tells_line_witness:
  "\<exists>e. parse_config [10, 125] = Inl e \<and> cfg_what e = Some (decimal 1 @ '': unmatching '' @ quoted ''}'')"
proof -
  have p: "parse_config [10, 125] = Inl (Parse_error Unmatching_brace 1)"
    by (simp add: parse_config_def parser_init_def parse_loop.simps step_defs throw_error_def)
  have "cfg_what (Parse_error Unmatching_brace 1) = Some (decimal 1 @ '': unmatching '' @ quoted ''}'')"
    by (simp add: parse_error_descr_def)
  moreover from parse_error_tells_line [OF p] have "\<exists>w. cfg_what (Parse_error Unmatching_brace 1) = Some w" by blast
  ultimately show ?thesis using p by blast
qed

end
