(* ===== verification/Call_Check.thy ===== *)
theory Call_Check
  imports Decimal Tcp_Socket
begin

text \<open>
  \<open>err.h\<close>, \<open>net/call_check\<close>, \<open>crypto/call_check\<close> and the exceptions they throw: which results of
  a call are failures, and what the exception says. The texts of \<open>strerror\<close> and the numbers and
  texts of OpenSSL's errors are parameters.
\<close>

section \<open>Texts\<close>

text \<open>\<open>__AT__ " " #cmd\<close> of the macros.\<close>

definition AT :: "string \<Rightarrow> nat \<Rightarrow> string" where
  "AT file line_num = file @ '':'' @ decimal line_num"

definition cmd_at :: "string \<Rightarrow> nat \<Rightarrow> string \<Rightarrow> string" where
  "cmd_at file line_num cmd = AT file line_num @ '' '' @ cmd"

section \<open>err.h\<close>

datatype sys_error = Sys_error string

primrec sys_what :: "sys_error \<Rightarrow> string" where
  "sys_what (Sys_error descr) = descr"

definition serr_int :: "string \<Rightarrow> string \<Rightarrow> int \<Rightarrow> string \<Rightarrow> sys_error" where
  "serr_int descr cmd ret_val errno_text =
     Sys_error (cmd @ '': '' @ descr @ '' returned '' @ int_string ret_val @ '', errno: '' @ errno_text)"

definition serr_bool :: "string \<Rightarrow> string \<Rightarrow> string \<Rightarrow> sys_error" where
  "serr_bool descr cmd errno_text = Sys_error (cmd @ '': '' @ descr @ '' failed, errno: '' @ errno_text)"

definition perr :: "string \<Rightarrow> string \<Rightarrow> sys_error" where
  "perr descr cmd = Sys_error (cmd @ '': '' @ descr @ '' returned NULL'')"

definition ferr :: "string \<Rightarrow> string \<Rightarrow> sys_error" where
  "ferr descr cmd = Sys_error (cmd @ '': '' @ descr @ '' failed'')"

text \<open>\<open>_scall\<close> is overloaded: the static type of the result decides what a failure is.\<close>

definition sys_scall_int :: "string \<Rightarrow> string \<Rightarrow> int \<Rightarrow> string \<Rightarrow> sys_error option" where
  "sys_scall_int descr cmd ret_val errno_text =
     (if ret_val \<noteq> 0 then Some (serr_int descr cmd ret_val errno_text) else None)"

definition sys_scall_bool :: "string \<Rightarrow> string \<Rightarrow> bool \<Rightarrow> string \<Rightarrow> sys_error option" where
  "sys_scall_bool descr cmd success errno_text =
     (if \<not> success then Some (serr_bool descr cmd errno_text) else None)"

datatype call_result = Int_result int | Bool_result bool

definition sys_scall :: "string \<Rightarrow> nat \<Rightarrow> string \<Rightarrow> string \<Rightarrow> call_result \<Rightarrow> string \<Rightarrow> sys_error option" where
  "sys_scall file line_num descr cmd r errno_text =
     (case r of
        Int_result i \<Rightarrow> sys_scall_int descr (cmd_at file line_num cmd) i errno_text
      | Bool_result b \<Rightarrow> sys_scall_bool descr (cmd_at file line_num cmd) b errno_text)"

definition pcall_check :: "string \<Rightarrow> string \<Rightarrow> 'p option \<Rightarrow> sys_error option" where
  "pcall_check descr cmd ptr = (if ptr = None then Some (perr descr cmd) else None)"

definition pcall :: "string \<Rightarrow> nat \<Rightarrow> string \<Rightarrow> string \<Rightarrow> 'p option \<Rightarrow> sys_error option" where
  "pcall file line_num descr cmd ptr = pcall_check descr (cmd_at file line_num cmd) ptr"

definition fcall_check :: "string \<Rightarrow> string \<Rightarrow> bool \<Rightarrow> sys_error option" where
  "fcall_check descr cmd cond = (if \<not> cond then Some (ferr descr cmd) else None)"

definition fcall :: "string \<Rightarrow> nat \<Rightarrow> string \<Rightarrow> string \<Rightarrow> bool \<Rightarrow> sys_error option" where
  "fcall file line_num descr cmd cond = fcall_check descr (cmd_at file line_num cmd) cond"

section \<open>net/call_check\<close>

definition conn_err :: "string \<Rightarrow> string \<Rightarrow> int \<Rightarrow> string \<Rightarrow> net_exc" where
  "conn_err descr cmd ret_val errno_text =
     Connection_error (cmd @ '': '' @ descr @ '' returned '' @ int_string ret_val @ '', errno: '' @ errno_text)"

definition conn_ccall :: "string \<Rightarrow> string \<Rightarrow> int \<Rightarrow> string \<Rightarrow> net_exc option" where
  "conn_ccall descr cmd ret_val errno_text =
     (if ret_val < 0 then Some (conn_err descr cmd ret_val errno_text) else None)"

text \<open>The sockets' \<open>ccall\<close> is this one without the details of the message.\<close>

lemma ccall_throws: "ccall descr r = None \<longleftrightarrow> conn_ccall descr cmd r errno_text = None"
  by (simp add: ccall_def conn_ccall_def)

section \<open>crypto/call_check\<close>

text \<open>\<open>SSLError\<close> takes the oldest error of OpenSSL's queue, 0 if there is none.\<close>

record ssl_error =
  se_descr :: string
  se_err :: int

definition ssl_error_of :: "string \<Rightarrow> int \<Rightarrow> ssl_error" where
  "ssl_error_of descr err = \<lparr>se_descr = descr, se_err = err\<rparr>"

definition ssl_error_new :: "string \<Rightarrow> int list \<Rightarrow> ssl_error \<times> int list" where
  "ssl_error_new descr queue =
     (case queue of [] \<Rightarrow> (ssl_error_of descr 0, []) | err # rest \<Rightarrow> (ssl_error_of descr err, rest))"

text \<open>\<open>__ssl_err\<close> of \<open>crypto/call_check.cc\<close>.\<close>

definition ssl_err :: "string \<Rightarrow> int list \<Rightarrow> ssl_error \<times> int list" where
  "ssl_err descr queue = ssl_error_new descr queue"

definition ssl_what :: "ssl_error \<Rightarrow> string" where
  "ssl_what e = se_descr e"

text \<open>\<open>ERR_error_string_n\<close> gets the size of the buffer.\<close>

definition ssl_describe :: "(int \<Rightarrow> nat \<Rightarrow> string) \<Rightarrow> ssl_error \<Rightarrow> string" where
  "ssl_describe ERR_error_string_n e = se_descr e @ '': '' @ ERR_error_string_n (se_err e) 256"

definition ssl_scall_int :: "string \<Rightarrow> int \<Rightarrow> int list \<Rightarrow> ssl_error option \<times> int list" where
  "ssl_scall_int descr ret_val queue =
     (if ret_val = 0 then (case ssl_err descr queue of (e, rest) \<Rightarrow> (Some e, rest)) else (None, queue))"

definition ssl_scall_ptr :: "string \<Rightarrow> 'p option \<Rightarrow> int list \<Rightarrow> ssl_error option \<times> int list" where
  "ssl_scall_ptr descr ret_val queue =
     (if ret_val = None then (case ssl_err descr queue of (e, rest) \<Rightarrow> (Some e, rest)) else (None, queue))"

definition ssl_scall :: "string \<Rightarrow> nat \<Rightarrow> string \<Rightarrow> string \<Rightarrow> int \<Rightarrow> int list \<Rightarrow> ssl_error option \<times> int list" where
  "ssl_scall file line_num descr cmd ret_val queue =
     ssl_scall_int (cmd_at file line_num cmd @ '': '' @ descr) ret_val queue"

section \<open>Properties\<close>

text \<open>The number in a message is the result, whatever the texts around it.\<close>

lemma message_number:
  assumes "p @ int_string i @ '', errno: '' @ e = p @ int_string j @ '', errno: '' @ e'"
  shows "i = j"
proof -
  have "takeWhile (\<lambda>c. c \<noteq> CHR '','') (int_string i @ '', errno: '' @ e) = int_string i" for i e
    using int_string_chars [of i] by (simp add: takeWhile_append2)
  with assms show ?thesis by (metis int_string_inject same_append_eq)
qed

text \<open>
  The three families of checked calls disagree on failures: \<open>err.h\<close> accepts the result 0 only,
  the network every result from 0 up, OpenSSL's everything but 0, negative results included. A
  message tells the result: two failures of a call that returned different numbers have different
  messages.
\<close>

theorem call_checks_disagree:
  "(sys_scall_int d c r e = None \<longleftrightarrow> r = 0) \<and> (sys_scall_bool d c b e = None \<longleftrightarrow> b) \<and>
   (conn_ccall d c r e = None \<longleftrightarrow> r \<ge> 0) \<and> (fst (ssl_scall_int d r q) = None \<longleftrightarrow> r \<noteq> 0) \<and>
   (serr_int d c r e = serr_int d c r' e' \<longrightarrow> r = r') \<and> (conn_err d c r e = conn_err d c r' e' \<longrightarrow> r = r') \<and>
   (r < 0 \<longrightarrow> sys_scall_int d c r e \<noteq> None \<and> conn_ccall d c r e \<noteq> None \<and> ssl_scall_int d r q = (None, q)) \<and>
   (0 < r \<longrightarrow> sys_scall_int d c r e \<noteq> None \<and> conn_ccall d c r e = None \<and> ssl_scall_int d r q = (None, q))"
  using message_number [of "c @ '': '' @ d @ '' returned ''" r e r' e']
  by (auto simp: sys_scall_int_def sys_scall_bool_def conn_ccall_def ssl_scall_int_def serr_int_def conn_err_def
      split: prod.splits)

text \<open>The result 1 is a failure for \<open>err.h\<close> and none for the network.\<close>

theorem call_checks_disagree_witness:
  "sys_scall_int ''send'' ''send(fd)'' 1 ''Success'' \<noteq> None \<and> conn_ccall ''send'' ''send(fd)'' 1 ''Success'' = None"
  using call_checks_disagree [of "''send''" "''send(fd)''" 1 "''Success''" True] by simp

end
