(* ===== verification/Peer_Thread.thy ===== *)
theory Peer_Thread
  imports Channel_Properties
begin

text \<open>
  \<open>conn/peers.cc\<close>: \<open>peer_handle_thread\<close>, the loop that serves a connection, and the message types
  of \<open>conn/proto.h\<close>. A round that needs more results of \<open>SSL_read\<close> leaves the thread waiting.
\<close>

section \<open>Message types\<close>

datatype message_type = PING | GET_PEER_INFO | GET_APP_INFO | OPEN_CHANNEL | CLOSE_CHANNEL | CHANNEL_START_NUM

fun message_type_value :: "message_type \<Rightarrow> u32" where
  "message_type_value PING = 0"
| "message_type_value GET_PEER_INFO = 1"
| "message_type_value GET_APP_INFO = 2"
| "message_type_value OPEN_CHANNEL = 3"
| "message_type_value CLOSE_CHANNEL = 4"
| "message_type_value CHANNEL_START_NUM = push_bit 16 1"

lemma message_type_value_inject: "message_type_value a = message_type_value b \<Longrightarrow> a = b"
  by (cases a; cases b) simp_all

section \<open>The loop\<close>

lemma ssl_read_loop_shrinks:
  "ssl_read_loop results stream n buf = Some (Inr (b, s, rs)) \<Longrightarrow>
    length rs \<le> length results \<and> (length buf < n \<longrightarrow> length rs < length results)"
proof (induction results stream n buf rule: ssl_read_loop.induct)
  case (1 results stream n buf)
  show ?case
  proof (cases "length buf < n")
    case True
    then obtain r rs1 where results: "results = r # rs1"
      using "1.prems" by (subst (asm) ssl_read_loop.simps) (auto split: list.splits)
    let ?n = "min (nat r) (n - length buf)"
    have r: "\<not> r \<le> 0" "\<not> length stream < ?n" and
      rest: "ssl_read_loop rs1 (drop ?n stream) n (buf @ take ?n stream) = Some (Inr (b, s, rs))"
      using "1.prems" True results by (subst (asm) ssl_read_loop.simps, simp add: Let_def split: if_splits)+
    from "1.IH" [OF True results r(1) refl r(2) rest] show ?thesis using results by simp
  next
    case False
    then show ?thesis using "1.prems" by (simp add: ssl_read_loop.simps)
  qed
qed

lemma round_shrinks:
  assumes "peer_handle_round malloc hs pid results stream = Some (Inr (calls, stream', rs))"
  shows "length rs < length results"
proof -
  obtain hdr where "SSLReadAllData results stream 8 = Some (Inr (hdr, stream', rs))"
    using assms by (auto simp: peer_handle_round_def Let_def split: option.splits sum.splits prod.splits bool.splits)
  then show ?thesis using ssl_read_loop_shrinks by (fastforce simp: SSLReadAllData_def)
qed

text \<open>
  The calls of handlers, and how the thread ended: with an exception, or \<open>None\<close> while it waits.
  The memory \<open>malloc\<close> returns may differ from round to round.
\<close>

function peer_handle_thread ::
  "(nat \<Rightarrow> u32 \<Rightarrow> bytes option) \<Rightarrow> nat \<Rightarrow> 'f handlers \<Rightarrow> peer_id \<Rightarrow> int list \<Rightarrow> bytes
    \<Rightarrow> 'f handler_call list \<times> conn_exc option" where
  "peer_handle_thread malloc k hs pid results stream =
     (case peer_handle_round (malloc k) hs pid results stream of
        None \<Rightarrow> ([], None)
      | Some (Inl e) \<Rightarrow> ([], Some e)
      | Some (Inr (calls, stream', rs)) \<Rightarrow>
          (case peer_handle_thread malloc (k + 1) hs pid rs stream' of (calls', e) \<Rightarrow> (calls @ calls', e)))"
  by pat_completeness auto
termination
  by (relation "measure (\<lambda>(malloc, k, hs, pid, results, stream). length results)") (auto dest: round_shrinks)

declare peer_handle_thread.simps [simp del]

section \<open>Messages without payload\<close>

lemma accepted_round:
  assumes "um_find hs (mh_type h) = Some g" and "mh_size h \<le> ch_max_data_size g" and "malloc (mh_size h) = Some garbage"
    and "\<forall>r \<in> set results. 0 < r" and "8 \<le> length results"
  shows "\<exists>rs used. peer_handle_round malloc hs pid results (header_bytes h @ rest)
      = Some (Inr ([(ch_on_data g, ch_arg g, Some pid, garbage, mh_size h)], rest, rs)) \<and>
    results = used @ rs \<and> length used \<le> 8"
proof -
  have "8 \<le> length (header_bytes h @ rest)" by simp
  from SSLReadAllData_spec [OF assms(4,5) this] obtain rs used where
    r: "SSLReadAllData results (header_bytes h @ rest) 8 = Some (Inr (header_bytes h, rest, rs))"
    "results = used @ rs" "length used \<le> 8" by auto
  have hd: "header_of (header_bytes h) = h" using header_roundtrip [of h "[]"] by simp
  have "global_handle_data hs pid (mh_type h) garbage (mh_size h)
      = Inr (True, [(ch_on_data g, ch_arg g, Some pid, garbage, mh_size h)])"
    using gh.accepted [of "(hs, pid)" "mh_type h" g "mh_size h" garbage] assms(1,2) by simp
  then show ?thesis using r hd assms(3) by (simp add: peer_handle_round_def)
qed

text \<open>The calls of handlers for a header, and those for a list of them.\<close>

definition dispatched :: "'f handlers \<Rightarrow> peer_id \<Rightarrow> bytes \<Rightarrow> message_header \<Rightarrow> 'f handler_call list" where
  "dispatched hs pid garbage h =
     (case um_find hs (mh_type h) of
        None \<Rightarrow> []
      | Some g \<Rightarrow> [(ch_on_data g, ch_arg g, Some pid, garbage, mh_size h)])"

fun dispatched_all :: "'f handlers \<Rightarrow> peer_id \<Rightarrow> bytes list \<Rightarrow> message_header list \<Rightarrow> 'f handler_call list" where
  "dispatched_all hs pid (m # ms) (h # hdrs) = dispatched hs pid m h @ dispatched_all hs pid ms hdrs"
| "dispatched_all hs pid _ _ = []"

definition takes :: "'f handlers \<Rightarrow> message_header \<Rightarrow> bool" where
  "takes hs h \<longleftrightarrow> (case um_find hs (mh_type h) of None \<Rightarrow> False | Some g \<Rightarrow> mh_size h \<le> ch_max_data_size g)"

text \<open>\<open>ms\<close> are the pieces of memory \<open>malloc\<close> returns for the headers.\<close>

definition allocates :: "(nat \<Rightarrow> u32 \<Rightarrow> bytes option) \<Rightarrow> nat \<Rightarrow> message_header list \<Rightarrow> bytes list \<Rightarrow> bool" where
  "allocates malloc k hdrs ms \<longleftrightarrow> map2 (\<lambda>j h. malloc j (mh_size h)) [k..<k + length hdrs] hdrs = map Some ms"

lemma allocates_Cons:
  "allocates malloc k (h # hdrs) ms \<longleftrightarrow>
    (\<exists>m ms'. ms = m # ms' \<and> malloc k (mh_size h) = Some m \<and> allocates malloc (Suc k) hdrs ms')"
proof -
  have "[k..<k + length (h # hdrs)] = k # [Suc k..<Suc k + length hdrs]" by (simp add: upt_conv_Cons del: upt_Suc)
  then show ?thesis by (auto simp: allocates_def Cons_eq_map_conv map_eq_Cons_conv)
qed

lemma thread_headers:
  assumes "\<forall>h \<in> set hdrs. takes hs h" and "allocates malloc k hdrs ms"
    and "\<forall>r \<in> set results. 0 < r" and "8 * length hdrs \<le> length results"
  shows "\<exists>rs used. results = used @ rs \<and> length used \<le> 8 * length hdrs \<and>
    peer_handle_thread malloc k hs pid results (concat (map header_bytes hdrs) @ rest) =
      (case peer_handle_thread malloc (k + length hdrs) hs pid rs rest of
         (calls, e) \<Rightarrow> (dispatched_all hs pid ms hdrs @ calls, e))"
  using assms
proof (induction hdrs arbitrary: k ms results)
  case Nil
  then show ?case by (intro exI [of _ results] exI [of _ "[]"]) (simp split: prod.splits)
next
  case (Cons h hdrs)
  let ?rest = "concat (map header_bytes hdrs) @ rest"
  obtain g where g: "um_find hs (mh_type h) = Some g" "mh_size h \<le> ch_max_data_size g"
    using Cons.prems(1) by (auto simp: takes_def split: option.splits)
  obtain m ms' where ms: "ms = m # ms'" and m: "malloc k (mh_size h) = Some m" and tail: "allocates malloc (Suc k) hdrs ms'"
    using Cons.prems(2) by (auto simp: allocates_Cons)
  obtain rs used where
    1: "peer_handle_round (malloc k) hs pid results (header_bytes h @ ?rest)
      = Some (Inr (dispatched hs pid m h, ?rest, rs))" "results = used @ rs" "length used \<le> 8"
    using accepted_round [where malloc = "malloc k" and pid = pid and rest = ?rest, OF g m Cons.prems(3)] Cons.prems(4) g
    by (auto simp: dispatched_def)
  obtain rs' used' where
    2: "rs = used' @ rs'" "length used' \<le> 8 * length hdrs"
    "peer_handle_thread malloc (Suc k) hs pid rs ?rest =
      (case peer_handle_thread malloc (Suc k + length hdrs) hs pid rs' rest of
         (calls, e) \<Rightarrow> (dispatched_all hs pid ms' hdrs @ calls, e))"
    using Cons.IH [OF _ tail, of rs] Cons.prems 1 by auto
  have "peer_handle_thread malloc k hs pid results (header_bytes h @ ?rest) =
      (case peer_handle_thread malloc (Suc k + length hdrs) hs pid rs' rest of
         (calls, e) \<Rightarrow> (dispatched_all hs pid ms (h # hdrs) @ calls, e))"
    by (subst peer_handle_thread.simps) (simp add: 1(1) 2(3) ms split: prod.splits)
  then show ?case using 1(2,3) 2(1,2)
    by (intro exI [of _ rs'] exI [of _ "used @ used'"]) simp
qed

text \<open>What the thread does with nothing to read, and with a header no handler is registered for.\<close>

lemma thread_waits: "rs \<noteq> [] \<Longrightarrow> 0 < hd rs \<Longrightarrow> peer_handle_thread malloc k hs pid rs [] = ([], None)"
  by (cases rs; subst peer_handle_thread.simps)
    (simp_all add: peer_handle_round_def SSLReadAllData_def ssl_read_loop.simps Let_def)

lemma thread_unknown:
  assumes "um_find hs (mh_type h) = None" and "malloc k (mh_size h) \<noteq> None"
    and "\<forall>r \<in> set rs. 0 < r" and "8 \<le> length rs"
  shows "peer_handle_thread malloc k hs pid rs (header_bytes h @ rest) = ([], Some No_handler_for_data)"
proof -
  have "8 \<le> length (header_bytes h @ rest)" by simp
  from SSLReadAllData_spec [OF assms(3,4) this] obtain rs2 where
    "SSLReadAllData rs (header_bytes h @ rest) 8 = Some (Inr (header_bytes h, rest, rs2))" by auto
  moreover have "header_of (header_bytes h) = h" using header_roundtrip [of h "[]"] by simp
  moreover have "global_handle_data hs pid (mh_type h) d (mh_size h) = Inr (False, [])" for d
    using gh.absent [of "(hs, pid)" "mh_type h" d] assms(1) by simp
  ultimately show ?thesis using assms(2) by (subst peer_handle_thread.simps) (auto simp: peer_handle_round_def)
qed

section \<open>Properties\<close>

text \<open>
  (C12) The serving thread dispatches messages that consist of a header only, each once and in order,
  however \<open>SSL_read\<close> splits them, and then waits for more. It does not return: a header of a type
  without handler ends it with the exception "No handler for data", after the calls so far.
\<close>

theorem peer_thread_dispatches:
  assumes "\<forall>h \<in> set hdrs. takes hs h" and "allocates malloc 0 hdrs ms"
    and "\<forall>r \<in> set results. 0 < r" and "8 * length hdrs + 8 \<le> length results"
    and "um_find hs (mh_type h) = None" and "malloc (length hdrs) (mh_size h) \<noteq> None"
  shows "peer_handle_thread malloc 0 hs pid results (concat (map header_bytes hdrs))
      = (dispatched_all hs pid ms hdrs, None) \<and>
    peer_handle_thread malloc 0 hs pid results (concat (map header_bytes hdrs) @ header_bytes h @ rest)
      = (dispatched_all hs pid ms hdrs, Some No_handler_for_data)"
proof
  have "8 * length hdrs \<le> length results" using assms(4) by simp
  note run = thread_headers [OF assms(1-3) this, of pid]
  obtain rs used where 1: "results = used @ rs" "length used \<le> 8 * length hdrs"
    "peer_handle_thread malloc 0 hs pid results (concat (map header_bytes hdrs) @ []) =
      (case peer_handle_thread malloc (0 + length hdrs) hs pid rs [] of
         (calls, e) \<Rightarrow> (dispatched_all hs pid ms hdrs @ calls, e))" using run [of "[]"] by blast
  then have "rs \<noteq> []" "0 < hd rs" using assms(3,4) by (cases rs; auto)+
  from thread_waits [where malloc = malloc and hs = hs and pid = pid and k = "length hdrs", OF this] 1(3)
  show "peer_handle_thread malloc 0 hs pid results (concat (map header_bytes hdrs)) = (dispatched_all hs pid ms hdrs, None)"
    by simp
  obtain rs used where 2: "results = used @ rs" "length used \<le> 8 * length hdrs"
    "peer_handle_thread malloc 0 hs pid results (concat (map header_bytes hdrs) @ header_bytes h @ rest) =
      (case peer_handle_thread malloc (0 + length hdrs) hs pid rs (header_bytes h @ rest) of
         (calls, e) \<Rightarrow> (dispatched_all hs pid ms hdrs @ calls, e))" using run [of "header_bytes h @ rest"] by blast
  then have "\<forall>r \<in> set rs. 0 < r" "8 \<le> length rs" using assms(3,4) by auto
  from thread_unknown [where malloc = malloc, OF assms(5,6) this] 2(3)
  show "peer_handle_thread malloc 0 hs pid results (concat (map header_bytes hdrs) @ header_bytes h @ rest)
      = (dispatched_all hs pid ms hdrs, Some No_handler_for_data)" by simp
qed

text \<open>Two pings, then a request nobody handles.\<close>

theorem peer_thread_dispatches_witness:
  "fst (peer_handle_thread (\<lambda>k n. Some []) 0
      [(0, \<lparr>ch_max_data_size = 64, ch_on_data = ''ping'', ch_arg = 0, ch_name = ''p''\<rparr>)] peer_id_zero (replicate 24 3)
      (concat (map header_bytes [\<lparr>mh_size = 0, mh_type = 0\<rparr>, \<lparr>mh_size = 0, mh_type = 0\<rparr>]) @
       header_bytes \<lparr>mh_size = 0, mh_type = 1\<rparr> @ [])) = replicate 2 (''ping'', 0, Some peer_id_zero, [], 0)"
proof -
  let ?m = "\<lambda>(k :: nat) (n :: u32). Some ([] :: bytes)"
  let ?hs = "[(0, \<lparr>ch_max_data_size = 64, ch_on_data = ''ping'', ch_arg = 0, ch_name = ''p''\<rparr>)]"
  let ?p = "\<lparr>mh_size = 0, mh_type = 0\<rparr>" and ?q = "\<lparr>mh_size = 0, mh_type = 1\<rparr>"
  have h: "\<forall>h \<in> set [?p, ?p]. takes ?hs h" "allocates ?m 0 [?p, ?p] [[], []]"
    "\<forall>r \<in> set (replicate 24 3). 0 < (r :: int)" "8 * length [?p, ?p] + 8 \<le> length (replicate 24 (3 :: int))"
    "um_find ?hs (mh_type ?q) = None" "?m (length [?p, ?p]) (mh_size ?q) \<noteq> None"
    by (simp_all add: takes_def allocates_def upt_rec)
  from peer_thread_dispatches [where malloc = ?m, OF h, of peer_id_zero "[]"] show ?thesis
    by (simp add: dispatched_def numeral_2_eq_2 del: list.map concat.simps append.simps)
qed

end
