(* ===== verification/Bit_Fragment.thy ===== *)
theory Bit_Fragment
  imports Bit_Reader
begin

text \<open>
  \<open>proto/bit_reader.h\<close>, the rest of the reader: \<open>read_fragment\<close>, which makes a reader for a part
  of the buffer, and the destructor. \<open>read_fragment\<close> is declared \<open>void\<close> and does not compile when
  it is used; it is modelled as returning the reader it builds. Buffers are addresses here where
  it matters who frees them.
\<close>

section \<open>Fragments\<close>

definition read_fragment :: "nat \<Rightarrow> 'n::len word bit_reader \<Rightarrow> 'n word bit_reader option" where
  "read_fragment bit_size r =
     reader_new_shifted (drop (br_items_read r) (br_buf r)) bit_size (br_cur_item_bits r)"

text \<open>The address the fragment gets for its buffer, \<open>elem_bytes\<close> being \<open>sizeof(Tn)\<close>.\<close>

definition fragment_address :: "nat \<Rightarrow> nat \<Rightarrow> 'n::len word bit_reader \<Rightarrow> nat" where
  "fragment_address elem_bytes buf r = buf + elem_bytes * br_items_read r"

text \<open>\<open>~BitBufferReader\<close>: the addresses it frees.\<close>

definition reader_destroy :: "bool \<Rightarrow> nat option \<Rightarrow> nat list" where
  "reader_destroy free_buf buf = (if free_buf then (case buf of None \<Rightarrow> [] | Some p \<Rightarrow> [p]) else [])"

lemma reader_new_shifted_0: "reader_new_shifted buf n 0 = reader_new buf n"
  by (simp add: reader_new_shifted_def reader_new_def promoted_def Let_def)

lemma fragment_first_read:
  fixes r :: "'n::len word bit_reader"
  assumes "LENGTH('n) \<le> 16" and "br_items_read r < length (br_buf r)"
    and "br_cur_item_bits r < LENGTH('n)" and "n \<le> LENGTH('n) - br_cur_item_bits r" and "n \<le> size'" and "0 < n"
  shows "\<exists>f. read_fragment size' r = Some f \<and>
    fst (read_uint n f) = Inr (ucast (take_bit (n + 1) (drop_bit (br_cur_item_bits r) (br_buf r ! br_items_read r))) :: 'o::len word)"
proof -
  let ?c = "br_cur_item_bits r" and ?buf = "drop (br_items_read r) (br_buf r)"
  have sh: "?c < promoted LENGTH('n)" using assms(1,3) by (simp add: promoted_def)
  have ne: "?buf \<noteq> []" and hd: "?buf ! 0 = br_buf r ! br_items_read r" using assms(2) by simp_all
  let ?f = "\<lparr>br_buf = ?buf, br_items_read = 1, br_bit_size = size' + ?c, br_cur_item = drop_bit ?c (?buf ! 0),
      br_cur_item_bits = (if size' + ?c > LENGTH('n) then LENGTH('n) else size' + ?c) - ?c\<rparr>"
  have f: "read_fragment size' r = Some ?f"
    using sh ne assms(5,6) by (simp add: read_fragment_def reader_new_shifted_def Let_def)
  have "read_uint n ?f = (Inr (ucast (take_bit (n + 1) (br_cur_item ?f)) :: 'o word),
      ?f\<lparr>br_cur_item := drop_bit n (br_cur_item ?f), br_cur_item_bits := br_cur_item_bits ?f - n\<rparr>)"
    using assms by (intro read_uint_inside_element) auto
  then show ?thesis using f hd by simp
qed

section \<open>Properties\<close>

text \<open>
  A fragment taken at the end of an element reads what follows: it is the reader of the remaining
  elements. With bits of the current element left, they are skipped, and as many bits of the next
  element with them: the first value read comes from inside the next element. A reader that frees
  its buffer makes a fragment that frees it again, or frees an address inside it.
\<close>

theorem fragment_position:
  fixes r :: "'n::len word bit_reader"
  assumes "LENGTH('n) \<le> 16" and "br_items_read r < length (br_buf r)"
    and "br_cur_item_bits r < LENGTH('n)" and "n \<le> LENGTH('n) - br_cur_item_bits r" and "n \<le> size'" and "0 < n"
  shows "(br_cur_item_bits r = 0 \<longrightarrow> read_fragment size' r = reader_new (drop (br_items_read r) (br_buf r)) size') \<and>
    (\<exists>f. read_fragment size' r = Some f \<and>
      fst (read_uint n f) = Inr (ucast (take_bit (n + 1) (drop_bit (br_cur_item_bits r) (br_buf r ! br_items_read r))) :: 'o::len word)) \<and>
    reader_destroy True (Some p) @ reader_destroy True (Some (fragment_address b p r)) = [p, p + b * br_items_read r]"
  using fragment_first_read [OF assms]
  by (simp add: read_fragment_def reader_new_shifted_0 reader_destroy_def fragment_address_def)

text \<open>After five bits of the first byte, the fragment starts three bits into the second one.\<close>

theorem fragment_position_witness:
  "\<exists>r f. snd (read_uint 5 (\<lparr>br_buf = [0xFF, 0xF0 :: u8], br_items_read = 1, br_bit_size = 16, br_cur_item = 0xFF,
      br_cur_item_bits = 8\<rparr>) :: (read_exc + u64) \<times> _) = r \<and> read_fragment 8 r = Some f \<and>
    fst (read_uint 2 f) = Inr (6 :: u64)"
proof -
  let ?s = "\<lparr>br_buf = [0xFF, 0xF0 :: u8], br_items_read = 1, br_bit_size = 16, br_cur_item = 0xFF, br_cur_item_bits = 8\<rparr>"
  let ?r = "?s\<lparr>br_cur_item := drop_bit 5 0xFF, br_cur_item_bits := 3\<rparr>"
  have r: "snd (read_uint 5 ?s :: (read_exc + u64) \<times> _) = ?r" by (subst read_uint_inside_element) simp_all
  have h: "LENGTH(8) \<le> 16" "br_items_read ?r < length (br_buf ?r)" "br_cur_item_bits ?r < LENGTH(8)"
    "2 \<le> LENGTH(8) - br_cur_item_bits ?r" "(2 :: nat) \<le> 8" "(0 :: nat) < 2" by simp_all
  have v: "ucast (take_bit (2 + 1) (drop_bit (br_cur_item_bits ?r) (br_buf ?r ! br_items_read ?r))) = (6 :: u64)"
    by (simp add: drop_bit_eq_div take_bit_eq_mod)
  from fragment_position [where ?'o = 64, OF h, THEN conjunct2, THEN conjunct1] r v show ?thesis by auto
qed

end
