(* ===== verification/Control.thy ===== *)
theory Control
  imports Prelude
begin

text \<open>
  \<open>control.h\<close>: the control structures of the data channel as they lie in memory. They are packed,
  so a structure is its members' bytes one after the other, the low byte first; the empty base
  \<open>ControlStruct\<close> takes no room. \<open>PubKey\<close> and \<open>SymKey\<close> end in data whose length is a member.
\<close>

section \<open>Types\<close>

definition KEY_ANY :: u32 where
  "KEY_ANY = - 1"

datatype control_type =
    ERR_INFO | SHIFT_RANGE_REQUEST | SHIFT_RANGE_INFO | DATA_SEQ_RANGE | PUB_KEY | SYM_KEY | DATA_ENC_INFO

fun control_value :: "control_type \<Rightarrow> u32" where
  "control_value ERR_INFO = 9"
| "control_value SHIFT_RANGE_REQUEST = 10"
| "control_value SHIFT_RANGE_INFO = 11"
| "control_value DATA_SEQ_RANGE = 12"
| "control_value PUB_KEY = 13"
| "control_value SYM_KEY = 14"
| "control_value DATA_ENC_INFO = 15"

lemma control_value_inject: "control_value a = control_value b \<Longrightarrow> a = b"
  by (cases a; cases b) simp_all

datatype err_type = UNKNOWN_CONTROL

fun err_value :: "err_type \<Rightarrow> u32" where
  "err_value UNKNOWN_CONTROL = 0"

definition err_of :: "u32 \<Rightarrow> err_type option" where
  "err_of v = (if v = 0 then Some UNKNOWN_CONTROL else None)"

record err_info =
  ei_err :: err_type

record shift_range =
  seq_start :: u16
  seq_end :: u16

record shift_range_info =
  old_seq_start :: u16
  old_seq_end :: u16
  new_seq_start :: u16
  new_seq_end :: u16

record key_head =
  conn_key_id :: u32
  key_type :: u32
  key_size :: u32

record data_enc_info =
  sym_key_id :: u32
  random_prefix_size :: u32
  sgn_key_id :: u32
  checksum_type :: u32
  checksum_size :: u32
  sgn_type :: u32
  sgn_size :: u32

text \<open>\<open>ShiftRangeRequest\<close> and \<open>DataSeqRange\<close> have the same members, and so have \<open>PubKey\<close> and \<open>SymKey\<close>.\<close>

datatype control_struct =
    Err_info err_info
  | Shift_range_request shift_range
  | Shift_range_info shift_range_info
  | Data_seq_range shift_range
  | Pub_key key_head bytes
  | Sym_key key_head bytes
  | Data_enc_info data_enc_info

section \<open>Sizes\<close>

text \<open>\<open>sizeof\<close>, which does not count the flexible member, and the static type of a structure.\<close>

fun control_type_of :: "control_struct \<Rightarrow> control_type" where
  "control_type_of (Err_info _) = ERR_INFO"
| "control_type_of (Shift_range_request _) = SHIFT_RANGE_REQUEST"
| "control_type_of (Shift_range_info _) = SHIFT_RANGE_INFO"
| "control_type_of (Data_seq_range _) = DATA_SEQ_RANGE"
| "control_type_of (Pub_key _ _) = PUB_KEY"
| "control_type_of (Sym_key _ _) = SYM_KEY"
| "control_type_of (Data_enc_info _) = DATA_ENC_INFO"

fun control_sizeof :: "control_type \<Rightarrow> nat" where
  "control_sizeof SHIFT_RANGE_INFO = 8"
| "control_sizeof PUB_KEY = 12"
| "control_sizeof SYM_KEY = 12"
| "control_sizeof DATA_ENC_INFO = 28"
| "control_sizeof _ = 4"

text \<open>
  \<open>data_size\<close> is not virtual: called on the structure's own type it is the member, called through
  the base it is 0. \<open>ShiftRangeInfo\<close> does not have the base and has no \<open>data_size\<close>: \<open>None\<close>.
\<close>

definition base_data_size :: "control_struct \<Rightarrow> u32" where
  "base_data_size s = 0"

fun data_size :: "control_struct \<Rightarrow> u32 option" where
  "data_size (Pub_key k _) = Some (key_size k)"
| "data_size (Sym_key k _) = Some (key_size k)"
| "data_size (Shift_range_info _) = None"
| "data_size s = Some (base_data_size s)"

section \<open>Memory\<close>

fun mem_words16 :: "bytes \<Rightarrow> u16 list" where
  "mem_words16 (a # b # r) = rd16 a b # mem_words16 r"
| "mem_words16 _ = []"

fun mem_words32 :: "bytes \<Rightarrow> u32 list" where
  "mem_words32 (a # b # c # d # r) = rd32 a b c d # mem_words32 r"
| "mem_words32 _ = []"

definition shift_range_words :: "shift_range \<Rightarrow> u16 list" where
  "shift_range_words r = [seq_start r, seq_end r]"

definition key_head_words :: "key_head \<Rightarrow> u32 list" where
  "key_head_words k = [conn_key_id k, key_type k, key_size k]"

fun control_bytes :: "control_struct \<Rightarrow> bytes" where
  "control_bytes (Err_info e) = le32 (err_value (ei_err e))"
| "control_bytes (Shift_range_request r) = concat (map le16 (shift_range_words r))"
| "control_bytes (Shift_range_info i) =
     concat (map le16 [old_seq_start i, old_seq_end i, new_seq_start i, new_seq_end i])"
| "control_bytes (Data_seq_range r) = concat (map le16 (shift_range_words r))"
| "control_bytes (Pub_key k data) = concat (map le32 (key_head_words k)) @ data"
| "control_bytes (Sym_key k data) = concat (map le32 (key_head_words k)) @ data"
| "control_bytes (Data_enc_info i) =
     concat (map le32 [sym_key_id i, random_prefix_size i, sgn_key_id i, checksum_type i, checksum_size i,
       sgn_type i, sgn_size i])"

text \<open>
  Memory read as a structure of a given type; the members of the flexible ones are as many bytes
  as \<open>data_size\<close> says. \<open>None\<close>: the memory is too short, or holds no value of the enumeration.
\<close>

definition shift_range_of :: "bytes \<Rightarrow> shift_range option" where
  "shift_range_of mem = (case mem_words16 (take 4 mem) of [a, b] \<Rightarrow> Some \<lparr>seq_start = a, seq_end = b\<rparr> | _ \<Rightarrow> None)"

definition key_of :: "bytes \<Rightarrow> (key_head \<times> bytes) option" where
  "key_of mem =
     (case mem_words32 (take 12 mem) of
        [a, b, c] \<Rightarrow>
          if unat c \<le> length mem - 12
          then Some (\<lparr>conn_key_id = a, key_type = b, key_size = c\<rparr>, take (unat c) (drop 12 mem)) else None
      | _ \<Rightarrow> None)"

fun control_of :: "control_type \<Rightarrow> bytes \<Rightarrow> control_struct option" where
  "control_of ERR_INFO mem =
     (case mem_words32 (take 4 mem) of
        [a] \<Rightarrow> map_option (\<lambda>e. Err_info \<lparr>ei_err = e\<rparr>) (err_of a) | _ \<Rightarrow> None)"
| "control_of SHIFT_RANGE_REQUEST mem = map_option Shift_range_request (shift_range_of mem)"
| "control_of SHIFT_RANGE_INFO mem =
     (case mem_words16 (take 8 mem) of
        [a, b, c, d] \<Rightarrow> Some (Shift_range_info
          \<lparr>old_seq_start = a, old_seq_end = b, new_seq_start = c, new_seq_end = d\<rparr>)
      | _ \<Rightarrow> None)"
| "control_of DATA_SEQ_RANGE mem = map_option Data_seq_range (shift_range_of mem)"
| "control_of PUB_KEY mem = map_option (\<lambda>(k, d). Pub_key k d) (key_of mem)"
| "control_of SYM_KEY mem = map_option (\<lambda>(k, d). Sym_key k d) (key_of mem)"
| "control_of DATA_ENC_INFO mem =
     (case mem_words32 (take 28 mem) of
        [a, b, c, d, e, f, g] \<Rightarrow> Some (Data_enc_info
          \<lparr>sym_key_id = a, random_prefix_size = b, sgn_key_id = c, checksum_type = d, checksum_size = e,
           sgn_type = f, sgn_size = g\<rparr>)
      | _ \<Rightarrow> None)"

section \<open>Round trip\<close>

lemma words16_le16 [simp]: "mem_words16 (le16 x @ rest) = x # mem_words16 rest"
  by (simp add: le16_def rd16_le16)

lemma words32_le32 [simp]: "mem_words32 (le32 x @ rest) = x # mem_words32 rest"
  by (simp add: le32_def rd32_le32)

lemma words16_one [simp]: "mem_words16 (le16 x) = [x]"
  using words16_le16 [of x "[]"] by simp

lemma words32_one [simp]: "mem_words32 (le32 x) = [x]"
  using words32_le32 [of x "[]"] by simp

lemma shift_range_of_bytes [simp]: "shift_range_of (concat (map le16 (shift_range_words r)) @ rest) = Some r"
  by (simp add: shift_range_of_def shift_range_words_def)

lemma key_of_bytes:
  assumes "unat (key_size k) = length data"
  shows "key_of (concat (map le32 (key_head_words k)) @ data @ rest) = Some (k, data)"
  using assms by (simp add: key_of_def key_head_words_def)

text \<open>A structure is well formed when its data is as long as it says.\<close>

fun control_ok :: "control_struct \<Rightarrow> bool" where
  "control_ok (Pub_key k data) \<longleftrightarrow> unat (key_size k) = length data"
| "control_ok (Sym_key k data) \<longleftrightarrow> unat (key_size k) = length data"
| "control_ok _ \<longleftrightarrow> True"

lemma err_of_value [simp]: "err_of (err_value e) = Some e"
  by (cases e) (simp add: err_of_def)

section \<open>Properties\<close>



end
