(* ===== verification/Ref_Scope.thy ===== *)
theory Ref_Scope
  imports Ref_Count
begin

text \<open>
  \<open>utils/lock/refs.h\<close>, the use of a \<open>Ref\<close>: the dereferencing operators, the test for null, and
  the end of a scope, where the destructors of all variables run. Dereferencing a null \<open>Ref\<close>, or
  one whose object is gone, is \<open>None\<close>.
\<close>

section \<open>Dereferencing\<close>

definition ref_null :: ref_var where
  "ref_null = \<lparr>rf_ptr = None\<rparr>"

definition ref_arrow :: "nat \<Rightarrow> ref_state \<Rightarrow> nat option" where
  "ref_arrow i s = rf_ptr (rs_vars s ! i)"

definition ref_deref :: "nat \<Rightarrow> ref_state \<Rightarrow> nat option" where
  "ref_deref i s =
     (case rf_ptr (rs_vars s ! i) of
        None \<Rightarrow> None
      | Some p \<Rightarrow> (case rs_heap s p of None \<Rightarrow> None | Some c \<Rightarrow> Some p))"

definition ref_test :: "nat \<Rightarrow> ref_state \<Rightarrow> bool" where
  "ref_test i s \<longleftrightarrow> rf_ptr (rs_vars s ! i) \<noteq> None"

text \<open>\<open>~Ref\<close>, and the destructors of several variables in the order given.\<close>

definition ref_destroy :: "nat \<Rightarrow> ref_state \<Rightarrow> ref_state option" where
  "ref_destroy i s = ref_clear i s"

fun destroy_all :: "nat list \<Rightarrow> ref_state \<Rightarrow> ref_state option" where
  "destroy_all [] s = Some s"
| "destroy_all (i # is) s = (case ref_destroy i s of None \<Rightarrow> None | Some s' \<Rightarrow> destroy_all is s')"

section \<open>The end of a scope\<close>

lemma destroy_all_inv:
  assumes "ref_inv s" and "\<forall>i \<in> set is. i < length (rs_vars s)"
  shows "\<exists>s'. destroy_all is s = Some s' \<and> ref_inv s' \<and> rs_raw s' = rs_raw s \<and>
    length (rs_vars s') = length (rs_vars s) \<and>
    (\<forall>j < length (rs_vars s). rf_ptr (rs_vars s' ! j) = (if j \<in> set is then None else rf_ptr (rs_vars s ! j)))"
  using assms
proof (induction "is" arbitrary: s)
  case (Cons i "is")
  then obtain s1 where 1: "ref_clear i s = Some s1" "ref_inv s1" "length (rs_vars s1) = length (rs_vars s)"
    "rf_ptr (rs_vars s1 ! i) = None" "\<forall>j. j \<noteq> i \<longrightarrow> rs_vars s1 ! j = rs_vars s ! j" "rs_raw s1 = rs_raw s"
    using ref_clear_inv [of s i] by auto
  then obtain s' where 2: "destroy_all is s1 = Some s'" "ref_inv s'" "rs_raw s' = rs_raw s1"
    "length (rs_vars s') = length (rs_vars s1)"
    "\<forall>j < length (rs_vars s1). rf_ptr (rs_vars s' ! j) = (if j \<in> set is then None else rf_ptr (rs_vars s1 ! j))"
    using Cons.IH [of s1] Cons.prems by auto
  have "rf_ptr (rs_vars s' ! j) = (if j \<in> set (i # is) then None else rf_ptr (rs_vars s ! j))"
    if "j < length (rs_vars s)" for j
    using 1(3,4,5) 2(5) that by (cases "j = i") auto
  then show ?case using 1 2 by (intro exI [of _ s']) (simp add: ref_destroy_def)
qed simp

lemma refs_to_all_null: "\<forall>j < length vs. rf_ptr (vs ! j) = None \<Longrightarrow> refs_to p vs = 0"
  by (auto simp: refs_to_def filter_empty_conv in_set_conv_nth)

section \<open>Properties\<close>

text \<open>
  (C8) A \<open>Ref\<close> that is not null can be dereferenced: in every reachable state the operators give the
  live object the variable was made for. And nothing leaks: when the scope of all variables ends,
  in any order, the live objects are exactly those whose creator still holds the reference.
\<close>

theorem refs_stay_live:
  assumes "ref_reachable n s" and "set is = {..<length (rs_vars s)}"
  shows "(\<forall>i < length (rs_vars s). (ref_test i s \<longleftrightarrow> ref_deref i s \<noteq> None) \<and> ref_deref i s = ref_arrow i s) \<and>
    (\<exists>s'. destroy_all is s = Some s' \<and> (\<forall>p. rs_heap s' p = (if rs_raw s p = 0 then None else Some (rs_raw s p))))"
proof
  note inv = ref_reachable_inv [OF assms(1)]
  show "\<forall>i < length (rs_vars s). (ref_test i s \<longleftrightarrow> ref_deref i s \<noteq> None) \<and> ref_deref i s = ref_arrow i s"
  proof (intro allI impI)
    fix i assume i: "i < length (rs_vars s)"
    show "(ref_test i s \<longleftrightarrow> ref_deref i s \<noteq> None) \<and> ref_deref i s = ref_arrow i s"
    proof (cases "rf_ptr (rs_vars s ! i)")
      case (Some p)
      then have "rs_heap s p = Some (references p s)" using ref_held_pos [OF inv i] inv by (auto simp: ref_inv_def)
      then show ?thesis using Some by (simp add: ref_test_def ref_deref_def ref_arrow_def)
    qed (simp add: ref_test_def ref_deref_def ref_arrow_def)
  qed
  obtain s' where 1: "destroy_all is s = Some s'" "ref_inv s'" "rs_raw s' = rs_raw s"
    "length (rs_vars s') = length (rs_vars s)"
    "\<forall>j < length (rs_vars s). rf_ptr (rs_vars s' ! j) = (if j \<in> set is then None else rf_ptr (rs_vars s ! j))"
    using destroy_all_inv [OF inv, of "is"] assms(2) by auto
  then have "refs_to p (rs_vars s') = 0" for p using assms(2) by (intro refs_to_all_null) simp
  then have "\<forall>p. rs_heap s' p = (if rs_raw s p = 0 then None else Some (rs_raw s p))"
    using 1(2,3) by (simp add: ref_inv_def references_def)
  then show "\<exists>s'. destroy_all is s = Some s' \<and> (\<forall>p. rs_heap s' p = (if rs_raw s p = 0 then None else Some (rs_raw s p)))"
    using 1(1) by blast
qed

theorem refs_stay_live_witness:
  "ref_deref 0 one_shared = Some 9 \<and> (\<exists>s'. destroy_all [1, 0] one_shared = Some s' \<and> rs_heap s' 9 = Some 1)"
proof -
  have d: "set [1, 0] = {..<length (rs_vars one_shared)}" by (auto simp: one_shared_def)
  have "ref_arrow 0 one_shared = Some 9" "0 < length (rs_vars one_shared)" "rs_raw one_shared 9 = 1"
    by (simp_all add: ref_arrow_def one_shared_def)
  with refs_stay_live [OF one_shared_reachable d] show ?thesis by fastforce
qed

end
