(* ===== verification/Waiting.thy ===== *)
theory Waiting
  imports Complex_Main
begin

text \<open>
  The times the program waits: \<open>utils/time.cc\<close>, the timeouts of \<open>net/socket.cc\<close> and of the futex
  locks, and the growing waiting time of \<open>tcpv4_hole_punch\<close>. A finite \<open>float\<close> is a rational
  number. Taking the whole seconds off a \<open>float\<close> and multiplying the rest by a power of ten in
  \<open>double\<close> is exact; the other operations round, and the rounding is a parameter: \<open>rd\<close> to \<open>double\<close>,
  \<open>rf\<close> to \<open>float\<close>.
\<close>

section \<open>Seconds and fractions\<close>

text \<open>A cast to an integer type cuts the fraction off.\<close>

definition cast_int :: "rat \<Rightarrow> int" where
  "cast_int r = (if r < 0 then \<lceil>r\<rceil> else \<lfloor>r\<rfloor>)"

record timespec =
  tv_sec :: int
  tv_frac :: int

definition split_sec :: "int \<Rightarrow> rat \<Rightarrow> timespec" where
  "split_sec unit sec =
     \<lparr>tv_sec = cast_int sec, tv_frac = cast_int ((sec - of_int (cast_int sec)) * of_int unit)\<rparr>"

text \<open>\<open>sleep_sec\<close>: what it asks \<open>nanosleep\<close> for, if it does.\<close>

definition sleep_sec :: "rat \<Rightarrow> timespec option" where
  "sleep_sec sec = (if sec \<le> 0 then None else Some (split_sec 1000000000 sec))"

text \<open>The timeout of a socket in microseconds and that of \<open>futex_wait\<close>.\<close>

definition socket_timeval :: "rat \<Rightarrow> timespec" where
  "socket_timeval timeout_sec = split_sec 1000000 timeout_sec"

definition futex_timeout :: "rat \<Rightarrow> timespec" where
  "futex_timeout timeout_sec = split_sec 1000000000 timeout_sec"

lemma split_sec_bounds:
  assumes "0 \<le> sec" and "0 < unit"
  shows "0 \<le> tv_sec (split_sec unit sec) \<and> 0 \<le> tv_frac (split_sec unit sec) \<and> tv_frac (split_sec unit sec) < unit \<and>
    tv_sec (split_sec unit sec) * unit + tv_frac (split_sec unit sec) = \<lfloor>sec * of_int unit\<rfloor>"
proof -
  let ?s = "\<lfloor>sec\<rfloor>" and ?r = "(sec - of_int \<lfloor>sec\<rfloor>) * of_int unit"
  have f: "0 \<le> sec - of_int ?s" "sec - of_int ?s < 1" by linarith+
  then have r: "0 \<le> ?r" "?r < of_int unit" using assms(2) by simp_all
  have "sec * of_int unit = ?r + of_int (?s * unit)" by (simp add: algebra_simps)
  then have "\<lfloor>sec * of_int unit\<rfloor> = \<lfloor>?r\<rfloor> + ?s * unit" by (metis floor_add_int)
  moreover have "\<lfloor>?r\<rfloor> < unit" using r(2) by (simp add: floor_less_iff)
  moreover have "0 \<le> \<lfloor>?r\<rfloor>" using r(1) by simp
  moreover have "split_sec unit sec = \<lparr>tv_sec = ?s, tv_frac = \<lfloor>?r\<rfloor>\<rparr>"
    using assms(1) r(1) by (simp add: split_sec_def cast_int_def)
  ultimately show ?thesis using assms(1) by simp
qed

section \<open>Measuring\<close>

text \<open>The constant \<open>1e-9\<close>, as a \<open>double\<close>.\<close>

definition nano :: rat where
  "nano = 4835703278458517 / 2 ^ 82"

definition timespec_diff_sec :: "(rat \<Rightarrow> rat) \<Rightarrow> (rat \<Rightarrow> rat) \<Rightarrow> timespec \<Rightarrow> timespec \<Rightarrow> rat" where
  "timespec_diff_sec rd rf start stop =
     rf (rd (rd (of_int (tv_sec stop - tv_sec start)) + rd (rd (of_int (tv_frac stop - tv_frac start)) * nano)))"

text \<open>What is used of IEEE rounding: it is monotone, and small integers are exact.\<close>

definition rounding :: "nat \<Rightarrow> (rat \<Rightarrow> rat) \<Rightarrow> bool" where
  "rounding bits r \<longleftrightarrow> mono r \<and> (\<forall>i. \<bar>i\<bar> \<le> 2 ^ bits \<longrightarrow> r (of_int i) = of_int i)"

definition earlier :: "timespec \<Rightarrow> timespec \<Rightarrow> bool" where
  "earlier s t \<longleftrightarrow> tv_sec s < tv_sec t \<or> tv_sec s = tv_sec t \<and> tv_frac s \<le> tv_frac t"

definition timespec_ok :: "timespec \<Rightarrow> bool" where
  "timespec_ok t \<longleftrightarrow> 0 \<le> tv_frac t \<and> tv_frac t < 1000000000"

lemma rounding_mono: "rounding k r \<Longrightarrow> x \<le> y \<Longrightarrow> r x \<le> r y"
  by (auto simp: rounding_def dest: monoD)

lemma rounding_int: "rounding k r \<Longrightarrow> \<bar>i\<bar> \<le> 2 ^ k \<Longrightarrow> r (of_int i) = of_int i"
  by (simp add: rounding_def)

lemma rounding_const: "rounding k r \<Longrightarrow> r 0 = 0" "rounding k r \<Longrightarrow> r 1 = 1" "rounding k r \<Longrightarrow> r (- 1) = - 1"
  using rounding_int [of k r 0] rounding_int [of k r 1] rounding_int [of k r "- 1"] by simp_all

lemma rounding_nonneg: "rounding k r \<Longrightarrow> 0 \<le> x \<Longrightarrow> 0 \<le> r x"
  using rounding_mono [of k r 0 x] rounding_const(1) [of k r] by simp

text \<open>The difference of two times is not negative, when the second is the later one.\<close>

lemma diff_nonneg:
  assumes rd: "rounding 53 rd" and rf: "rounding 24 rf" and "timespec_ok s" "timespec_ok t" "earlier s t"
  shows "0 \<le> timespec_diff_sec rd rf s t"
proof -
  let ?ds = "of_int (tv_sec t - tv_sec s) :: rat" and ?df = "of_int (tv_frac t - tv_frac s) :: rat"
  have frac: "- 999999999 \<le> tv_frac t - tv_frac s" "tv_frac t - tv_frac s \<le> 999999999"
    using assms(3,4) by (simp_all add: timespec_ok_def)
  have exact: "rd ?df = ?df" by (rule rounding_int [OF rd]) (use frac in simp)
  have "0 \<le> rd ?ds + rd (?df * nano)"
  proof (cases "tv_sec s < tv_sec t")
    case True
    then have "(1 :: rat) \<le> ?ds" by (metis add_le_imp_le_diff add.commute of_int_1_le_iff zless_imp_add1_zle)
    then have 1: "1 \<le> rd ?ds" using rounding_mono [OF rd] rounding_const(2) [OF rd] by metis
    have "- 999999999 \<le> ?df" using frac(1) by (metis of_int_le_iff of_int_minus of_int_numeral)
    then have "- 999999999 * nano \<le> ?df * nano" by (rule mult_right_mono) (simp add: nano_def)
    moreover have "- 1 \<le> - 999999999 * nano" by (simp add: nano_def)
    ultimately have "- 1 \<le> ?df * nano" by linarith
    then have "- 1 \<le> rd (?df * nano)" using rounding_mono [OF rd] rounding_const(3) [OF rd] by metis
    with 1 show ?thesis by simp
  next
    case False
    then have "0 \<le> ?ds" "0 \<le> ?df" using assms(5) by (auto simp: earlier_def)
    then show ?thesis using rounding_nonneg [OF rd] by (simp add: nano_def)
  qed
  then show ?thesis
    unfolding timespec_diff_sec_def exact by (intro rounding_nonneg [OF rf] rounding_nonneg [OF rd])
qed

section \<open>The waiting times of hole punching\<close>

text \<open>\<open>fmul\<close> is the product of two \<open>float\<close>s.\<close>

definition next_connect_sec :: "(rat \<Rightarrow> rat \<Rightarrow> rat) \<Rightarrow> rat \<Rightarrow> rat \<Rightarrow> rat \<Rightarrow> rat" where
  "next_connect_sec fmul connect_sec_scale connect_sec_max connect_sec =
     (let connect_sec' = fmul connect_sec connect_sec_scale
      in if connect_sec' > connect_sec_max then connect_sec_max else connect_sec')"

text \<open>The timeouts of the attempts, and the sleep after one: the timeout less the time it took.\<close>

fun connect_secs :: "(rat \<Rightarrow> rat \<Rightarrow> rat) \<Rightarrow> rat \<Rightarrow> rat \<Rightarrow> rat \<Rightarrow> nat \<Rightarrow> rat list" where
  "connect_secs fmul scale mx sec 0 = []"
| "connect_secs fmul scale mx sec (Suc n) = sec # connect_secs fmul scale mx (next_connect_sec fmul scale mx sec) n"

definition attempt_sleep :: "(rat \<Rightarrow> rat) \<Rightarrow> (rat \<Rightarrow> rat) \<Rightarrow> rat \<Rightarrow> timespec \<Rightarrow> timespec \<Rightarrow> timespec option" where
  "attempt_sleep rd rf connect_sec start stop = sleep_sec (rf (connect_sec - timespec_diff_sec rd rf start stop))"

lemma connect_secs_capped: "i < n \<Longrightarrow> connect_secs fmul scale mx sec n ! i \<le> (if i = 0 then sec else mx)"
proof (induction n arbitrary: i sec)
  case (Suc n)
  have le: "next_connect_sec fmul scale mx sec \<le> mx" by (simp add: next_connect_sec_def Let_def)
  show ?case
  proof (cases i)
    case (Suc j)
    then have "connect_secs fmul scale mx (next_connect_sec fmul scale mx sec) n ! j
        \<le> (if j = 0 then next_connect_sec fmul scale mx sec else mx)" using Suc.IH Suc.prems by simp
    then show ?thesis using Suc le by (auto split: if_splits)
  qed simp
qed simp

lemma connect_secs_sum: "sum_list (connect_secs fmul scale mx sec (Suc n)) \<le> sec + of_nat n * mx"
proof (induction n arbitrary: sec)
  case (Suc n)
  have "next_connect_sec fmul scale mx sec \<le> mx" by (simp add: next_connect_sec_def Let_def)
  then show ?case using Suc.IH [of "next_connect_sec fmul scale mx sec"] by (simp add: algebra_simps)
qed simp

section \<open>Properties\<close>

text \<open>
  A time in seconds is split without loss: whole seconds and a fraction below one, together the
  time cut to the unit. A timeout of a socket below a microsecond becomes zero, which the kernel
  takes for no timeout at all.
\<close>

theorem waiting_time_split:
  assumes "0 < sec"
  shows "(\<exists>t. sleep_sec sec = Some t \<and> timespec_ok t \<and> tv_sec t * 1000000000 + tv_frac t = \<lfloor>sec * 1000000000\<rfloor>) \<and>
    futex_timeout sec = the (sleep_sec sec) \<and>
    (tv_sec (socket_timeval sec) = 0 \<and> tv_frac (socket_timeval sec) = 0 \<longleftrightarrow> sec * 1000000 < 1)"
proof (intro conjI)
  have s: "sleep_sec sec = Some (split_sec 1000000000 sec)" using assms by (simp add: sleep_sec_def)
  then show "\<exists>t. sleep_sec sec = Some t \<and> timespec_ok t \<and> tv_sec t * 1000000000 + tv_frac t = \<lfloor>sec * 1000000000\<rfloor>"
    using split_sec_bounds [of sec 1000000000] assms by (simp add: timespec_ok_def)
  show "futex_timeout sec = the (sleep_sec sec)" using s by (simp add: futex_timeout_def)
  let ?t = "socket_timeval sec"
  have b: "0 \<le> tv_sec ?t" "0 \<le> tv_frac ?t" "tv_sec ?t * 1000000 + tv_frac ?t = \<lfloor>sec * 1000000\<rfloor>"
    using split_sec_bounds [of sec 1000000] assms by (simp_all add: socket_timeval_def)
  then have "\<lfloor>sec * 1000000\<rfloor> = 0 \<Longrightarrow> tv_sec ?t \<le> 0 \<and> tv_frac ?t \<le> 0" by linarith
  then have "tv_sec ?t = 0 \<and> tv_frac ?t = 0 \<longleftrightarrow> \<lfloor>sec * 1000000\<rfloor> = 0"
    using b by (metis add.right_neutral mult_zero_left order_antisym)
  also have "\<dots> \<longleftrightarrow> sec * 1000000 < 1" using assms by (simp add: floor_eq_iff)
  finally show "tv_sec ?t = 0 \<and> tv_frac ?t = 0 \<longleftrightarrow> sec * 1000000 < 1" .
qed

theorem waiting_time_split_witness: "\<exists>t. sleep_sec (5 / 2) = Some t \<and> timespec_ok t"
  using waiting_time_split [of "5 / 2"] by auto

text \<open>
  (C34) Hole punching waits no longer than it says: from the second attempt on the timeout is at most
  the configured maximum, the first one is used as it is, so that all of them together are at most
  the first and the maximum for each other attempt; and the sleep after an attempt is at most the
  timeout of the attempt, however the clock readings are rounded.
\<close>

theorem hole_punch_waits:
  assumes "rounding 53 rd" and "rounding 24 rf" and "timespec_ok start" and "timespec_ok stop" and "earlier start stop"
    and "i < n" and "sec = connect_secs fmul scale mx sec0 n ! i" and "rf sec = sec"
  shows "sec \<le> (if i = 0 then sec0 else mx) \<and>
    sum_list (connect_secs fmul scale mx sec0 n) \<le> sec0 + of_nat (n - 1) * mx \<and>
    (case attempt_sleep rd rf sec start stop of
       None \<Rightarrow> True | Some t \<Rightarrow> timespec_ok t \<and> tv_sec t * 1000000000 + tv_frac t \<le> \<lfloor>sec * 1000000000\<rfloor>)"
proof (intro conjI)
  show "sum_list (connect_secs fmul scale mx sec0 n) \<le> sec0 + of_nat (n - 1) * mx"
    using connect_secs_sum [of fmul scale mx sec0 "n - 1"] assms(6) by simp
  show "sec \<le> (if i = 0 then sec0 else mx)" using connect_secs_capped [OF assms(6)] assms(7) by simp
  let ?x = "rf (sec - timespec_diff_sec rd rf start stop)"
  have le: "?x \<le> sec"
    using rounding_mono [OF assms(2), of "sec - timespec_diff_sec rd rf start stop" sec] diff_nonneg [OF assms(1-5)] assms(8) by simp
  show "case attempt_sleep rd rf sec start stop of
       None \<Rightarrow> True | Some t \<Rightarrow> timespec_ok t \<and> tv_sec t * 1000000000 + tv_frac t \<le> \<lfloor>sec * 1000000000\<rfloor>"
  proof (cases "?x \<le> 0")
    case False
    then have "attempt_sleep rd rf sec start stop = Some (split_sec 1000000000 ?x)"
      by (simp add: attempt_sleep_def sleep_sec_def)
    moreover have "\<lfloor>?x * 1000000000\<rfloor> \<le> \<lfloor>sec * 1000000000\<rfloor>" using le by (intro floor_mono) simp
    ultimately show ?thesis using split_sec_bounds [of ?x 1000000000] False by (simp add: timespec_ok_def)
  qed (simp add: attempt_sleep_def sleep_sec_def)
qed

text \<open>Half a second, growing by half, at most four; the second attempt took a tenth of a second.\<close>

theorem hole_punch_waits_witness:
  "connect_secs (\<lambda>x y. x * y) (3 / 2) 4 (1 / 2) 4 ! 1 = 3 / 4 \<and>
    (case attempt_sleep (\<lambda>x. x) (\<lambda>x. x) (3 / 4) \<lparr>tv_sec = 7, tv_frac = 0\<rparr> \<lparr>tv_sec = 7, tv_frac = 100000000\<rparr> of
       None \<Rightarrow> True | Some t \<Rightarrow> timespec_ok t \<and> tv_sec t * 1000000000 + tv_frac t \<le> 750000000)"
proof -
  let ?a = "\<lparr>tv_sec = 7, tv_frac = 0\<rparr>" and ?b = "\<lparr>tv_sec = 7, tv_frac = 100000000\<rparr>"
  have r: "rounding k (\<lambda>x. x)" for k by (simp add: rounding_def mono_def)
  have h: "timespec_ok ?a" "timespec_ok ?b" "earlier ?a ?b" "(1 :: nat) < 4"
    by (simp_all add: timespec_ok_def earlier_def)
  have sec: "3 / 4 = connect_secs (\<lambda>x y. x * y) (3 / 2) 4 (1 / 2) 4 ! 1"
    by (simp add: numeral_eq_Suc next_connect_sec_def Let_def)
  have f: "\<lfloor>3 / 4 * 1000000000 :: rat\<rfloor> = 750000000" by simp
  show ?thesis using hole_punch_waits [OF r r h sec refl, unfolded f] unfolding sec [symmetric] by simp
qed

end
