(* ===== verification/Block_Checksum.thy ===== *)
theory Block_Checksum
  imports Block_Tail "HOL-Library.Multiset"
begin

text \<open>
  What the checksum of \<open>AES256SUM128Crypt\<close> tells about a message of whole blocks. The checksum is
  the feedback put through \<open>AES_ECB_decrypt\<close>, which loses nothing, so everything depends on the
  feedback: the sum of the blocks after encryption, the last block recovered after decryption.
\<close>

section \<open>Decryption loses nothing\<close>

lemma finite_m128: "finite (UNIV :: m128 set)"
proof -
  have "(UNIV :: m128 set) = (\<lambda>(a, b). M128 a b) ` UNIV"
    by (auto simp: image_def) (metis m128.exhaust)
  then show ?thesis by (metis finite finite_imageI)
qed

lemma inj_of_retract:
  fixes f :: "m128 \<Rightarrow> m128"
  assumes "\<And>x. f (g x) = x"
  shows "inj f"
  using assms by (intro finite_UNIV_surj_inj [OF finite_m128]) (metis surjI)

lemma inj_xor: "inj (\<lambda>x. mm_xor_si128 x k)"
  by (rule inj_of_retract [where g = "\<lambda>x. mm_xor_si128 x k"])
    (simp add: mm_xor_si128_def xor.assoc)

lemma inj_dec_units:
  assumes "aes_laws u mix unmix"
  shows "inj (au_dec u)" and "inj (au_declast u)"
proof -
  show d: "inj (au_declast u)" by (rule inj_of_retract [where g = "au_enclast u"]) (use assms in \<open>simp add: aes_laws_def\<close>)
  have "inj unmix" by (rule inj_of_retract [where g = mix]) (use assms in \<open>simp add: aes_laws_def\<close>)
  then have "inj (unmix \<circ> au_declast u)" using d by (rule inj_compose)
  moreover have "au_dec u = unmix \<circ> au_declast u" using assms by (auto simp: aes_laws_def)
  ultimately show "inj (au_dec u)" by simp
qed

lemma inj_fold: "(\<And>j. inj (f j)) \<Longrightarrow> inj (fold f js)"
  by (induction js) (simp_all add: inj_compose)

lemma inj_ecb_decrypt:
  assumes "aes_laws u mix unmix"
  shows "inj (\<lambda>x. AES_ECB_decrypt u x key n)"
proof -
  let ?mid = "fold (\<lambda>j tmp. mm_aesdec_si128 u tmp (key ! j)) [1..<n]"
  have "inj (\<lambda>x. mm_aesdec_si128 u x k)" for k
    using inj_compose [OF inj_xor [of k] inj_dec_units(1) [OF assms]] by (simp add: mm_aesdec_si128_def comp_def)
  then have "inj ?mid" by (rule inj_fold)
  moreover have "inj (\<lambda>x. mm_aesdeclast_si128 u x k)" for k
    using inj_compose [OF inj_xor [of k] inj_dec_units(2) [OF assms]] by (simp add: mm_aesdeclast_si128_def comp_def)
  ultimately have "inj ((\<lambda>x. mm_aesdeclast_si128 u x (key ! max 1 n)) \<circ> (?mid \<circ> (\<lambda>x. mm_xor_si128 x (key ! 0))))"
    using inj_xor by (intro inj_compose)
  then show ?thesis by (simp add: AES_ECB_decrypt_def Let_def comp_def)
qed

section \<open>The two checksums\<close>

lemma encrypt_feedback:
  assumes "inp + 16 * n \<le> length mem" and "outp + 16 * n \<le> length mem" and "outp \<le> inp \<or> inp + 16 * n \<le> outp"
  shows "\<exists>mem'. encrypt u c outp inp (16 * n) mem
    = Some (c\<lparr>as_feedback := as_feedback c + sum_list (blocks mem inp n)\<rparr>, mem')"
proof -
  obtain fb mem' where e: "encrypt_loop u (as_expanded_key c) outp inp n (as_feedback c) mem = (fb, mem')" by fastforce
  have "fb = as_feedback c + sum_list (blocks mem inp n)"
    using block_loop_scan [OF assms(2,3), of "\<lambda>fb p. (fb + p, AES_ECB_encrypt u (fb + p) (as_expanded_key c) 14)" "as_feedback c"] e
    unfolding encrypt_loop_blocks scan_enc [of "\<lambda>x. AES_ECB_encrypt u x (as_expanded_key c) 14"] by simp
  then show ?thesis using e assms by (simp add: encrypt_def Let_def)
qed

lemma decrypt_feedback:
  assumes "p + 16 * n \<le> length mem"
  shows "\<exists>mem'. decrypt u c p p (16 * n) mem = Some (c\<lparr>as_feedback := last (as_feedback c # blocks mem' p n)\<rparr>, mem')"
proof -
  let ?D = "\<lambda>x. AES_ECB_decrypt u x (as_expanded_key c) 14"
  obtain gb mem' where d: "decrypt_loop u (as_expanded_key c) p p n (as_feedback c) mem = (gb, mem')" by fastforce
  have "gb = last (as_feedback c # blocks mem' p n)"
    using block_loop_scan [OF assms, of p "\<lambda>fb c. (?D c - fb, ?D c - fb)" "as_feedback c"] d
    unfolding decrypt_loop_blocks scan_dec [of ?D] fst_scan_dec [of ?D] by simp
  then show ?thesis using d assms by (simp add: decrypt_def Let_def)
qed

lemma checksum_eq_iff:
  assumes "aes_laws u mix unmix" and "as_expanded_key c = as_expanded_key d" and "q + 16 \<le> length mem"
  shows "get_checksum u c q mem = get_checksum u d q mem \<longleftrightarrow> as_feedback c = as_feedback d"
proof
  assume "get_checksum u c q mem = get_checksum u d q mem"
  then have "mm_storeu_si128 q (AES_ECB_decrypt u (as_feedback c) (as_expanded_key c) 14) mem
      = mm_storeu_si128 q (AES_ECB_decrypt u (as_feedback d) (as_expanded_key c) 14) mem"
    using assms(2,3) by (simp add: get_checksum_def)
  from arg_cong [OF this, of "\<lambda>m. mm_loadu_si128 m q"]
  have "AES_ECB_decrypt u (as_feedback c) (as_expanded_key c) 14 = AES_ECB_decrypt u (as_feedback d) (as_expanded_key c) 14"
    using assms(3) by (simp add: load_store)
  then show "as_feedback c = as_feedback d" using inj_ecb_decrypt [OF assms(1)] by (simp add: inj_def)
qed (use assms(2) in \<open>simp add: get_checksum_def\<close>)

section \<open>Properties\<close>

text \<open>
  (C6) The checksum after encrypting is the same for two messages exactly when their blocks have the
  same sum, in particular when one is a reordering of the other. The checksum after decrypting
  depends on the last block only: with the same key it agrees with the sender's exactly when that
  block is the sender's sum, the feedback at the start included.
\<close>

theorem checksum_is_sum:
  assumes "aes_laws u mix unmix"
    and "inp + 16 * n \<le> length mem1" and "inp' + 16 * n' \<le> length mem2"
    and "p + 16 * k \<le> length mem3" and "as_expanded_key d = as_expanded_key c" and "q + 16 \<le> length buf"
  shows "\<exists>c1 m1 c2 m2 d3 m3. encrypt u c inp inp (16 * n) mem1 = Some (c1, m1) \<and>
    encrypt u c inp' inp' (16 * n') mem2 = Some (c2, m2) \<and> decrypt u d p p (16 * k) mem3 = Some (d3, m3) \<and>
    (get_checksum u c1 q buf = get_checksum u c2 q buf \<longleftrightarrow>
      sum_list (blocks mem1 inp n) = sum_list (blocks mem2 inp' n')) \<and>
    (mset (blocks mem1 inp n) = mset (blocks mem2 inp' n') \<longrightarrow> get_checksum u c1 q buf = get_checksum u c2 q buf) \<and>
    (get_checksum u c1 q buf = get_checksum u d3 q buf \<longleftrightarrow>
      last (as_feedback d # blocks m3 p k) = as_feedback c + sum_list (blocks mem1 inp n))"
proof -
  obtain m1 m2 m3 where
    1: "encrypt u c inp inp (16 * n) mem1 = Some (c\<lparr>as_feedback := as_feedback c + sum_list (blocks mem1 inp n)\<rparr>, m1)" and
    2: "encrypt u c inp' inp' (16 * n') mem2 = Some (c\<lparr>as_feedback := as_feedback c + sum_list (blocks mem2 inp' n')\<rparr>, m2)" and
    3: "decrypt u d p p (16 * k) mem3 = Some (d\<lparr>as_feedback := last (as_feedback d # blocks m3 p k)\<rparr>, m3)"
    using encrypt_feedback [OF assms(2,2)] encrypt_feedback [OF assms(3,3)] decrypt_feedback [OF assms(4)] by blast
  have perm: "mset (blocks mem1 inp n) = mset (blocks mem2 inp' n') \<Longrightarrow> sum_list (blocks mem1 inp n) = sum_list (blocks mem2 inp' n')"
    by (metis sum_mset_sum_list)
  note iff = checksum_eq_iff [OF assms(1) _ assms(6)]
  show ?thesis
    by (intro exI conjI, rule 1, rule 2, rule 3) (use assms(5) perm in \<open>auto simp: iff\<close>)
qed

text \<open>Swapping the two blocks of a message does not change its checksum.\<close>

theorem checksum_is_sum_witness:
  "\<exists>c1 m1 c2 m2. encrypt plain_unit \<lparr>as_expanded_key = replicate 15 0, as_feedback = 0\<rparr> 0 0 32 (replicate 16 1 @ replicate 16 2) = Some (c1, m1) \<and>
    encrypt plain_unit \<lparr>as_expanded_key = replicate 15 0, as_feedback = 0\<rparr> 0 0 32 (replicate 16 2 @ replicate 16 1) = Some (c2, m2) \<and>
    get_checksum plain_unit c1 0 (replicate 16 0) = get_checksum plain_unit c2 0 (replicate 16 0)"
proof -
  let ?a = "replicate 16 1 @ replicate 16 2 :: bytes" and ?b = "replicate 16 2 @ replicate 16 1 :: bytes"
  let ?c = "\<lparr>as_expanded_key = replicate 15 0, as_feedback = 0\<rparr> :: aes_sum"
  have b: "blocks ?a 0 2 = [m128_of_bytes (replicate 16 1), m128_of_bytes (replicate 16 2)]"
    "blocks ?b 0 2 = [m128_of_bytes (replicate 16 2), m128_of_bytes (replicate 16 1)]"
    by (simp_all add: numeral_2_eq_2 mm_loadu_si128_def)
  have "mset (blocks ?a 0 2) = mset (blocks ?b 0 2)" unfolding b by simp
  moreover have h: "0 + 16 * 2 \<le> length ?a" "0 + 16 * 2 \<le> length ?b" "0 + 16 * 0 \<le> length ([] :: bytes)"
    "as_expanded_key ?c = as_expanded_key ?c" "0 + 16 \<le> length (replicate 16 (0 :: u8))" by simp_all
  ultimately show ?thesis using checksum_is_sum [OF units_ok(1) h] by auto
qed

end
