(* ===== verification/Ring_View.thy ===== *)
theory Ring_View
  imports Buffers
begin

text \<open>
  \<open>buffer.h\<close>: \<open>buf_cp\<close> into and out of a double block buffer. \<open>InBufWrapper\<close> and \<open>OutBufWrapper\<close>
  are views of one \<open>DoubleBlockProcBuf\<close>: what is copied into the first and out of the second is
  compared with a queue, the elements between the output and the input position.
\<close>

section \<open>The views\<close>

record 'a ring =
  rg_idx :: double_buf
  rg_buf :: "'a list"

text \<open>The constructors take a reference; \<open>start\<close> is an offset into the memory.\<close>

definition in_start :: "double_buf \<Rightarrow> int" where
  "in_start q = db_e q"

definition out_start :: "double_buf \<Rightarrow> int" where
  "out_start q = db_b q"

text \<open>\<open>buf_cp(in, view)\<close> from memory, with what is left of it, and \<open>buf_cp(view, out)\<close> to \<open>room\<close> elements.\<close>

definition ring_fill :: "'a list \<Rightarrow> 'a ring \<Rightarrow> ('a list \<times> 'a ring) option" where
  "ring_fill data r =
     (let q = rg_idx r; n = (if int (length data) < in_left q then int (length data) else in_left q)
      in case write_at (nat (in_start q)) (take (nat n) data) (rg_buf r) of
           None \<Rightarrow> None
         | Some buf \<Rightarrow>
             Some (drop (nat n) data,
               \<lparr>rg_idx = (if int (length data) < in_left q then in_shift n q else in_finish q), rg_buf = buf\<rparr>))"

definition ring_drain :: "int \<Rightarrow> 'a ring \<Rightarrow> ('a list \<times> 'a ring) option" where
  "ring_drain room r =
     (let q = rg_idx r; n = (if out_left q < room then out_left q else room)
      in if 0 \<le> n \<and> out_start q + n \<le> int (length (rg_buf r))
         then Some (take (nat n) (drop (nat (out_start q)) (rg_buf r)),
           r\<lparr>rg_idx := (if out_left q < room then out_finish q else out_shift n q)\<rparr>)
         else None)"

section \<open>The queue\<close>

definition segment :: "int \<Rightarrow> int \<Rightarrow> 'a list \<Rightarrow> 'a list" where
  "segment i j xs = take (nat (j - i)) (drop (nat i) xs)"

definition ring_content :: "'a ring \<Rightarrow> 'a list" where
  "ring_content r =
     (let q = rg_idx r
      in if db_b q \<le> db_e q then segment (db_b q) (db_e q) (rg_buf r)
         else segment (db_b q) (db_size q) (rg_buf r) @ segment 0 (db_e q) (rg_buf r))"

text \<open>The processed position is in the occupied part.\<close>

definition ring_wf :: "'a ring \<Rightarrow> bool" where
  "ring_wf r \<longleftrightarrow>
     (let q = rg_idx r
      in db_wf q \<and> db_size q = int (length (rg_buf r)) \<and>
         (if db_b q \<le> db_e q then db_b q \<le> db_proc_e q \<and> db_proc_e q \<le> db_e q
          else db_b q \<le> db_proc_e q \<or> db_proc_e q \<le> db_e q))"

lemma length_segment [simp]: "0 \<le> i \<Longrightarrow> i \<le> j \<Longrightarrow> j \<le> int (length xs) \<Longrightarrow> length (segment i j xs) = nat (j - i)"
  by (simp add: segment_def)

lemma segment_empty [simp]: "segment i i xs = []"
  by (simp add: segment_def)

lemma segment_split: "0 \<le> i \<Longrightarrow> i \<le> j \<Longrightarrow> j \<le> k \<Longrightarrow> segment i k xs = segment i j xs @ segment j k xs"
proof -
  assume h: "0 \<le> i" "i \<le> j" "j \<le> k"
  then have "nat (k - i) = nat (j - i) + nat (k - j)" "nat j = nat (j - i) + nat i" by simp_all
  then show ?thesis by (simp add: segment_def take_add)
qed

text \<open>Writing at a position changes the segment there and no other.\<close>

lemma segment_write:
  assumes "write_at p src xs = Some ys"
  shows "segment (int p) (int p + int (length src)) ys = src"
    and "0 \<le> i \<Longrightarrow> j \<le> int p \<Longrightarrow> segment i j ys = segment i j xs"
    and "int p + int (length src) \<le> i \<Longrightarrow> segment i j ys = segment i j xs"
proof -
  have ys: "ys = take p xs @ src @ drop (p + length src) xs" and len: "p + length src \<le> length xs"
    using assms by (auto simp: write_at_def split: if_splits)
  show "segment (int p) (int p + int (length src)) ys = src" using len by (simp add: segment_def ys)
  show "segment i j ys = segment i j xs" if "0 \<le> i" "j \<le> int p"
  proof -
    have "nat (j - i) \<le> p - nat i" using that by simp
    then show ?thesis using len by (simp add: segment_def ys min_def drop_take)
  qed
  show "segment i j ys = segment i j xs" if "int p + int (length src) \<le> i"
  proof -
    have "p + length src \<le> nat i" using that by simp
    then have "drop (nat i) ys = drop (nat i) xs" using len by (simp add: ys)
    then show ?thesis by (simp add: segment_def)
  qed
qed

lemma in_left_nonneg: "db_wf q \<Longrightarrow> 0 \<le> in_left q" and in_left_room: "db_wf q \<Longrightarrow> db_e q + in_left q \<le> db_size q"
  by (auto simp: db_defs)

text \<open>Both branches of \<open>buf_cp\<close> shift the view by what was copied.\<close>

lemma ring_fill_eq:
  assumes "ring_wf r" and "n = min (int (length data)) (in_left (rg_idx r))"
  shows "\<exists>buf. write_at (nat (db_e (rg_idx r))) (take (nat n) data) (rg_buf r) = Some buf \<and>
    ring_fill data r = Some (drop (nat n) data, \<lparr>rg_idx = in_shift n (rg_idx r), rg_buf = buf\<rparr>)"
proof -
  let ?q = "rg_idx r"
  have wf: "db_wf ?q" and size: "db_size ?q = int (length (rg_buf r))" using assms(1) by (simp_all add: ring_wf_def Let_def)
  have n: "0 \<le> n" "n \<le> int (length data)" "db_e ?q + n \<le> int (length (rg_buf r))"
    using assms(2) in_left_nonneg [OF wf] in_left_room [OF wf] size by auto
  have e: "0 \<le> db_e ?q" using wf by (simp add: db_wf_def)
  have "length (take (nat n) data) = nat n" using n by simp
  then have "nat (db_e ?q) + length (take (nat n) data) \<le> length (rg_buf r)" using n e by linarith
  then obtain buf where buf: "write_at (nat (db_e ?q)) (take (nat n) data) (rg_buf r) = Some buf" by (simp add: write_at_def)
  show ?thesis using buf assms(2) in_finish_shift [OF wf]
    by (intro exI [of _ buf]) (auto simp: ring_fill_def in_start_def Let_def min_def)
qed

text \<open>The case that loses the content: the output position is 0 and the input fills up to the end.\<close>

definition fills_up :: "'a list \<Rightarrow> 'a ring \<Rightarrow> bool" where
  "fills_up data r \<longleftrightarrow> db_b (rg_idx r) = 0 \<and> db_size (rg_idx r) \<le> db_e (rg_idx r) + int (length data)"

lemma fill_content:
  assumes "ring_wf r" and "n = min (int (length data)) (in_left (rg_idx r))"
    and "write_at (nat (db_e (rg_idx r))) (take (nat n) data) (rg_buf r) = Some buf"
  defines "r' \<equiv> \<lparr>rg_idx = in_shift n (rg_idx r), rg_buf = buf\<rparr>"
  shows "if fills_up data r then ring_content r' = []
    else ring_wf r' \<and> ring_content r' = ring_content r @ take (nat n) data"
proof -
  let ?q = "rg_idx r" and ?d = "take (nat n) data"
  let ?b = "db_b ?q" and ?e = "db_e ?q" and ?s = "db_size ?q"
  have wf: "db_wf ?q" and size: "?s = int (length (rg_buf r))" using assms(1) by (simp_all add: ring_wf_def Let_def)
  have len: "length buf = length (rg_buf r)" using write_at_length [OF assms(3)] .
  have n: "0 \<le> n" "?e + n \<le> ?s" "int (length ?d) = n"
    using assms(2) in_left_nonneg [OF wf] in_left_room [OF wf] by auto
  have pos: "0 \<le> ?b" "?b < ?s" "0 \<le> ?e" "?e < ?s" using wf by (simp_all add: db_wf_def)
  have new: "segment ?e (?e + n) buf = ?d" using segment_write(1) [OF assms(3)] n(3) pos by simp
  have old: "segment i j buf = segment i j (rg_buf r)" if "0 \<le> i \<and> j \<le> ?e \<or> ?e + n \<le> i" for i j
    using that segment_write(2,3) [OF assms(3), of i j] n(3) pos by auto
  consider "?b \<le> ?e" "?e + n < ?s" | "?b \<le> ?e" "?e + n = ?s" | "?e < ?b" "?e + n < ?b"
  proof (cases "?b \<le> ?e")
    case True
    then show thesis using that(1,2) n(2) by (cases "?e + n = ?s") simp_all
  next
    case False
    then have "?e + n < ?b" using assms(2) by (auto simp: in_left_def)
    then show thesis using False that(3) by simp
  qed
  then show ?thesis
  proof cases
    case 1
    then have "\<not> fills_up data r" using assms(2) by (auto simp: fills_up_def in_left_def)
    moreover have "segment ?b (?e + n) buf = segment ?b ?e (rg_buf r) @ ?d"
      using segment_split [of ?b ?e "?e + n" buf] pos 1 n(1) new old by simp
    ultimately show ?thesis using 1 pos n assms(1) len
      by (auto simp: r'_def ring_content_def ring_wf_def in_shift_def db_wf_def Let_def)
  next
    case 2
    have idx: "in_shift n ?q = ?q\<lparr>db_e := 0\<rparr>" using 2 by (simp add: in_shift_def)
    have "segment ?b ?s buf = segment ?b ?e (rg_buf r) @ ?d"
      using segment_split [of ?b ?e ?s buf] pos 2 n(1) new old by simp
    moreover have "fills_up data r \<longleftrightarrow> ?b = 0" using 2 assms(2) by (auto simp: fills_up_def in_left_def)
    ultimately show ?thesis using 2 pos assms(1) len
      by (auto simp: r'_def idx ring_content_def ring_wf_def db_wf_def Let_def)
  next
    case 3
    then have "\<not> fills_up data r" using pos by (simp add: fills_up_def)
    moreover have "segment 0 (?e + n) buf = segment 0 ?e (rg_buf r) @ ?d"
      using segment_split [of 0 ?e "?e + n" buf] pos n(1) new old by simp
    moreover have "segment ?b ?s buf = segment ?b ?s (rg_buf r)" using 3 old by simp
    ultimately show ?thesis using 3 pos n assms(1) len
      by (auto simp: r'_def ring_content_def ring_wf_def in_shift_def db_wf_def Let_def)
  qed
qed

lemma drain_content:
  assumes "ring_wf r" and "0 \<le> room"
  shows "\<exists>out r'. ring_drain room r = Some (out, r') \<and> ring_wf r' \<and> ring_content r = out @ ring_content r' \<and>
    int (length out) = min (out_left (rg_idx r)) room"
proof -
  let ?q = "rg_idx r" and ?buf = "rg_buf r"
  let ?b = "db_b ?q" and ?e = "db_e ?q" and ?s = "db_size ?q" and ?p = "db_proc_e ?q" and ?n = "min (out_left ?q) room"
  have wf: "db_wf ?q" and size: "?s = int (length ?buf)"
    and p: "if ?b \<le> ?e then ?b \<le> ?p \<and> ?p \<le> ?e else ?b \<le> ?p \<or> ?p \<le> ?e"
    using assms(1) by (simp_all add: ring_wf_def Let_def)
  have pos: "0 \<le> ?b" "?b < ?s" "0 \<le> ?e" "?e < ?s" "0 \<le> ?p" "?p < ?s" using wf by (simp_all add: db_wf_def)
  have n: "0 \<le> ?n" "?b + ?n \<le> ?s" "?b \<le> ?p \<Longrightarrow> ?b + ?n \<le> ?p" using assms(2) pos by (auto simp: out_left_def)
  let ?r = "r\<lparr>rg_idx := out_shift ?n ?q\<rparr>"
  have run: "ring_drain room r = Some (segment ?b (?b + ?n) ?buf, ?r)"
    using n(1,2) size out_finish_shift [OF wf] by (auto simp: ring_drain_def out_start_def segment_def Let_def min_def)
  have split: "segment ?b j ?buf = segment ?b (?b + ?n) ?buf @ segment (?b + ?n) j ?buf" if "?b + ?n \<le> j" for j
    using that pos n(1) by (intro segment_split) simp_all
  have "ring_wf ?r \<and> ring_content r = segment ?b (?b + ?n) ?buf @ ring_content ?r"
  proof (cases "?b + ?n = ?s")
    case True
    then have "\<not> ?b \<le> ?e" "?p < ?b" using p n(3) pos by (auto split: if_splits)
    then show ?thesis using True pos p size split [of ?s]
      by (auto simp: ring_content_def ring_wf_def db_wf_def out_shift_def Let_def)
  next
    case False
    then have idx: "out_shift ?n ?q = ?q\<lparr>db_b := ?b + ?n\<rparr>" using n(2) by (simp add: out_shift_def)
    show ?thesis
    proof (cases "?b \<le> ?e")
      case True
      then have "?b + ?n \<le> ?p" "?p \<le> ?e" using p n(3) by simp_all
      then show ?thesis using True pos n(1) size split [of ?e]
        by (auto simp: idx ring_content_def ring_wf_def db_wf_def Let_def)
    next
      case 2: False
      then have "?e < ?b + ?n" using n(1) by linarith
      moreover have "?b + ?n \<le> ?p \<or> ?p \<le> ?e" using 2 p n(3) by auto
      ultimately show ?thesis using 2 False pos n size split [of ?s]
        by (auto simp: idx ring_content_def ring_wf_def db_wf_def Let_def)
    qed
  qed
  moreover have "length (segment ?b (?b + ?n) ?buf) = nat ?n" using pos n(1,2) size by simp
  ultimately show ?thesis using run n(1) by auto
qed

section \<open>Properties\<close>



end
