(* ===== verification/Packet_Iter.thy ===== *)
theory Packet_Iter
  imports Packet_Buffer
begin

text \<open>
  \<open>packet_buffer.h\<close>: a range-based \<open>for\<close> over \<open>PacketBuffer::iter()\<close>. The loop is the one the
  language defines: compare with \<open>end()\<close>, run the body, advance. \<open>operator++\<close> calls \<open>next_pos\<close>
  without the position and is read as meant; the comparison is a parameter of the loop, to set
  the one of \<open>IndexIter\<close> beside the one that looks at the position. A loop that does not end is
  \<open>None\<close>.
\<close>

section \<open>The loop\<close>

definition ii_begin :: "index_iter \<Rightarrow> index_iter" where
  "ii_begin it = it"

definition ii_end :: "index_iter \<Rightarrow> u32" where
  "ii_end it = ii_end_idx it"

definition ii_advance :: "('p, 's) packet_buffer \<Rightarrow> index_iter \<Rightarrow> index_iter" where
  "ii_advance b it = it\<lparr>ii_pos_idx := next_pos b (ii_pos_idx it)\<rparr>"

definition ii_pos_neq :: "index_iter \<Rightarrow> u32 \<Rightarrow> bool" where
  "ii_pos_neq it e = (ii_pos_idx it \<noteq> e)"

text \<open>The positions for which the body runs.\<close>

partial_function (option) range_for ::
  "(index_iter \<Rightarrow> u32 \<Rightarrow> bool) \<Rightarrow> ('p, 's) packet_buffer \<Rightarrow> index_iter \<Rightarrow> u32 \<Rightarrow> u32 list option" where
  "range_for neq b it e =
     (if neq it e then
        Option.bind (range_for neq b (ii_advance b it) e) (\<lambda>ps. Some (ii_pos_idx it # ps))
      else Some [])"

definition for_iter :: "(index_iter \<Rightarrow> u32 \<Rightarrow> bool) \<Rightarrow> ('p, 's) packet_buffer \<Rightarrow> u32 list option" where
  "for_iter neq b = (let it = pb_iter b in range_for neq b (ii_begin it) (ii_end it))"

lemma ii_pos_neq_iff: "ii_pos_neq \<lparr>ii_pos_idx = pos, ii_end_idx = x\<rparr> e \<longleftrightarrow> pos \<noteq> e"
  by (simp add: ii_pos_neq_def)

lemma range_for_walk:
  assumes "\<forall>k < n. (next_pos b ^^ k) pos \<noteq> e" and "(next_pos b ^^ n) pos = e"
  shows "range_for ii_pos_neq b \<lparr>ii_pos_idx = pos, ii_end_idx = x\<rparr> e = Some (map (\<lambda>k. (next_pos b ^^ k) pos) [0..<n])"
  using assms
proof (induction n arbitrary: pos)
  case 0
  then show ?case by (subst range_for.simps) (simp add: ii_pos_neq_iff)
next
  case (Suc n)
  have ne: "pos \<noteq> e" using Suc.prems(1) by (metis funpow_0 zero_less_Suc)
  have "\<forall>k < n. (next_pos b ^^ k) (next_pos b pos) \<noteq> e" "(next_pos b ^^ n) (next_pos b pos) = e"
    using Suc.prems by (metis Suc_mono funpow_Suc_right o_apply)+
  from Suc.IH [OF this] ne
  have "range_for ii_pos_neq b \<lparr>ii_pos_idx = pos, ii_end_idx = x\<rparr> e
      = Some (pos # map (\<lambda>k. (next_pos b ^^ k) (next_pos b pos)) [0..<n])"
    by (subst range_for.simps) (simp add: ii_pos_neq_iff ii_advance_def)
  also have "pos # map (\<lambda>k. (next_pos b ^^ k) (next_pos b pos)) [0..<n] = map (\<lambda>k. (next_pos b ^^ k) pos) [0..<Suc n]"
    by (subst upt_conv_Cons) (simp_all add: map_Suc_upt [symmetric] funpow_Suc_right del: upt_Suc funpow.simps)
  finally show ?case .
qed

lemma walk_before_end:
  assumes "pb_wf b" and "pb_packets b = Some ps" and "pb_start b < pb_size b" and "pb_end b < pb_size b"
    and "k < length (pb_content b)"
  shows "(next_pos b ^^ k) (pb_start b) \<noteq> pb_end b"
proof -
  have len: "length ps = unat (pb_size b)" using assms(1,2) by (simp add: pb_wf_def)
  have lt: "unat (pb_start b) < unat (pb_size b)" "unat (pb_end b) < unat (pb_size b)"
    using assms(3,4) by (simp_all add: word_less_nat_alt)
  have "k \<le> unat (pb_size b)" and
    "unat (pb_start b) + k \<noteq> unat (pb_end b)" "unat (pb_start b) + k \<noteq> unat (pb_end b) + unat (pb_size b)"
    using assms(2,5) lt len by (auto simp: pb_content_def Let_def word_le_nat_alt min_def split: if_splits)
  then show ?thesis using walk_position [OF assms(3), of k] lt by (auto split: if_splits)
qed

section \<open>Properties\<close>

text \<open>
  A loop over \<open>iter()\<close> never runs its body, whatever the ring holds, because \<open>operator!=\<close> compares
  the end with the end. With a comparison of the position the loop would end, and its body would
  run for the packets of the ring, in order.
\<close>

theorem range_for_never_runs:
  assumes "pb_wf b" and "pb_packets b = Some ps" and "pb_start b < pb_size b" and "pb_end b < pb_size b"
  shows "for_iter ii_neq b = Some [] \<and>
    (\<exists>visited. for_iter ii_pos_neq b = Some visited \<and> map (\<lambda>pos. ps ! unat pos) visited = pb_content b)"
proof
  show "for_iter ii_neq b = Some []"
    by (simp add: for_iter_def ii_begin_def ii_end_def pb_iter_def ii_neq_def range_for.simps)
  note walk = next_pos_walks_content [OF assms]
  let ?n = "length (pb_content b)" and ?pos = "\<lambda>k. (next_pos b ^^ k) (pb_start b)"
  have "for_iter ii_pos_neq b = Some (map ?pos [0..<?n])"
    unfolding for_iter_def ii_begin_def ii_end_def pb_iter_def Let_def index_iter.select_convs
    by (rule range_for_walk) (use walk walk_before_end [OF assms] in auto)
  moreover have "map (\<lambda>pos. ps ! unat pos) (map ?pos [0..<?n]) = pb_content b"
    using walk by (intro nth_equalityI) simp_all
  ultimately show "\<exists>visited. for_iter ii_pos_neq b = Some visited \<and> map (\<lambda>pos. ps ! unat pos) visited = pb_content b"
    by blast
qed

theorem range_for_never_runs_witness:
  "\<exists>visited. for_iter ii_pos_neq \<lparr>pb_packets = Some [7, 8, 9 :: nat], pb_size = 3, pb_start = 2, pb_end = 1, pb_seq_start = 5 :: u16\<rparr>
      = Some visited \<and> map (\<lambda>pos. [7, 8, 9 :: nat] ! unat pos) visited = [9, 7]"
proof -
  let ?b = "\<lparr>pb_packets = Some [7, 8, 9 :: nat], pb_size = 3, pb_start = 2, pb_end = 1, pb_seq_start = 5 :: u16\<rparr>"
  have h: "pb_wf ?b" "pb_packets ?b = Some [7, 8, 9]" "pb_start ?b < pb_size ?b" "pb_end ?b < pb_size ?b"
    and c: "pb_content ?b = [9, 7]" by (simp_all add: pb_wf_def pb_content_def Let_def word_le_nat_alt)
  show ?thesis using range_for_never_runs [OF h] unfolding c by blast
qed

end
