(* ===== verification/Guard_Use.thy ===== *)
theory Guard_Use
  imports Guards
begin

text \<open>
  Using what a guard holds: the accessors of \<open>SocketGuard\<close> and \<open>GuardPointer\<close> that do not give the
  resource away, and that what they return is neither released nor held by another guard.
\<close>

section \<open>Accessors\<close>

definition sg_get :: "socket_guard \<Rightarrow> int" where
  "sg_get g = sg_fd g"

definition sg_to_int :: "socket_guard \<Rightarrow> int" where
  "sg_to_int g = sg_fd g"

definition gp_get :: "guard_pointer \<Rightarrow> nat option" where
  "gp_get g = gp_ptr g"

definition gp_to_ptr :: "guard_pointer \<Rightarrow> nat option" where
  "gp_to_ptr g = gp_ptr g"

definition gp_is_null :: "guard_pointer \<Rightarrow> bool" where
  "gp_is_null g \<longleftrightarrow> gp_ptr g = None"

section \<open>One owner\<close>

lemma count_bag: "count (bag c gs) r = length (filter (\<lambda>g. gc_held c g = Some r) gs)"
  by (induction gs) (auto simp: bag_def held_bag_def opt_list_def split: option.splits)

lemma filter_unique:
  assumes "length (filter P xs) \<le> 1" and "i < length xs" "P (xs ! i)" "j < length xs" "P (xs ! j)"
  shows "i = j"
proof -
  have "card {k. k < length xs \<and> P (xs ! k)} \<le> Suc 0" using assms(1) by (simp add: length_filter_conv_card)
  then have "\<forall>a \<in> {k. k < length xs \<and> P (xs ! k)}. \<forall>b \<in> {k. k < length xs \<and> P (xs ! k)}. a = b"
    by (subst (asm) card_le_Suc0_iff_eq) simp_all
  then show ?thesis using assms(2-5) by blast
qed

context resource_guard
begin

lemma held_once:
  assumes "guard_run c ps gs = Some (gs', acq, rel, out)" and "bag c gs = {#}" and "distinct acq"
    and "i < length gs'" and "gc_held c (gs' ! i) = Some r"
  shows "r \<notin> set rel \<and> r \<notin> set out \<and> (\<forall>j < length gs'. gc_held c (gs' ! j) = Some r \<longrightarrow> j = i)"
proof -
  have eq: "count (mset acq) r = count (bag c gs') r + count (mset rel) r + count (mset out) r"
    using run_conserves [OF assms(1)] assms(2) by simp
  moreover have "count (mset acq) r \<le> 1" using assms(3) by (metis distinct_count_atmost_1 le_numeral_extra(4) zero_le_one)
  moreover have "filter (\<lambda>g. gc_held c g = Some r) gs' \<noteq> []" using assms(4,5) by (auto simp: filter_empty_conv)
  then have "1 \<le> count (bag c gs') r" unfolding count_bag by (cases "filter (\<lambda>g. gc_held c g = Some r) gs'") simp_all
  ultimately have "count (mset rel) r = 0" "count (mset out) r = 0" and one: "count (bag c gs') r \<le> 1" by linarith+
  then have "r \<notin> set rel" "r \<notin> set out" by simp_all
  moreover have "j = i" if "j < length gs'" "gc_held c (gs' ! j) = Some r" for j
    by (rule filter_unique [OF one [unfolded count_bag] that assms(4,5)])
  ultimately show ?thesis by blast
qed

end

lemma no_guards: "bag socket_class (replicate n sg_empty) = {#}" "bag pointer_class (replicate n gp_empty) = {#}"
  by (induction n) (simp_all add: bag_def held_bag_def opt_list_def socket_class_def sg_held_def sg_empty_def
      pointer_class_def gp_empty_def)

section \<open>Properties\<close>

text \<open>
  What an accessor shows is safe to use: in every program whose resources are different, a
  descriptor or pointer read from a guard has not been closed or freed, nor handed out, and no
  other guard holds it, so nobody else will release it.
\<close>

theorem shown_resource_is_live:
  "(guard_run socket_class ps (replicate n sg_empty) = Some (gs, acq, rel, out) \<and> distinct acq \<and>
      i < length gs \<and> 0 \<le> sg_get (gs ! i) \<longrightarrow>
      sg_get (gs ! i) = sg_to_int (gs ! i) \<and> sg_get (gs ! i) \<notin> set rel \<union> set out \<and>
      (\<forall>j < length gs. sg_get (gs ! j) = sg_get (gs ! i) \<longrightarrow> j = i)) \<and>
   (guard_run pointer_class qs (replicate n gp_empty) = Some (hs, acq', rel', out') \<and> distinct acq' \<and>
      i < length hs \<and> \<not> gp_is_null (hs ! i) \<longrightarrow>
      (\<exists>p. gp_get (hs ! i) = Some p \<and> gp_to_ptr (hs ! i) = Some p \<and> p \<notin> set rel' \<union> set out') \<and>
      (\<forall>j < length hs. gp_get (hs ! j) = gp_get (hs ! i) \<longrightarrow> j = i))"
proof (intro conjI impI; elim conjE)
  assume h: "guard_run socket_class ps (replicate n sg_empty) = Some (gs, acq, rel, out)" "distinct acq"
    "i < length gs" "0 \<le> sg_get (gs ! i)"
  then have "gc_held socket_class (gs ! i) = Some (sg_get (gs ! i))" by (simp add: socket_class_def sg_held_def sg_get_def)
  from sock.held_once [OF h(1) no_guards(1) h(2,3) this] h(4)
  show "sg_get (gs ! i) = sg_to_int (gs ! i)" "sg_get (gs ! i) \<notin> set rel \<union> set out"
    "\<forall>j < length gs. sg_get (gs ! j) = sg_get (gs ! i) \<longrightarrow> j = i"
    by (simp_all add: socket_class_def sg_held_def sg_get_def sg_to_int_def)
next
  assume h: "guard_run pointer_class qs (replicate n gp_empty) = Some (hs, acq', rel', out')" "distinct acq'"
    "i < length hs" "\<not> gp_is_null (hs ! i)"
  then obtain p where p: "gp_ptr (hs ! i) = Some p" by (auto simp: gp_is_null_def)
  then have "gc_held pointer_class (hs ! i) = Some p" by (simp add: pointer_class_def)
  from gptr.held_once [OF h(1) no_guards(2) h(2,3) this] p
  show "\<exists>p. gp_get (hs ! i) = Some p \<and> gp_to_ptr (hs ! i) = Some p \<and> p \<notin> set rel' \<union> set out'"
    "\<forall>j < length hs. gp_get (hs ! j) = gp_get (hs ! i) \<longrightarrow> j = i"
    by (simp_all add: pointer_class_def gp_get_def gp_to_ptr_def)
qed

theorem shown_resource_is_live_witness:
  "\<exists>gs acq rel out. guard_run socket_class [Acquire 0 5, Acquire 1 6, Assign 0 1] (replicate 2 sg_empty)
      = Some (gs, acq, rel, out) \<and> sg_get (gs ! 0) = 6 \<and> sg_get (gs ! 0) \<notin> set rel"
proof -
  let ?gs = "[\<lparr>sg_fd = 6\<rparr>, \<lparr>sg_fd = - 1\<rparr>]"
  have r: "guard_run socket_class [Acquire 0 5, Acquire 1 6, Assign 0 1] (replicate 2 sg_empty)
      = Some (?gs, [5, 6], [5], [])"
    by (simp add: sg_defs sg_empty_def opt_list_def numeral_2_eq_2)
  have g: "sg_get (?gs ! 0) = 6" by (simp add: sg_get_def)
  from shown_resource_is_live [THEN conjunct1, of "[Acquire 0 5, Acquire 1 6, Assign 0 1]" 2 ?gs "[5, 6]" "[5]" "[]" 0] r g
  have "sg_get (?gs ! 0) \<notin> set [5]" by simp
  with r g show ?thesis by blast
qed

end
