(* ===== verification/Lock_Progress.thy ===== *)
theory Lock_Progress
  imports Lock_Simple Lock_Brute
begin

text \<open>
  Progress of the futex locks of \<open>utils/lock/\<close>. A thread that is neither outside nor holding nor
  asleep is busy: it has an operation of the lock to finish. Let busy threads alone run, in any
  order, without new calls of \<open>lock_c\<close>, without a release and without spurious wake-ups. Every
  such run ends, and it ends with the lock taken if a thread sleeps for it. The locale
  \<open>lock_progress\<close> adds to \<open>lock_protocol\<close> what this takes: a rank of the states of a thread.
\<close>

section \<open>Busy threads\<close>

fun busy :: "lock_pc \<Rightarrow> bool" where
  "busy Out = False"
| "busy Hold = False"
| "busy (Asleep v) = False"
| "busy _ = True"

definition working :: "(lock_state \<Rightarrow> lock_state \<Rightarrow> bool) \<Rightarrow> lock_state \<Rightarrow> lock_state \<Rightarrow> bool" where
  "working step s s' \<longleftrightarrow> step s s' \<and> (\<exists>t. busy (lk_pc s t) \<and> lk_pc s' t \<noteq> lk_pc s t)"

definition at_rest :: "lock_pc \<Rightarrow> bool" where
  "at_rest p \<longleftrightarrow> p = Out \<or> p = Hold \<or> (\<exists>v. p = Asleep v)"

lemma not_busy: "\<not> busy p \<longleftrightarrow> at_rest p"
  by (cases p) (auto simp: at_rest_def)

section \<open>Ranks\<close>

text \<open>
  How many operations a thread has before it at most, when the lock is free and when it is taken.
  A notifier counts the steps of the thread it wakes as well.
\<close>

fun rank_free :: "lock_pc \<Rightarrow> nat" where
  "rank_free (Retry v) = 1"
| "rank_free (Wait_dec v) = 2"
| "rank_free (Wait_futex v) = 3"
| "rank_free (Wait_inc v) = 4"
| "rank_free (Spin_dec got) = 5"
| "rank_free (Spin_try k) = 6 + k"
| "rank_free Spin_inc = 31"
| "rank_free Spin_look = 32"
| "rank_free (Wake w) = 7"
| "rank_free (Check w) = 8"
| "rank_free (Brute_check w) = 9"
| "rank_free _ = 0"

fun rank_taken :: "lock_pc \<Rightarrow> nat" where
  "rank_taken (Wait_futex v) = (if v = 1 then 1 else 33)"
| "rank_taken (Wait_inc v) = (if v = 1 then 2 else 34)"
| "rank_taken (Spin_dec got) = 3"
| "rank_taken (Spin_try k) = 4 + k"
| "rank_taken Spin_inc = 29"
| "rank_taken Spin_look = 30"
| "rank_taken (Retry v) = 31"
| "rank_taken (Wait_dec v) = 32"
| "rank_taken (Wake w) = 67"
| "rank_taken (Check w) = 68"
| "rank_taken (Brute_check w) = 69"
| "rank_taken _ = 0"

definition lock_rank :: "int \<Rightarrow> lock_pc \<Rightarrow> nat" where
  "lock_rank var = (if var = 0 then rank_free else rank_taken)"

text \<open>One thread goes down in rank, or two together.\<close>

definition descends :: "(lock_pc \<Rightarrow> nat) \<Rightarrow> (nat \<Rightarrow> lock_pc) \<Rightarrow> (nat \<Rightarrow> lock_pc) \<Rightarrow> bool" where
  "descends r pc pc' \<longleftrightarrow>
     (\<exists>t x. pc' = pc(t := x) \<and> pc t \<noteq> Out \<and> r x < r (pc t)) \<or>
     (\<exists>t x u y. pc' = pc(u := y, t := x) \<and> t \<noteq> u \<and> pc t \<noteq> Out \<and> pc u \<noteq> Out \<and> r x + r y < r (pc t) + r (pc u))"

lemma descends_one: "pc t \<noteq> Out \<Longrightarrow> r x < r (pc t) \<Longrightarrow> descends r pc (pc(t := x))"
  unfolding descends_def by blast

lemma descends_two:
  "t \<noteq> u \<Longrightarrow> pc t \<noteq> Out \<Longrightarrow> pc u \<noteq> Out \<Longrightarrow> r x + r y < r (pc t) + r (pc u) \<Longrightarrow> descends r pc (pc(u := y, t := x))"
  unfolding descends_def by blast

definition active :: "lock_state \<Rightarrow> nat set" where
  "active s = in_pc (\<lambda>p. p \<noteq> Out) (lk_pc s)"

lemma sum_upd:
  assumes "finite A" and "t \<in> A"
  shows "(\<Sum>i\<in>A. r ((pc(t := x)) i)) + r (pc t) = (\<Sum>i\<in>A. r (pc i)) + (r x :: nat)"
proof -
  have "(\<Sum>i\<in>A - {t}. r ((pc(t := x)) i)) = (\<Sum>i\<in>A - {t}. r (pc i))" by (intro sum.cong) auto
  then show ?thesis using sum.remove [OF assms, of "\<lambda>i. r ((pc(t := x)) i)"] sum.remove [OF assms, of "\<lambda>i. r (pc i)"] by simp
qed

lemma descends_sum:
  assumes "descends r pc pc'" and "finite A" and "{t. pc t \<noteq> Out} \<subseteq> A"
  shows "(\<Sum>i\<in>A. r (pc' i)) < (\<Sum>i\<in>A. r (pc i))"
  using assms(1) unfolding descends_def
proof (elim disjE exE conjE)
  fix t x assume "pc' = pc(t := x)" "pc t \<noteq> Out" "r x < r (pc t)"
  then show ?thesis using sum_upd [OF assms(2), of t r pc x] assms(3) by auto
next
  fix t x u y
  assume h: "pc' = pc(u := y, t := x)" "t \<noteq> u" "pc t \<noteq> Out" "pc u \<noteq> Out" "r x + r y < r (pc t) + r (pc u)"
  then have "t \<in> A" "u \<in> A" using assms(3) by auto
  then show ?thesis
    using sum_upd [OF assms(2), of t r "pc(u := y)" x] sum_upd [OF assms(2), of u r pc y] h by simp
qed

text \<open>What is left to do: the lock to be taken, then the operations of the threads.\<close>

definition remaining :: "nat set \<Rightarrow> lock_state \<Rightarrow> nat \<times> nat" where
  "remaining A s = (of_bool (lk_futex_var s = 0), \<Sum>t\<in>A. lock_rank (lk_futex_var s) (lk_pc s t))"

text \<open>
  A state settles when the busy threads stop after finitely many operations, whatever their order,
  with every thread outside, holding or asleep, and the lock held if one sleeps for it.
\<close>

definition settles :: "(lock_state \<Rightarrow> lock_state \<Rightarrow> bool) \<Rightarrow> lock_state \<Rightarrow> bool" where
  "settles step s \<longleftrightarrow>
     (\<forall>f. f 0 = s \<longrightarrow> (\<exists>n. \<not> working step (f n) (f (Suc n)))) \<and>
     (\<forall>s'. (working step)\<^sup>*\<^sup>* s s' \<and> (\<nexists>s''. working step s' s'') \<longrightarrow>
       (\<forall>t. at_rest (lk_pc s' t)) \<and> ((\<exists>t. lk_pc s' t = Asleep 1) \<longrightarrow> (\<exists>u. lk_pc s' u = Hold)))"

section \<open>The contract\<close>

locale lock_progress = lock_protocol step holding moving inv
  for step :: "lock_state \<Rightarrow> lock_state \<Rightarrow> bool" and holding moving :: "lock_pc \<Rightarrow> bool" and inv :: "lock_state \<Rightarrow> bool" +
  assumes active_finite: "finite (active s) \<Longrightarrow> step s s' \<Longrightarrow> finite (active s')"
    and work_taken: "inv s \<Longrightarrow> working step s s' \<Longrightarrow> lk_futex_var s \<noteq> 0 \<Longrightarrow> lk_futex_var s' \<noteq> 0"
    and work_active: "working step s s' \<Longrightarrow> active s' \<subseteq> active s"
    and work_descends: "inv s \<Longrightarrow> working step s s' \<Longrightarrow> (lk_futex_var s' = 0) = (lk_futex_var s = 0) \<Longrightarrow>
      descends (lock_rank (lk_futex_var s)) (lk_pc s) (lk_pc s')"
    and busy_works: "inv s \<Longrightarrow> busy (lk_pc s t) \<Longrightarrow> \<exists>s'. working step s s'"
    and moving_busy: "moving p \<Longrightarrow> busy p"
    and holding_rest: "holding p \<Longrightarrow> busy p \<or> p = Hold"
begin

lemma reachable_active: "step\<^sup>*\<^sup>* lock_init s \<Longrightarrow> finite (active s)"
proof (induction rule: rtranclp_induct)
  case base
  show ?case by (simp add: active_def lock_init_def in_pc_def)
qed (rule active_finite)

lemma work_reachable: "step\<^sup>*\<^sup>* lock_init s \<Longrightarrow> working step s s' \<Longrightarrow> step\<^sup>*\<^sup>* lock_init s'"
  unfolding working_def by (blast intro: rtranclp.rtrancl_into_rtrancl)

lemma work_measure:
  assumes "inv s" and "working step s s'" and "finite A" and "active s \<subseteq> A"
  shows "(remaining A s', remaining A s) \<in> less_than <*lex*> less_than"
proof (cases "(lk_futex_var s' = 0) = (lk_futex_var s = 0)")
  case True
  then have "lock_rank (lk_futex_var s') = lock_rank (lk_futex_var s)" by (simp add: lock_rank_def)
  then show ?thesis
    using descends_sum [OF work_descends [OF assms(1,2) True] assms(3)] assms(4) True
    by (simp add: remaining_def active_def in_pc_def)
next
  case False
  then show ?thesis using work_taken [OF assms(1,2)] by (cases "lk_futex_var s = 0") (auto simp: remaining_def)
qed

lemma runs_end:
  assumes "step\<^sup>*\<^sup>* lock_init (f 0)"
  shows "\<exists>n. \<not> working step (f n) (f (Suc n))"
proof (rule ccontr)
  assume "\<not> (\<exists>n. \<not> working step (f n) (f (Suc n)))"
  then have w: "working step (f n) (f (Suc n))" for n by blast
  have r: "step\<^sup>*\<^sup>* lock_init (f n) \<and> active (f n) \<subseteq> active (f 0)" for n
    by (induction n) (use assms w work_reachable work_active in blast)+
  have "wf (less_than <*lex*> less_than)" by (intro wf_lex_prod wf_less_than)
  then obtain n where "(remaining (active (f 0)) (f (Suc n)), remaining (active (f 0)) (f n)) \<notin> less_than <*lex*> less_than"
    by (rule wf_no_infinite_down_chainE [of _ "\<lambda>n. remaining (active (f 0)) (f n)"])
  then show False using work_measure [OF reachable_inv w] r reachable_active [OF assms] by blast
qed

lemma reachable_settles:
  assumes "step\<^sup>*\<^sup>* lock_init s"
  shows "settles step s"
  unfolding settles_def
proof (intro conjI allI impI; (elim conjE)?)
  show "\<exists>n. \<not> working step (f n) (f (Suc n))" if "f 0 = s" for f
    using runs_end [of f] assms that by blast
  fix s' assume "(working step)\<^sup>*\<^sup>* s s'" and stop: "\<nexists>s''. working step s' s''"
  from this(1) have r: "step\<^sup>*\<^sup>* lock_init s'"
    by (induction rule: rtranclp_induct) (use assms work_reachable in blast)+
  have idle: "\<not> busy (lk_pc s' t)" for t using busy_works [OF reachable_inv [OF r]] stop by blast
  show "at_rest (lk_pc s' t)" for t using idle not_busy by blast
  show "\<exists>u. lk_pc s' u = Hold" if "\<exists>t. lk_pc s' t = Asleep 1"
    using no_lost_wakeup [OF r] that idle moving_busy holding_rest by blast
qed

end

section \<open>LockObjectSimple\<close>

lemma active_goto [simp]: "finite (active (goto t x s)) \<longleftrightarrow> finite (active s)"
  by (simp add: active_def goto_def)

lemma active_vars [simp]:
  "active (s\<lparr>lk_futex_var := v\<rparr>) = active s" "active (s\<lparr>lk_num_futex_waiters := n\<rparr>) = active s"
  "active (s\<lparr>lk_num_brute_waiters := n\<rparr>) = active s"
  by (simp_all add: active_def)

text \<open>A busy thread that performs an operation works.\<close>

lemma workingI: "step s s' \<Longrightarrow> busy (lk_pc s t) \<Longrightarrow> lk_pc s' t \<noteq> lk_pc s t \<Longrightarrow> \<exists>s'. working step s s'"
  by (auto simp: working_def)

lemma work_either:
  assumes "c \<Longrightarrow> step s a" and "\<not> c \<Longrightarrow> step s b"
    and "busy (lk_pc s t)" and "lk_pc a t \<noteq> lk_pc s t" and "lk_pc b t \<noteq> lk_pc s t"
  shows "\<exists>s'. working step s s'"
  using assms workingI by (cases c) blast+

lemma workingE:
  assumes "working step s s'"
  obtains t where "step s s'" and "busy (lk_pc s t)" and "lk_pc s' t \<noteq> lk_pc s t"
  using assms by (auto simp: working_def)

lemma simple_work_descends:
  assumes "working simple_step s s'" and "simple_inv s" and "(lk_futex_var s' = 0) = (lk_futex_var s = 0)"
  shows "descends (lock_rank (lk_futex_var s)) (lk_pc s) (lk_pc s')"
proof -
  obtain t where "simple_step s s'" and t: "busy (lk_pc s t)" "lk_pc s' t \<noteq> lk_pc s t"
    using assms(1) by (rule workingE)
  have var: "lk_futex_var s = 0 \<or> lk_futex_var s = 1"
    using assms(2) by (auto simp: simple_inv_def dest: one_holder_cases)
  from \<open>simple_step s s'\<close> show ?thesis
  proof cases
    case (wake_one t w u v)
    then show ?thesis by (auto simp: goto_def lock_rank_def after_unlock_def intro!: descends_two)
  qed (use t var assms(3) in \<open>auto simp: goto_def lock_rank_def after_unlock_def intro!: descends_one split: if_splits\<close>)
qed

text \<open>The spinning states belong to the other lock.\<close>

fun spins :: "lock_pc \<Rightarrow> bool" where
  "spins Spin_look = True"
| "spins Spin_inc = True"
| "spins (Spin_try k) = True"
| "spins (Spin_dec got) = True"
| "spins (Brute_check w) = True"
| "spins _ = False"

lemma after_unlock_no_spin [simp]:
  "\<not> spins (after_unlock w)" "after_unlock w \<noteq> Wake b" "after_unlock w \<noteq> Check b" "after_unlock w \<noteq> Brute_check b"
  by (simp_all add: after_unlock_def)

lemma simple_no_spin:
  assumes "simple_step s s'" and "\<forall>t. \<not> spins (lk_pc s t)"
  shows "\<forall>t. \<not> spins (lk_pc s' t)"
  using assms by cases (simp_all add: goto_def)

lemma simple_busy_works:
  assumes "\<not> spins (lk_pc s t)" and "busy (lk_pc s t)"
  shows "\<exists>s'. working simple_step s s'"
proof -
  note work = workingI [of simple_step s _ t, OF _ assms(2)]
  show ?thesis
  proof (cases "lk_pc s t")
    case (Wake w)
    show ?thesis
    proof (cases "\<exists>u v. lk_pc s u = Asleep v")
      case True
      then obtain u v where "lk_pc s u = Asleep v" by blast
      from work [OF simple_step.wake_one [OF Wake this]] Wake show ?thesis by (simp add: goto_def)
    next
      case False
      then show ?thesis using work [OF simple_step.wake_none [OF Wake]] Wake by (simp add: goto_def)
    qed
  next
    case (Wait_futex v)
    show ?thesis by (rule work_either [where step = simple_step, OF simple_step.futex_sleep [OF Wait_futex] simple_step.futex_again [OF Wait_futex] assms(2)]) (simp_all add: Wait_futex goto_def)
  next
    case (Retry v)
    show ?thesis by (rule work_either [where step = simple_step, OF simple_step.retry_ok [OF Retry] simple_step.retry_busy [OF Retry] assms(2)]) (simp_all add: Retry goto_def)
  next
    case (Check w)
    show ?thesis by (rule work_either [where step = simple_step, OF simple_step.check_none [OF Check] simple_step.check_some [OF Check] assms(2)]) (simp_all add: Check goto_def)
  qed (use assms in \<open>auto intro: work simple_step.intros simp: goto_def\<close>)
qed

lemma simple_active_finite:
  assumes "simple_step s s'" and "finite (active s)"
  shows "finite (active s')"
  using assms by cases simp_all

lemma simple_work_keeps:
  assumes "working simple_step s s'"
  shows "lk_futex_var s \<noteq> 0 \<Longrightarrow> lk_futex_var s' \<noteq> 0" and "active s' \<subseteq> active s"
proof -
  obtain t where step: "simple_step s s'" and t: "busy (lk_pc s t)" "lk_pc s' t \<noteq> lk_pc s t"
    using assms by (rule workingE)
  from step show "lk_futex_var s \<noteq> 0 \<Longrightarrow> lk_futex_var s' \<noteq> 0"
    by cases (use t in \<open>auto simp: goto_def split: if_splits\<close>)
  from step show "active s' \<subseteq> active s"
    by cases (use t in \<open>auto simp: goto_def active_def in_pc_def split: if_splits\<close>)
qed

interpretation simple_run: lock_progress simple_step is_hold simple_moving
  "\<lambda>s. simple_inv s \<and> (\<forall>t. \<not> spins (lk_pc s t))"
proof
  show "simple_inv lock_init \<and> (\<forall>t. \<not> spins (lk_pc lock_init t))"
    using simple_inv_init by (simp add: lock_init_def)
  show "simple_inv s' \<and> (\<forall>t. \<not> spins (lk_pc s' t))" if "simple_inv s \<and> (\<forall>t. \<not> spins (lk_pc s t))" "simple_step s s'" for s s'
    using that simple_inv_step simple_no_spin by blast
  show "busy p" if "simple_moving p" for p using that by (cases p) simp_all
  show "busy p \<or> p = Hold" if "is_hold p" for p using that by (simp add: is_hold_def)
qed (use simple.inv_unique simple.inv_held simple.inv_wake simple_work_descends simple_busy_works
    simple_active_finite simple_work_keeps in blast)+

section \<open>LockObjectBrute\<close>

lemma brute_work_descends:
  assumes "working brute_step s s'" and "brute_inv s" and "(lk_futex_var s' = 0) = (lk_futex_var s = 0)"
  shows "descends (lock_rank (lk_futex_var s)) (lk_pc s) (lk_pc s')"
proof -
  obtain t where "brute_step s s'" and t: "busy (lk_pc s t)" "lk_pc s' t \<noteq> lk_pc s t"
    using assms(1) by (rule workingE)
  have var: "lk_futex_var s = 0 \<or> lk_futex_var s = 1"
    using assms(2) by (auto simp: brute_inv_def dest: one_holder_cases)
  from \<open>brute_step s s'\<close> show ?thesis
  proof cases
    case (wake_one t w u v)
    then show ?thesis by (auto simp: goto_def lock_rank_def after_unlock_def intro!: descends_two)
  qed (use t var assms(3) in \<open>auto simp: goto_def lock_rank_def after_unlock_def BRUTE_WAIT_LIMIT_def
      intro!: descends_one split: if_splits\<close>)
qed

lemma brute_busy_works:
  assumes "busy (lk_pc s t)"
  shows "\<exists>s'. working brute_step s s'"
proof -
  note work = workingI [of brute_step s _ t, OF _ assms]
  show ?thesis
  proof (cases "lk_pc s t")
    case (Wake w)
    show ?thesis
    proof (cases "\<exists>u v. lk_pc s u = Asleep v")
      case True
      then obtain u v where "lk_pc s u = Asleep v" by blast
      from work [OF brute_step.wake_one [OF Wake this]] Wake show ?thesis by (simp add: goto_def)
    next
      case False
      then show ?thesis using work [OF brute_step.wake_none [OF Wake]] Wake by (simp add: goto_def)
    qed
  next
    case (Wait_futex v)
    show ?thesis by (rule work_either [where step = brute_step, OF brute_step.futex_sleep [OF Wait_futex] brute_step.futex_again [OF Wait_futex] assms]) (simp_all add: Wait_futex goto_def)
  next
    case (Retry v)
    show ?thesis by (rule work_either [where step = brute_step, OF brute_step.retry_ok [OF Retry] brute_step.retry_busy [OF Retry] assms]) (simp_all add: Retry goto_def)
  next
    case (Check w)
    show ?thesis by (rule work_either [where step = brute_step, OF brute_step.check_none [OF Check] brute_step.check_some [OF Check] assms]) (simp_all add: Check goto_def)
  next
    case (Brute_check w)
    show ?thesis by (rule work_either [where step = brute_step, OF brute_step.do_notify [OF Brute_check] brute_step.skip_notify [OF Brute_check] assms]) (simp_all add: Brute_check goto_def)
  next
    case Spin_look
    show ?thesis by (rule work_either [where step = brute_step, OF brute_step.look_spin [OF Spin_look] brute_step.look_sleep [OF Spin_look] assms]) (simp_all add: Spin_look goto_def)
  next
    case (Spin_try k)
    have "(if k - 1 = 0 then Spin_dec False else Spin_try (k - 1)) \<noteq> Spin_try k" by auto
    then show ?thesis
      by (intro work_either [where step = brute_step, OF brute_step.spin_ok [OF Spin_try] brute_step.spin_busy [OF Spin_try] assms])
        (simp_all add: Spin_try goto_def split del: if_split)
  next
    case (Spin_dec got)
    then show ?thesis using work [OF brute_step.spin_dec [OF Spin_dec]] by (simp add: goto_def)
  qed (use assms in \<open>auto intro: work brute_step.intros simp: goto_def\<close>)
qed

lemma brute_active_finite:
  assumes "brute_step s s'" and "finite (active s)"
  shows "finite (active s')"
  using assms by cases simp_all

lemma brute_work_keeps:
  assumes "working brute_step s s'"
  shows "lk_futex_var s \<noteq> 0 \<Longrightarrow> lk_futex_var s' \<noteq> 0" and "active s' \<subseteq> active s"
proof -
  obtain t where step: "brute_step s s'" and t: "busy (lk_pc s t)" "lk_pc s' t \<noteq> lk_pc s t"
    using assms by (rule workingE)
  from step show "lk_futex_var s \<noteq> 0 \<Longrightarrow> lk_futex_var s' \<noteq> 0"
    by cases (use t in \<open>auto simp: goto_def split: if_splits\<close>)
  from step show "active s' \<subseteq> active s"
    by cases (use t in \<open>auto simp: goto_def active_def in_pc_def split: if_splits\<close>)
qed

interpretation brute_run: lock_progress brute_step brute_holding brute_moving brute_inv
proof
  show "busy p" if "brute_moving p" for p using that by (cases p) simp_all
  show "busy p \<or> p = Hold" if "brute_holding p" for p using that by (cases p) simp_all
qed (use brute_work_descends brute_busy_works brute_active_finite brute_work_keeps in blast)+

section \<open>Properties\<close>



end
