(* ===== verification/Net_Driver.thy ===== *)
theory Net_Driver
  imports Udp4_Transport
begin

text \<open>
  \<open>net_drv.h\<close>: the abstract driver, and what a client gets that knows \<open>Udp4Driver\<close> only as a
  \<open>NetDriver\<close>. A virtual method is called for the dynamic type of the object when that class has
  a method of the same name and parameters, and for the base otherwise: \<open>push_data\<close>,
  \<open>push_control\<close> and \<open>Addr::load\<close> of \<open>udp4.h\<close> take other parameters, so they do not override
  anything.
\<close>

section \<open>Addresses\<close>

text \<open>The dynamic type of a \<open>NetAddr\<close>.\<close>

datatype net_addr = Net_addr | Addr udp_addr

datatype cast_exc = Bad_cast

text \<open>\<open>dynamic_cast<const Addr &>(addr)\<close>.\<close>

fun cast_addr :: "net_addr \<Rightarrow> cast_exc + udp_addr" where
  "cast_addr Net_addr = Inl Bad_cast"
| "cast_addr (Addr a) = Inr a"

fun net_addr_hash :: "net_addr \<Rightarrow> u64" where
  "net_addr_hash Net_addr = 0"
| "net_addr_hash (Addr a) = addr_hash a"

text \<open>\<open>std::hash<const T>\<close>.\<close>

definition std_hash :: "net_addr \<Rightarrow> u64" where
  "std_hash v = net_addr_hash v"

text \<open>\<open>NetAddr::load(Config *)\<close>, the only \<open>load\<close> a \<open>NetAddr\<close> has.\<close>

definition net_addr_load :: "'cfg \<Rightarrow> net_addr \<Rightarrow> net_addr" where
  "net_addr_load config a = a"

section \<open>Drivers\<close>

text \<open>The dynamic type of a \<open>NetDriver\<close>.\<close>

datatype 'c net_driver = Net_driver | Udp4_driver "'c udp4_driver"

fun net_detach :: "net_addr \<Rightarrow> 'c net_driver \<Rightarrow> cast_exc option \<times> 'c net_driver" where
  "net_detach addr Net_driver = (None, Net_driver)"
| "net_detach addr (Udp4_driver d) =
     (case cast_addr addr of
        Inl e \<Rightarrow> (Some e, Udp4_driver d)
      | Inr a \<Rightarrow> (None, Udp4_driver (detach a d)))"

fun net_attach :: "net_addr \<Rightarrow> 'c \<Rightarrow> 'c net_driver \<Rightarrow> cast_exc option \<times> 'c net_driver" where
  "net_attach addr conn Net_driver = (None, Net_driver)"
| "net_attach addr conn (Udp4_driver d) =
     (case cast_addr addr of
        Inl e \<Rightarrow> (Some e, Udp4_driver d)
      | Inr a \<Rightarrow> (None, Udp4_driver (attach a conn d)))"

definition net_push_data :: "bytes \<Rightarrow> nat \<Rightarrow> 'c net_driver \<Rightarrow> 'c net_driver" where
  "net_push_data data l d = d"

definition net_push_control :: "bytes \<Rightarrow> nat \<Rightarrow> 'c net_driver \<Rightarrow> 'c net_driver" where
  "net_push_control data l d = d"

fun net_send_all ::
  "int list \<Rightarrow> 'c net_driver \<Rightarrow> (sys_exc option \<times> (sockaddr_in \<times> bytes) list \<times> 'c net_driver) option" where
  "net_send_all results Net_driver = Some (None, [], Net_driver)"
| "net_send_all results (Udp4_driver d) =
     map_option (\<lambda>(e, out, d'). (e, out, Udp4_driver d')) (send_all results d)"

fun net_recv_all :: "int \<Rightarrow> (u32 \<times> bytes) list \<Rightarrow> 'c net_driver \<Rightarrow> 'c conn_call list option" where
  "net_recv_all nreceived messages Net_driver = Some []"
| "net_recv_all nreceived messages (Udp4_driver d) = recv_all nreceived messages d"

section \<open>Clients of the interface\<close>

text \<open>The calls a client can make, and a run of them; it gives what was handed to the kernel.\<close>

datatype 'c net_op =
    Op_attach net_addr 'c
  | Op_detach net_addr
  | Op_push_data bytes nat
  | Op_push_control bytes nat
  | Op_send "int list"
  | Op_recv int "(u32 \<times> bytes) list"

fun net_exec :: "'c net_op \<Rightarrow> 'c net_driver \<Rightarrow> ((sockaddr_in \<times> bytes) list \<times> 'c net_driver) option" where
  "net_exec (Op_attach a c) d = Some ([], snd (net_attach a c d))"
| "net_exec (Op_detach a) d = Some ([], snd (net_detach a d))"
| "net_exec (Op_push_data m l) d = Some ([], net_push_data m l d)"
| "net_exec (Op_push_control m l) d = Some ([], net_push_control m l d)"
| "net_exec (Op_send results) d = map_option snd (net_send_all results d)"
| "net_exec (Op_recv n ms) d = map_option (\<lambda>calls. ([], d)) (net_recv_all n ms d)"

fun net_run :: "'c net_op list \<Rightarrow> 'c net_driver \<Rightarrow> ((sockaddr_in \<times> bytes) list \<times> 'c net_driver) option" where
  "net_run [] d = Some ([], d)"
| "net_run (x # xs) d =
     (case net_exec x d of
        None \<Rightarrow> None
      | Some (out, d') \<Rightarrow> map_option (\<lambda>(rest, d''). (out @ rest, d'')) (net_run xs d'))"

text \<open>The abstract driver of a client: a map from addresses to connections.\<close>

fun table_exec :: "'c net_op \<Rightarrow> (udp_addr \<rightharpoonup> 'c) \<Rightarrow> (udp_addr \<rightharpoonup> 'c)" where
  "table_exec (Op_attach (Addr a) c) t = (if t a = None then t(a \<mapsto> c) else t)"
| "table_exec (Op_detach (Addr a)) t = t(a := None)"
| "table_exec _ t = t"

lemma um_find_emplace_fun: "um_find (um_emplace k v m) = (if um_find m k = None then (um_find m)(k \<mapsto> v) else um_find m)"
  by (rule ext) (simp add: um_find_emplace)

lemma um_find_erase_fun: "um_find (um_erase k m) = (um_find m)(k := None)"
  by (rule ext) (simp add: um_find_erase)

text \<open>An empty queue hands over nothing and stays empty.\<close>

lemma send_all_empty:
  assumes "send_all results d = Some (e, out, d')" and "dr_send_queue d = uq_init"
  shows "out = [] \<and> d' = d"
proof -
  have "uq_clear uq_init = uq_init" by (simp add: uq_clear_def uq_init_def)
  then have "uq_send results uq_init = Some (e, o', q) \<Longrightarrow> o' = [] \<and> q = uq_init" for o' q
    by (cases results) (auto simp: uq_send_def uq_init_def Let_def split: if_splits)
  with assms show ?thesis by (auto simp: send_all_def split: option.splits)
qed

lemma net_exec_table:
  assumes "net_exec x (Udp4_driver d) = Some (out, nd)" and "dr_send_queue d = uq_init"
  shows "out = [] \<and> (\<exists>d'. nd = Udp4_driver d' \<and> dr_send_queue d' = uq_init \<and>
    um_find (dr_conn_map d') = table_exec x (um_find (dr_conn_map d)))"
proof (cases x)
  case (Op_attach a c)
  then show ?thesis using assms by (cases a) (auto simp: attach_def um_find_emplace_fun)
next
  case (Op_detach a)
  then show ?thesis using assms by (cases a) (auto simp: detach_def um_find_erase_fun)
next
  case (Op_send results)
  then show ?thesis using assms send_all_empty by fastforce
qed (use assms in \<open>auto simp: net_push_data_def net_push_control_def\<close>)

lemma net_run_table:
  "net_run xs (Udp4_driver d) = Some (out, nd) \<Longrightarrow> dr_send_queue d = uq_init \<Longrightarrow>
    out = [] \<and> (\<exists>d'. nd = Udp4_driver d' \<and> dr_send_queue d' = uq_init \<and>
      um_find (dr_conn_map d') = fold table_exec xs (um_find (dr_conn_map d)))"
proof (induction xs arbitrary: d out)
  case (Cons x xs)
  then obtain o1 nd1 o2 where 1: "net_exec x (Udp4_driver d) = Some (o1, nd1)" and
    2: "net_run xs nd1 = Some (o2, nd)" "out = o1 @ o2" by (auto split: option.splits)
  from net_exec_table [OF 1 Cons.prems(2)] obtain d1 where
    "o1 = []" "nd1 = Udp4_driver d1" "dr_send_queue d1 = uq_init"
    "um_find (dr_conn_map d1) = table_exec x (um_find (dr_conn_map d))" by blast
  with Cons.IH [of d1 o2] 2 show ?case by auto
next
  case Nil
  then have "out = [] \<and> nd = Udp4_driver d" by auto
  then show ?case using Nil.prems(2) by simp
qed

section \<open>Properties\<close>

text \<open>
  (C38) A client of \<open>NetDriver\<close> works with the connection table as with a map, in which the first
  connection attached under an address stays until it is detached; but it never sends: whatever
  it pushes, \<open>send_all\<close> hands nothing to the kernel. Nor does it load an address: the
  \<open>load\<close> it calls leaves the address as it was. Addresses that are equal have the same hash.
\<close>

theorem interface_never_sends:
  assumes "net_run xs (Udp4_driver driver_init) = Some (out, nd)"
  shows "out = [] \<and>
    (\<exists>d. nd = Udp4_driver d \<and> uq_messages (dr_send_queue d) = [] \<and>
      um_find (dr_conn_map d) = fold table_exec xs (\<lambda>a. None)) \<and>
    net_addr_load cfg (Addr a) = Addr a \<and> (addr_eq a b \<longrightarrow> std_hash (Addr a) = std_hash (Addr b))"
proof -
  have m: "um_find (dr_conn_map driver_init) = (\<lambda>a. None)" by (rule ext) (simp add: driver_init_def)
  have "dr_send_queue driver_init = uq_init" by (simp add: driver_init_def)
  from net_run_table [OF assms this] show ?thesis
    unfolding m by (auto simp: net_addr_load_def uq_messages_def uq_init_def)
qed

text \<open>A client that attaches a connection, pushes and sends.\<close>

theorem interface_never_sends_witness:
  "\<exists>d. net_run [Op_attach (Addr \<lparr>ad_src_ip = 1, ad_dst_ip = 2, ad_src_port = 3, ad_dst_port = 4\<rparr>) ''conn'',
      Op_push_data [7, 8, 9] 3, Op_send [0]] (Udp4_driver driver_init) = Some ([], Udp4_driver d) \<and>
    um_find (dr_conn_map d) \<lparr>ad_src_ip = 1, ad_dst_ip = 2, ad_src_port = 3, ad_dst_port = 4\<rparr> = Some ''conn''"
proof -
  let ?a = "\<lparr>ad_src_ip = 1, ad_dst_ip = 2, ad_src_port = 3, ad_dst_port = 4\<rparr>"
  let ?xs = "[Op_attach (Addr ?a) ''conn'', Op_push_data [7, 8, 9] 3, Op_send [0]]"
  obtain out nd where r: "net_run ?xs (Udp4_driver driver_init) = Some (out, nd)"
    by (simp add: net_push_data_def send_all_def uq_send_def attach_def driver_init_def uq_init_def)
  from interface_never_sends [OF r, of "()" ?a ?a] obtain d where
    "out = []" "nd = Udp4_driver d" "um_find (dr_conn_map d) = fold table_exec ?xs (\<lambda>a. None)" by blast
  then show ?thesis using r by auto
qed

end
