(* ===== verification/Config_Reparse.thy ===== *)
theory Config_Reparse
  imports Config_Dump
begin

text \<open>
  \<open>config.h\<close>: the text \<open>dump\<close> prints, given back to the parser. The notation of \<open>dump\<close> is not the
  one the parser reads: the colon becomes part of the key, and the indentation carries no meaning.
\<close>

section \<open>The printed text\<close>

fun line_text :: "dump_line \<Rightarrow> bytes" where
  "line_text (d, key, Some val) = replicate d 32 @ key @ [58, 32] @ val @ [10]"
| "line_text (d, key, None) = replicate d 32 @ key @ [10]"

definition dump_text :: "dump_line list \<Rightarrow> bytes" where
  "dump_text ls = concat (map line_text ls)"

text \<open>What the parser makes of the lines of an item: options without nesting, one for each line.\<close>

fun reparsed :: "cfg_item \<Rightarrow> bytes" where
  "reparsed (Opt k v) = encode_item (Opt (k @ [58]) v)"
| "reparsed (Sect k xs) = le32 (of_nat (6 + length k)) @ k @ [58, 0] @ concat (map reparsed xs)"

section \<open>Parsing a line\<close>

lemma parse_indent:
  "parse_loop (replicate d 32 @ rest) (at out st n ln Outside) = parse_loop rest (at out st n ln Outside)"
proof (induction d)
  case (Suc d)
  have "step_char 32 (at out st n ln Outside) = Inr (at out st n ln Outside, False)" by (simp add: step_defs)
  from parse_step [OF _ this] Suc show ?case by simp
qed simp

lemma plain_colon: "plain k \<Longrightarrow> plain (k @ [58])"
  by (auto simp: plain_def)

text \<open>The line of a section: a key and no value.\<close>

lemma parse_key_end:
  "parse_loop (10 # rest) (at (out @ [0, 0, 0, 0] @ k @ [0]) (Some (length out) # ps) 1 ln Outside)
    = parse_loop rest (at (out @ le32 (of_nat (5 + length k)) @ k @ [0]) (Some (length out) # ps) 0 (ln + 1) Outside)"
proof -
  have w: "write_at (length out) (le32 (of_nat (5 + length k))) (out @ [0, 0, 0, 0] @ k @ [0])
      = Some (out @ le32 (of_nat (5 + length k)) @ k @ [0])"
    by (rule write_len) simp
  have "step_char 10 (at (out @ [0, 0, 0, 0] @ k @ [0]) (Some (length out) # ps) 1 ln Outside)
      = Inr (at (out @ le32 (of_nat (5 + length k)) @ k @ [0]) (Some (length out) # ps) 0 (ln + 1) Outside, False)"
    using w by (simp add: step_defs add.assoc)
  from parse_step [OF _ this] show ?thesis by simp
qed

lemma parse_section_line:
  assumes "plain k"
  shows "parse_loop (line_text (d, k, Some []) @ rest) (at out (p # ps) 0 ln Outside)
    = parse_loop rest (at (out @ le32 (of_nat (6 + length k)) @ k @ [58, 0]) (Some (length out) # ps) 0 (ln + 1) Outside)"
proof -
  have "parse_loop (line_text (d, k, Some []) @ rest) (at out (p # ps) 0 ln Outside)
      = parse_loop (32 # 10 # rest) (at (out @ [0, 0, 0, 0] @ k @ [58]) (Some (length out) # ps) 0 ln Inside)"
    using parse_first_word [OF plain_colon [OF assms], of "32 # 10 # rest"] by (simp add: parse_indent)
  also have "\<dots> = parse_loop (10 # rest) (at (out @ [0, 0, 0, 0] @ (k @ [58]) @ [0]) (Some (length out) # ps) 1 ln Outside)"
    by (simp add: parse_space)
  also have "\<dots> = parse_loop rest (at (out @ le32 (of_nat (5 + length (k @ [58]))) @ (k @ [58]) @ [0])
      (Some (length out) # ps) 0 (ln + 1) Outside)" by (rule parse_key_end)
  also have "5 + length (k @ [58 :: u8]) = 6 + length k" by simp
  finally show ?thesis by simp
qed

lemma parse_option_line:
  assumes "plain k" and "plain v"
  shows "\<exists>p' ln'. parse_loop (line_text (d, k, Some v) @ rest) (at out (p # ps) 0 ln Outside)
    = parse_loop rest (at (out @ reparsed (Opt k v)) (p' # ps) 0 ln' Outside)"
  using parse_item [of "Opt (k @ [58]) v" rest out p ps ln] assms plain_colon by (simp add: parse_indent)

lemma parse_lines:
  "item_ok x \<Longrightarrow> \<exists>p' ln'. parse_loop (dump_text (item_lines d x) @ rest) (at out (p # ps) 0 ln Outside)
    = parse_loop rest (at (out @ reparsed x) (p' # ps) 0 ln' Outside)"
proof (induction x arbitrary: d rest out p ln)
  case (Opt k v)
  then show ?case using parse_option_line by (simp add: dump_text_def)
next
  case (Sect k xs)
  have items: "\<exists>p' ln'. parse_loop (dump_text (concat (map (item_lines e) ys)) @ rest) (at out (p # ps) 0 ln Outside)
      = parse_loop rest (at (out @ concat (map reparsed ys)) (p' # ps) 0 ln' Outside)"
    if "set ys \<subseteq> set xs" for ys e out p ln
    using that
  proof (induction ys arbitrary: out p ln)
    case (Cons y ys)
    then have y: "y \<in> set xs" "item_ok y" using Sect.prems by (auto simp: list_all_iff)
    obtain p1 ln1 where "parse_loop (dump_text (item_lines e y) @ dump_text (concat (map (item_lines e) ys)) @ rest)
        (at out (p # ps) 0 ln Outside)
      = parse_loop (dump_text (concat (map (item_lines e) ys)) @ rest) (at (out @ reparsed y) (p1 # ps) 0 ln1 Outside)"
      using Sect.IH [OF y] by blast
    moreover obtain p2 ln2 where "parse_loop (dump_text (concat (map (item_lines e) ys)) @ rest)
        (at (out @ reparsed y) (p1 # ps) 0 ln1 Outside)
      = parse_loop rest (at ((out @ reparsed y) @ concat (map reparsed ys)) (p2 # ps) 0 ln2 Outside)"
      using Cons by (meson set_subset_Cons subset_trans)
    ultimately show ?case by (auto simp: dump_text_def)
  qed (auto simp: dump_text_def)
  have "parse_loop (dump_text (item_lines d (Sect k xs)) @ rest) (at out (p # ps) 0 ln Outside)
      = parse_loop (line_text (d, k, Some []) @ dump_text (concat (map (item_lines (Suc d)) xs)) @ rest)
          (at out (p # ps) 0 ln Outside)"
    by (simp add: dump_text_def)
  then show ?case
    using parse_section_line [of k] Sect.prems
      items [OF subset_refl, of "Suc d" "out @ le32 (of_nat (6 + length k)) @ k @ [58, 0]" "Some (length out)" "ln + 1"]
    by simp
qed

lemma parse_config_dumped:
  assumes "list_all item_ok xs"
  shows "parse_config (dump_text (concat (map (item_lines d) xs))) = Inr (concat (map reparsed xs))"
proof -
  have "\<exists>p' ln'. parse_loop (dump_text (concat (map (item_lines d) xs))) (at out [p] 0 ln Outside)
      = Inr (at (out @ concat (map reparsed xs)) [p'] 0 ln' Outside)" for out p ln
    using assms
  proof (induction xs arbitrary: out p ln)
    case Nil
    then show ?case by (simp add: dump_text_def parse_loop.simps)
  next
    case (Cons x xs)
    then obtain p1 ln1 where
      "parse_loop (dump_text (item_lines d x) @ dump_text (concat (map (item_lines d) xs))) (at out [p] 0 ln Outside)
      = parse_loop (dump_text (concat (map (item_lines d) xs))) (at (out @ reparsed x) [p1] 0 ln1 Outside)"
      using parse_lines [of x] by fastforce
    with Cons.IH [of "out @ reparsed x" p1 ln1] Cons.prems show ?case by (simp add: dump_text_def)
  qed
  from this [of "[]" None 0] show ?thesis
    by (auto simp: parse_config_def parser_init_def parse_finish_def end_opt_def throw_error_def)
qed

section \<open>Properties\<close>

text \<open>The byte after the first key tells the two packed forms apart.\<close>

lemma encode_nth: "encode_item x ! (4 + length (item_key x)) = 0" "4 + length (item_key x) < length (encode_item x)"
  by (cases x; simp add: nth_append)+

lemma reparsed_nth: "reparsed x ! (4 + length (item_key x)) = 58" "4 + length (item_key x) < length (reparsed x)"
  by (cases x; simp add: nth_append)+



end
