(* ===== verification/Spec2Isabelle.thy ===== *)
theory Spec2Isabelle
  imports Packet_Reachable Bit_Reader Packet_Sequence Packet_Buffer Buffers Udp4_Transport Udp4_Conn
    Port_Filter Config_Dump Config_Addr Tracker_Queries Channel_Properties Tls_Context Block_Tail
    Ref_Count Scope_Lock Lock_Simple Lock_Brute Lock_Pthread Hole_Punch Logging
    Lock_Choice Config_Sections Config_Errors Call_Check Peer_Thread Bit_Fragment Control Ref_Scope
    Waiting Block_Checksum Ring_View Packet_Iter Guard_Use Lock_Progress Net_Driver Config_Reparse
begin

text \<open>
  A verification library for the networking code of this repository: peers that exchange buffers
  over raw UDP and messages over TLS, a tracker that knows the peers, and the locks, guards,
  buffers, formats and ciphers they are built from.

  \<^bold>\<open>The program and the theories.\<close>

  Packets. A buffer is cut into numbered packets by \<open>PacketSendQueue\<close> and put together by
  \<open>PacketRecvQueue\<close> (\<open>packet_queue.h\<close>: \<open>Packet_Queue\<close> has the definitions, \<open>Packet_Reassembly\<close> the
  composition of the two, \<open>Packet_Reachable\<close> what holds of every queue the operations produce).
  \<open>UDP4Connection\<close> (\<open>udp4_conn.h\<close>: \<open>Udp4_Conn\<close>) carries their packets in datagrams.
  \<open>packet_sequence.h\<close> (\<open>Packet_Sequence\<close>) and \<open>packet_buffer.h\<close> (\<open>Packet_Buffer\<close>, with its
  iteration in \<open>Packet_Iter\<close>) are two other stores of packets, one contiguous, one a ring.
  \<open>control.h\<close> (\<open>Control\<close>) lays out the control structures of a data channel.

  The raw driver. \<open>udp4.h\<close> builds IPv4 and UDP headers over payloads given as chains of buffers
  (\<open>chained_buffer.h\<close>, \<open>buffer.h\<close>: \<open>Buffers\<close>; \<open>Ring_View\<close> has the double block buffer), queues them for \<open>sendmmsg\<close>, and dispatches what
  \<open>recvmmsg\<close> delivers to the connection attached under an address (\<open>Udp_Checksum\<close>, \<open>Udp4\<close>,
  \<open>Udp4_Transport\<close>). Its socket gets filter programs (\<open>socket_filter.h\<close>: \<open>Port_Filter\<close>) and its
  addresses come from a configuration (\<open>Config_Addr\<close>). \<open>net_drv.h\<close> is the interface it is meant to
  be used through (\<open>Net_Driver\<close>).

  Formats. \<open>config.h\<close> turns text into a packed tree (\<open>Config_Parser\<close>), looks options up in it
  (\<open>Config_Lookup\<close>, for sections and defaults \<open>Config_Sections\<close>), reports errors (\<open>Config_Errors\<close>)
  and prints it (\<open>Config_Dump\<close>; \<open>Config_Reparse\<close> reads that text back). \<open>proto/bit_writer.h\<close> and \<open>proto/bit_reader.h\<close> are the bit buffers
  of the generated serialisers (\<open>Bit_Writer\<close>, \<open>Bit_Reader\<close>, \<open>Bit_Fragment\<close>).

  Peers. \<open>crypto/auth.cc\<close> derives identifiers from keys and checks certificates against them
  (\<open>Peer_Id\<close>), with the digests of \<open>crypto/sgn.cc\<close> (\<open>Digest\<close>) and the contexts of \<open>crypto/ssl.cc\<close>
  (\<open>Tls_Context\<close>). \<open>conn/\<close> transfers messages over TLS and hands them to handlers (\<open>Channel\<close>,
  \<open>Channel_Properties\<close>), in the thread that serves a connection (\<open>Peer_Thread\<close>). \<open>tracker/tracker.cc\<close> keeps and searches the tables of peers (\<open>Tracker\<close>,
  \<open>Tracker_Queries\<close>). \<open>net/\<close> opens TCP sockets, listens for peers and punches holes
  (\<open>Tcp_Socket\<close>, \<open>Hole_Punch\<close>; \<open>Waiting\<close> has the times they wait, with \<open>utils/time.cc\<close>).

  Cipher. \<open>crypto/block.h\<close>: AES-256 and a summing mode (\<open>Block_Cipher\<close>, \<open>Key_Schedule\<close>,
  \<open>Block_Mode\<close>, \<open>Block_Tail\<close>) with a checksum (\<open>Block_Checksum\<close>).

  Ownership and locks. \<open>SocketGuard\<close> and \<open>GuardPointer\<close> (\<open>Guards\<close>, \<open>Guard_Use\<close>), \<open>Ref\<close>
  (\<open>Ref_Count\<close>, \<open>Ref_Scope\<close>), the scoped locks (\<open>Scope_Lock\<close>); the two futex locks (\<open>Lock_Protocol\<close>, \<open>Lock_Simple\<close>, \<open>Lock_Brute\<close>)
  and the pthread lock (\<open>Lock_Pthread\<close>). \<open>Monitor\<close> says what all three promise and
  \<open>Lock_Refinement\<close> that they keep it, \<open>Lock_Progress\<close> that the futex locks never get stuck;
  \<open>Lock_Choice\<close> has the locks of a build (\<open>utils/lock.h\<close>) and
  the atomic operations. \<open>Logging\<close> has log levels, log lines and assertions, \<open>Call_Check\<close> the
  macros that check the results of calls (\<open>err.h\<close>, \<open>net/call_check\<close>, \<open>crypto/call_check\<close>) and the
  exceptions they throw, over the decimal numbers of \<open>Decimal\<close>.

  \<open>Prelude\<close> holds the integer types, byte orders, the half-open loop over sequence numbers and the
  cutting of buffers; \<open>Assoc_Map\<close> the ordered and the hash map of the C++ library.

  \<^bold>\<open>Correspondence.\<close> A definition has the name of the function it models, prefixed where two classes
  share a name (\<open>rq_\<close> receive queue, \<open>sq_\<close> send queue, \<open>pb_\<close> ring, \<open>sg_\<close> socket guard, and so on);
  a loop is a function of its own, named after it. A class is a record with its members, an object
  is passed and returned explicitly. Integers keep their width; a buffer is a list of bytes, a
  pointer into one the list from there on, except in \<open>Block_Cipher\<close>, where buffers may overlap and
  pointers are offsets into one memory, and in \<open>Ref_Count\<close>, where objects live on a heap. Exceptions
  are the left values of a sum or an optional result beside the state they leave. An action that is
  undefined in C++ is a value of its own (\<open>None\<close>, or a constructor such as \<open>Out_of_bounds\<close>), as is
  not returning.

  \<^bold>\<open>Interfaces.\<close> \<open>assoc_map\<close> (lookup after insertion and removal) is interpreted on both maps,
  \<open>packet_table\<close> on both queues, \<open>bit_sink\<close> on the bit writer, \<open>resource_guard\<close> on socket guards, pointers and scoped locks,
  \<open>lock_protocol\<close> on both futex locks, \<open>monitor_refinement\<close> (a simulation of every step by at most
  one event of the monitor) on all three locks, \<open>lock_progress\<close>, which extends \<open>lock_protocol\<close> by
  a rank that goes down with every operation, on both futex locks, \<open>data_dispatch\<close> on both kinds of handler tables. What a
  client needs of one is proved once inside the locale.

  \<^bold>\<open>What the lemmas show.\<close> For each component: its operations preserve its invariant
  (\<open>rq_wf\<close>, \<open>sq_wf\<close>, \<open>bw_wf\<close>, \<open>br_wf\<close>, \<open>pb_wf\<close>, \<open>cp_inv\<close>, \<open>ref_inv\<close>, \<open>simple_inv\<close>, \<open>brute_inv\<close>,
  \<open>pt_inv\<close>); what they compute, on the branches that fail as well; that loops end; and how the
  components compose: a buffer pushed, sent, received and copied out is the same buffer, a packet
  sent reaches the connection attached at the other end, an option written is the option found, an
  address configured is the address loaded, what is opened or locked is closed or unlocked once.
  The locks refine the monitor: critical sections are apart in every interleaving, and a thread
  that waits is woken up before it goes on; operations of the futex locks end, whatever the
  schedule. The double block buffer refines a queue.
  Where the code does not do what it is meant to, the theorem says what it does instead.

  \<^bold>\<open>Bounds and parameters.\<close> The results of system calls and of OpenSSL enter as arguments: lists of
  results for loops (a loop that needs more of them than there are is \<open>None\<close>), functions of the
  arguments otherwise. \<open>malloc\<close> may fail or give any contents. Loops that may run forever
  (\<open>resolve_seq\<close>, \<open>push_buffer_loop\<close>, \<open>cfg_find\<close>, \<open>dump_loop\<close>) are partial functions, for which
  returning is proved separately; no fuel is used. A hash is an arbitrary function, applied
  \<open>2\<^sup>14\<close> times as the code does. The AES instructions (\<open>aes_unit\<close>), the filter machine of the kernel
  and \<open>inet_pton\<close> are parameters with documented laws (\<open>aes_laws\<close>, \<open>bpf_laws\<close>), which the witnesses
  instantiate. A finite \<open>float\<close> is a rational number, and of rounding only monotonicity and the
  exactness of small integers are used (\<open>rounding\<close>). Shared memory is sequentially consistent, as the atomic operations of the locks are.
  The host is little-endian with 64-bit \<open>size_t\<close>.

  \<^bold>\<open>Not modelled.\<close> \<open>enc.h\<close> and \<open>dec.h\<close> refer to classes, members and variables that do not exist
  (\<open>DataLoader\<close>, \<open>in_buf\<close>, \<open>enc_block\<close>, \<open>full\<close>, \<open>size_clamp\<close>), so there is nothing to translate them to;
  \<open>DoubleBlockProcBuf::in\<close> is an empty stub.
  Other code that does not compile as it stands, but says what it means, is modelled as meant, and
  the theory that does so says it: \<open>read_fragment\<close>, \<open>IndexIter::operator++\<close>, the constructor of
  \<open>OutBufWrapper\<close>, the move operations of the scoped locks. A \<open>wait\<close> of the locks with a timeout
  takes the same steps as one that is woken up for no reason, which the step relations have.
  \<open>make_peer_punch_tcpv4\<close> is commented out. Test programs, the Python generators and the Python
  tracker server are not part of the library.
\<close>

end
